(* ===== verification/Prelude.thy ===== *)
theory Prelude
  imports Main "HOL-Library.Word" "HOL-Library.Multiset"
begin

text \<open>
  Shared vocabulary of the development: the Go types the program uses (bytes, \<open>uint32\<close>,
  \<open>uint64\<close>, strings), big-endian integers (\<open>encoding/binary\<close>), byte readers and writers
  (\<open>io.Reader\<close> with \<open>io.ReadFull\<close>, \<open>io.Writer\<close>), and the generic lemmas on them.
  A locale states what a self-delimiting codec promises; the wire formats of the forwarder
  interpret it.
\<close>

unbundle bit_operations_syntax

named_theorems io_simps \<open>evaluation of readers and writers\<close>
named_theorems word_simps \<open>values of machine integers\<close>

section \<open>Go types\<close>

type_synonym byte = "8 word"
type_synonym u8 = "8 word"
type_synonym u32 = "32 word"
type_synonym u64 = "64 word"

text \<open>A \<open>time.Duration\<close> counts nanoseconds.\<close>

definition seconds :: "int \<Rightarrow> int" where
  "seconds n = n * 1000000000"

text \<open>A Go string is a sequence of bytes, as HOL's \<open>string\<close> is.\<close>

definition string_bytes :: "string \<Rightarrow> byte list" where
  "string_bytes s = map (\<lambda>c. of_nat (of_char c)) s"

definition bytes_string :: "byte list \<Rightarrow> string" where
  "bytes_string bs = map (\<lambda>b. char_of (unat b)) bs"

lemma length_string_bytes [simp]: "length (string_bytes s) = length s"
  by (simp add: string_bytes_def)

lemma length_bytes_string [simp]: "length (bytes_string bs) = length bs"
  by (simp add: bytes_string_def)

lemma unat_of_char [word_simps]: "unat (of_nat (of_char c) :: byte) = of_char c"
proof -
  have "(of_char c :: nat) < 256"
    by (rule nat_of_char_less_256)
  then show ?thesis
    by (simp add: unat_of_nat)
qed

lemma bytes_string_bytes [simp]: "bytes_string (string_bytes s) = s"
  by (simp add: bytes_string_def string_bytes_def word_simps comp_def)

lemma of_char_char_of_byte [word_simps]: "of_nat (of_char (char_of (unat b))) = (b :: byte)"
proof -
  have "unat b < 256"
    using unsigned_less [where w = b and 'a = nat] by simp
  then have "(of_char (char_of (unat b)) :: nat) = unat b"
    by simp
  then show ?thesis
    by simp
qed

lemma string_bytes_string [simp]: "string_bytes (bytes_string bs) = bs"
  by (simp add: bytes_string_def string_bytes_def word_simps comp_def del: of_char_of)

lemma string_bytes_inject [simp]: "string_bytes s = string_bytes t \<longleftrightarrow> s = t"
  by (metis bytes_string_bytes)

section \<open>Big-endian integers\<close>

text \<open>
  \<open>binary.BigEndian.PutUint32/64\<close>: byte \<open>k\<close> counted from the end is the value shifted right
  by \<open>8 * k\<close>, truncated to a byte; \<open>Uint32/64\<close> shifts and ors the bytes back together.
\<close>

definition put_be :: "nat \<Rightarrow> 'a::len word \<Rightarrow> byte list" where
  "put_be n w = map (\<lambda>i. ucast (drop_bit (8 * i) w)) (rev [0..<n])"

definition get_be :: "byte list \<Rightarrow> 'a::len word" where
  "get_be bs = foldl (\<lambda>acc b. push_bit 8 acc OR ucast b) 0 bs"

lemma length_put_be [simp]: "length (put_be n w) = n"
  by (simp add: put_be_def)

lemma bit_byte_high: "8 \<le> n \<Longrightarrow> \<not> bit (b :: byte) n"
  by (auto dest: bit_imp_le_length)

lemma bit_get_be:
  "n < LENGTH('a) \<Longrightarrow> bit (get_be bs :: 'a::len word) n \<longleftrightarrow>
     n < 8 * length bs \<and> bit (rev bs ! (n div 8)) (n mod 8)"
proof (induction bs arbitrary: n rule: rev_induct)
  case Nil
  then show ?case
    by (simp add: get_be_def)
next
  case (snoc b bs)
  have s: "get_be (bs @ [b]) = (push_bit 8 (get_be bs) OR ucast b :: 'a word)"
    by (simp add: get_be_def)
  show ?case
  proof (cases "n < 8")
    case True
    then show ?thesis
      using snoc.prems by (simp add: s bit_simps)
  next
    case False
    then obtain m where m: "n = m + 8"
      by (metis add.commute le_Suc_ex not_less)
    have "(m + 8) div 8 - Suc 0 = m div 8"
      by simp
    then show ?thesis
      using snoc m by (simp add: s bit_simps bit_byte_high)
  qed
qed

lemma bit_put_be:
  "i < n \<Longrightarrow> k < 8 \<Longrightarrow> bit (rev (put_be n w) ! i) k \<longleftrightarrow> bit (w :: 'a::len word) (8 * i + k)"
  by (auto simp: put_be_def rev_map bit_simps dest: bit_imp_le_length)

lemma get_put_be:
  assumes "LENGTH('a) \<le> 8 * n"
  shows "get_be (put_be n w) = (w :: 'a::len word)"
proof (rule bit_word_eqI)
  fix k
  assume k: "k < LENGTH('a)"
  then have "k div 8 < n"
    using assms by auto
  then show "bit (get_be (put_be n w) :: 'a word) k = bit w k"
    using k assms by (simp add: bit_get_be bit_put_be)
qed

lemma put_get_be:
  assumes "LENGTH('a) = 8 * length bs"
  shows "put_be (length bs) (get_be bs :: 'a::len word) = bs"
proof -
  have "rev (put_be (length bs) (get_be bs :: 'a word)) = rev bs"
  proof (rule nth_equalityI)
    fix i
    assume i: "i < length (rev (put_be (length bs) (get_be bs :: 'a word)))"
    show "rev (put_be (length bs) (get_be bs :: 'a word)) ! i = rev bs ! i"
    proof (rule bit_word_eqI)
      fix k
      assume "k < LENGTH(8)"
      then have k: "k < 8"
        by simp
      have "8 * i + k < LENGTH('a)"
        using i k assms by simp
      then show "bit (rev (put_be (length bs) (get_be bs :: 'a word)) ! i) k = bit (rev bs ! i) k"
        using i k assms by (simp add: bit_put_be bit_get_be)
    qed
  qed simp
  then show ?thesis
    by simp
qed

lemmas be_roundtrips = get_put_be put_get_be

text \<open>The width a 64-bit or 32-bit integer has in this program's frames.\<close>

lemma get_put_u32 [simp]: "get_be (put_be 4 w) = (w :: u32)"
  by (simp add: get_put_be)

lemma get_put_u64 [simp]: "get_be (put_be 8 w) = (w :: u64)"
  by (simp add: get_put_be)

lemma put_get_u32 [simp]: "length bs = 4 \<Longrightarrow> put_be 4 (get_be bs :: u32) = bs"
  using put_get_be [where 'a = 32 and bs = bs] by simp

lemma put_get_u64 [simp]: "length bs = 8 \<Longrightarrow> put_be 8 (get_be bs :: u64) = bs"
  using put_get_be [where 'a = 64 and bs = bs] by simp

lemma unat_of_nat_u8 [word_simps]: "n < 256 \<Longrightarrow> unat (of_nat n :: u8) = n"
  by (simp add: unat_of_nat)

lemma unat_of_nat_u32 [word_simps]: "n < 2 ^ 32 \<Longrightarrow> unat (of_nat n :: u32) = n"
  by (simp add: unat_of_nat)

lemma of_nat_eq_zero_u32 [word_simps]: "n < 2 ^ 32 \<Longrightarrow> (of_nat n :: u32) = 0 \<longleftrightarrow> n = 0"
  by (auto dest: arg_cong [of _ _ unat] simp: unat_of_nat_u32)

lemma of_nat_inj_u32 [word_simps]:
  "m < 2 ^ 32 \<Longrightarrow> n < 2 ^ 32 \<Longrightarrow> (of_nat m :: u32) = of_nat n \<longleftrightarrow> m = n"
  by (auto dest: arg_cong [of _ _ unat] simp: unat_of_nat_u32)

section \<open>Maps\<close>

text \<open>A range over a Go map visits each of its keys once, in an order the language leaves open.\<close>

definition visits :: "'k list \<Rightarrow> ('k \<rightharpoonup> 'v) \<Rightarrow> bool" where
  "visits keys m \<longleftrightarrow> distinct keys \<and> set keys = dom m"

lemma set_map_filter_visits: "visits keys m \<Longrightarrow> set (List.map_filter m keys) = ran m"
  by (auto simp: visits_def List.map_filter_def ran_def dom_def image_iff) force

section \<open>Lists updated by index\<close>

lemma mset_concat_map_update:
  assumes "i < length xs"
  shows "mset (concat (map f (xs[i := x]))) + mset (f (xs ! i)) = mset (concat (map f xs)) + mset (f x)"
proof -
  have "mset (concat (map f xs)) =
      mset (concat (map f (take i xs))) + mset (f (xs ! i)) + mset (concat (map f (drop (Suc i) xs)))"
    by (subst id_take_nth_drop [OF assms]) simp
  then show ?thesis
    by (simp add: upd_conv_take_nth_drop [OF assms])
qed

section \<open>Byte readers and writers\<close>

text \<open>
  The error values of \<open>io\<close>; \<open>Failed\<close> stands for every other failure of a connection
  (reset, closed, deadline), with a number that tells them apart.
\<close>

datatype io_error = EOF | UnexpectedEOF | Failed nat

text \<open>
  A reader is what the other side will deliver and the error that \<open>Read\<close> returns after it.
  A writer is what the connection has accepted and, when it is going to break, how many bytes
  it still accepts.
\<close>

record reader =
  rbuf :: "byte list"
  rend :: io_error

record writer =
  wout :: "byte list"
  wroom :: "nat option"

text \<open>
  \<open>io.ReadFull\<close>: exactly \<open>n\<close> bytes, or the reader's error; the end of the stream inside the
  \<open>n\<close> bytes is \<open>UnexpectedEOF\<close>, at their start it is \<open>EOF\<close>.
\<close>

definition read_full :: "nat \<Rightarrow> reader \<Rightarrow> (io_error + byte list) \<times> reader" where
  "read_full n r =
     (if n \<le> length (rbuf r) then (Inr (take n (rbuf r)), r\<lparr>rbuf := drop n (rbuf r)\<rparr>)
      else (Inl (if rend r = EOF \<and> rbuf r \<noteq> [] then UnexpectedEOF else rend r), r\<lparr>rbuf := []\<rparr>))"

text \<open>
  \<open>Write\<close>: the whole slice, or the part the connection still takes and an error.
\<close>

definition conn_write :: "byte list \<Rightarrow> writer \<Rightarrow> io_error option \<times> writer" where
  "conn_write b w =
     (case wroom w of
        None \<Rightarrow> (None, w\<lparr>wout := wout w @ b\<rparr>)
      | Some k \<Rightarrow>
          if length b \<le> k then (None, w\<lparr>wout := wout w @ b, wroom := Some (k - length b)\<rparr>)
          else (Some (Failed 0), w\<lparr>wout := wout w @ take k b, wroom := Some 0\<rparr>))"

lemma read_full_prefix [io_simps]:
  "rbuf r = xs @ ys \<Longrightarrow> n = length xs \<Longrightarrow> read_full n r = (Inr xs, r\<lparr>rbuf := ys\<rparr>)"
  by (simp add: read_full_def)

lemma read_full_InrD:
  "read_full n r = (Inr xs, r') \<Longrightarrow>
     length xs = n \<and> rbuf r = xs @ rbuf r' \<and> rend r' = rend r"
  by (auto simp: read_full_def split: if_splits)

lemma read_full_InlD:
  "read_full n r = (Inl e, r') \<Longrightarrow> length (rbuf r) < n \<and> rbuf r' = [] \<and> rend r' = rend r"
  by (auto simp: read_full_def split: if_splits)

lemma read_full_short [io_simps]:
  "length (rbuf r) < n \<Longrightarrow>
     read_full n r =
       (Inl (if rend r = EOF \<and> rbuf r \<noteq> [] then UnexpectedEOF else rend r), r\<lparr>rbuf := []\<rparr>)"
  by (simp add: read_full_def)

lemma conn_write_unlimited [io_simps]:
  "wroom w = None \<Longrightarrow> conn_write b w = (None, w\<lparr>wout := wout w @ b\<rparr>)"
  by (simp add: conn_write_def)

text \<open>A write that reports success has appended the whole slice, and the rest of a writer's
  history never changes.\<close>

lemma conn_write_NoneD: "conn_write b w = (None, w') \<Longrightarrow> wout w' = wout w @ b"
  by (auto simp: conn_write_def split: option.splits if_splits)

lemma conn_write_SomeD:
  "conn_write b w = (Some e, w') \<Longrightarrow> \<exists>k < length b. wout w' = wout w @ take k b \<and> wroom w = Some k"
  by (auto simp: conn_write_def split: option.splits if_splits)

lemma conn_write_wroom_None [io_simps]: "wroom w = None \<Longrightarrow> wroom (snd (conn_write b w)) = None"
  by (simp add: conn_write_def)

section \<open>Self-delimiting codecs\<close>

text \<open>
  What a framing promises to the code that uses it: a frame written is the frame read back,
  with what follows it left in the reader, and what is read was a frame's encoding.
\<close>

locale frame_codec =
  fixes enc :: "'f \<Rightarrow> byte list"
    and dec :: "reader \<Rightarrow> ('e + 'f) \<times> reader"
    and valid :: "'f \<Rightarrow> bool"
  assumes dec_enc: "valid f \<Longrightarrow> rbuf r = enc f @ rest \<Longrightarrow> dec r = (Inr f, r\<lparr>rbuf := rest\<rparr>)"
    and dec_sound: "dec r = (Inr f, r') \<Longrightarrow> valid f \<and> rbuf r = enc f @ rbuf r' \<and> rend r' = rend r"
    and enc_nonempty: "valid f \<Longrightarrow> enc f \<noteq> []"
begin

lemma dec_iff:
  "dec r = (Inr f, r') \<longleftrightarrow> valid f \<and> rbuf r = enc f @ rbuf r' \<and> rend r' = rend r"
proof
  assume "valid f \<and> rbuf r = enc f @ rbuf r' \<and> rend r' = rend r"
  then show "dec r = (Inr f, r')"
    using dec_enc [of f r "rbuf r'"] by simp
qed (rule dec_sound)

lemma prefix_free:
  assumes "valid f" and "valid g" and eq: "enc f @ xs = enc g @ ys"
  shows "f = g \<and> xs = ys"
proof -
  define r where "r = \<lparr>rbuf = enc f @ xs, rend = EOF\<rparr>"
  have "dec r = (Inr f, r\<lparr>rbuf := xs\<rparr>)"
    using assms(1) by (simp add: dec_enc r_def)
  moreover have "dec r = (Inr g, r\<lparr>rbuf := ys\<rparr>)"
    using assms(2) eq by (simp add: dec_enc r_def)
  ultimately show ?thesis
    by (simp add: r_def)
qed

lemma truncated_is_error:
  assumes "valid f" and cut: "enc f = rbuf r @ ys" "ys \<noteq> []"
  shows "\<exists>e. fst (dec r) = Inl e"
proof (cases "dec r")
  case (Pair x r')
  show ?thesis
  proof (cases x)
    case (Inr g)
    then have g: "valid g" "rbuf r = enc g @ rbuf r'"
      using Pair dec_sound [of r g r'] by auto
    then have "enc f @ [] = enc g @ (rbuf r' @ ys)"
      using cut by simp
    then show ?thesis
      using prefix_free [OF \<open>valid f\<close> g(1)] cut(2) by blast
  qed (simp add: Pair)
qed

lemma frames_inject:
  "\<forall>f \<in> set fs. valid f \<Longrightarrow> \<forall>g \<in> set gs. valid g \<Longrightarrow>
     concat (map enc fs) = concat (map enc gs) \<Longrightarrow> fs = gs"
proof (induction fs arbitrary: gs)
  case Nil
  then show ?case
    by (cases gs) (auto simp: enc_nonempty)
next
  case (Cons f fs)
  have "enc f \<noteq> []"
    using Cons.prems(1) by (simp add: enc_nonempty)
  then have "gs \<noteq> []"
    using Cons.prems(3) by (cases gs) simp_all
  then obtain g gs' where gs: "gs = g # gs'"
    by (cases gs) simp_all
  have "enc f @ concat (map enc fs) = enc g @ concat (map enc gs')"
    using Cons.prems(3) gs by simp
  then have "f = g" "concat (map enc fs) = concat (map enc gs')"
    using prefix_free [of f g] Cons.prems(1,2) gs by simp_all
  moreover have "fs = gs'"
    using Cons.IH [of gs'] Cons.prems(1,2) \<open>concat (map enc fs) = concat (map enc gs')\<close> gs
    by simp
  ultimately show ?case
    using gs by simp
qed

end

end
