(* ===== verification/Wire.thy ===== *)
theory Wire
  imports Prelude
begin

text \<open>
  The framing of the forwarder's streams (\<open>internal/forward/forward.go\<close>): the stream header
  (\<open>writeStreamHeader\<close>, \<open>readStreamHeader\<close>) and the chunks that follow it (\<open>writeChunk\<close>,
  \<open>readChunk\<close>). Both formats interpret the codec interface of the prelude, so that round
  trips, prefix-freeness and the rejection of truncated input are facts of the interface.
\<close>

section \<open>Stream headers\<close>

definition maxTagLen :: nat where
  "maxTagLen = 255"

text \<open>The constant \<open>numStripes\<close>: how many streams the listener side opens per connection.\<close>

definition listenStripes :: nat where
  "listenStripes = 1"

definition chunkSize :: nat where
  "chunkSize = 64 * 1024"

record streamHeader =
  tag :: string
  sessionID :: u64
  stripeIdx :: u8
  numStripes :: u8

datatype header_error =
    HeaderIO io_error
  | InvalidTagLength nat
  | ZeroTagLength
  | ZeroStripeCount

text \<open>The buffer \<open>writeStreamHeader\<close> assembles before its one \<open>Write\<close>.\<close>

definition header_bytes :: "streamHeader \<Rightarrow> byte list" where
  "header_bytes h =
     of_nat (length (tag h)) # string_bytes (tag h) @ put_be 8 (sessionID h) @
     [stripeIdx h, numStripes h]"

definition writeStreamHeader ::
    "writer \<Rightarrow> streamHeader \<Rightarrow> header_error option \<times> writer" where
  "writeStreamHeader w h =
     (if length (tag h) = 0 \<or> length (tag h) > maxTagLen
      then (Some (InvalidTagLength (length (tag h))), w)
      else case conn_write (header_bytes h) w of (e, w') \<Rightarrow> (map_option HeaderIO e, w'))"

definition readStreamHeader :: "reader \<Rightarrow> (header_error + streamHeader) \<times> reader" where
  "readStreamHeader r =
     (case read_full 1 r of
        (Inl e, r1) \<Rightarrow> (Inl (HeaderIO e), r1)
      | (Inr lenBuf, r1) \<Rightarrow>
          let n = unat (lenBuf ! 0) in
          if n = 0 then (Inl ZeroTagLength, r1)
          else case read_full n r1 of
            (Inl e, r2) \<Rightarrow> (Inl (HeaderIO e), r2)
          | (Inr tagBuf, r2) \<Rightarrow>
              case read_full 10 r2 of
                (Inl e, r3) \<Rightarrow> (Inl (HeaderIO e), r3)
              | (Inr meta, r3) \<Rightarrow>
                  let h = \<lparr>tag = bytes_string tagBuf, sessionID = get_be (take 8 meta),
                           stripeIdx = meta ! 8, numStripes = meta ! 9\<rparr> in
                  if numStripes h = 0 then (Inl ZeroStripeCount, r3) else (Inr h, r3))"

definition header_ok :: "streamHeader \<Rightarrow> bool" where
  "header_ok h \<longleftrightarrow> 0 < length (tag h) \<and> length (tag h) \<le> maxTagLen \<and> numStripes h \<noteq> 0"

lemma length_header_bytes: "length (header_bytes h) = length (tag h) + 11"
  by (simp add: header_bytes_def)

lemma length_header_meta: "length (put_be 8 (s :: u64) @ [i, n]) = 10"
  by simp

lemma readStreamHeader_header_bytes:
  assumes "header_ok h" and "rbuf r = header_bytes h @ rest"
  shows "readStreamHeader r = (Inr h, r\<lparr>rbuf := rest\<rparr>)"
proof -
  have n: "unat (of_nat (length (tag h)) :: byte) = length (tag h)" "0 < length (tag h)"
    "numStripes h \<noteq> 0"
    using assms(1) by (simp_all add: header_ok_def maxTagLen_def word_simps)
  let ?meta = "put_be 8 (sessionID h) @ [stripeIdx h, numStripes h]"
  have "read_full 1 r =
      (Inr [of_nat (length (tag h))], r\<lparr>rbuf := string_bytes (tag h) @ ?meta @ rest\<rparr>)"
    using assms(2) by (intro read_full_prefix) (simp_all add: header_bytes_def)
  moreover have "read_full (length (tag h)) (r\<lparr>rbuf := string_bytes (tag h) @ ?meta @ rest\<rparr>) =
      (Inr (string_bytes (tag h)), r\<lparr>rbuf := ?meta @ rest\<rparr>)"
    by (subst read_full_prefix) simp_all
  moreover have "read_full 10 (r\<lparr>rbuf := ?meta @ rest\<rparr>) = (Inr ?meta, r\<lparr>rbuf := rest\<rparr>)"
    by (subst read_full_prefix) simp_all
  ultimately show ?thesis
    using n by (simp add: readStreamHeader_def nth_append)
qed

lemma list_of_length_10:
  "length xs = 10 \<Longrightarrow> xs = take 8 xs @ [xs ! 8, xs ! 9]"
  by (intro nth_equalityI) (auto simp: nth_append less_Suc_eq numeral_eq_Suc)

lemma readStreamHeader_sound:
  assumes "readStreamHeader r = (Inr h, r')"
  shows "header_ok h \<and> rbuf r = header_bytes h @ rbuf r' \<and> rend r' = rend r"
proof -
  obtain lenBuf r1 where 1: "read_full 1 r = (Inr lenBuf, r1)"
    and n0: "unat (lenBuf ! 0) \<noteq> 0"
    using assms by (auto simp: readStreamHeader_def Let_def split: prod.splits sum.splits if_splits)
  obtain tagBuf r2 where 2: "read_full (unat (lenBuf ! 0)) r1 = (Inr tagBuf, r2)"
    using assms 1 by (auto simp: readStreamHeader_def Let_def split: prod.splits sum.splits if_splits)
  obtain meta where 3: "read_full 10 r2 = (Inr meta, r')"
    and h: "h = \<lparr>tag = bytes_string tagBuf, sessionID = get_be (take 8 meta),
                 stripeIdx = meta ! 8, numStripes = meta ! 9\<rparr>" "meta ! 9 \<noteq> 0"
    using assms 1 2 by (auto simp: readStreamHeader_def Let_def split: prod.splits sum.splits if_splits)
  have l: "length lenBuf = 1" "length tagBuf = unat (lenBuf ! 0)" "length meta = 10"
    using read_full_InrD [OF 1] read_full_InrD [OF 2] read_full_InrD [OF 3] by simp_all
  have b: "rbuf r = lenBuf @ tagBuf @ meta @ rbuf r'" "rend r' = rend r"
    using read_full_InrD [OF 1] read_full_InrD [OF 2] read_full_InrD [OF 3] by simp_all
  have len: "lenBuf = [of_nat (length tagBuf)]"
    using l by (cases lenBuf) simp_all
  have "unat (lenBuf ! 0) < 256"
    using unsigned_less [where w = "lenBuf ! 0" and 'a = nat] by simp
  then have "header_ok h"
    using l n0 h by (simp add: header_ok_def maxTagLen_def)
  moreover have "header_bytes h = lenBuf @ tagBuf @ meta"
  proof -
    have "header_bytes h = lenBuf @ tagBuf @ take 8 meta @ [meta ! 8, meta ! 9]"
      using h l(3) by (simp add: header_bytes_def len)
    also have "take 8 meta @ [meta ! 8, meta ! 9] = meta"
      by (rule list_of_length_10 [OF l(3), symmetric])
    finally show ?thesis .
  qed
  ultimately show ?thesis
    using b by (simp only: append_assoc)
qed

interpretation hdr: frame_codec header_bytes readStreamHeader header_ok
proof
  show "header_bytes f \<noteq> []" for f
    by (simp add: header_bytes_def)
qed (fact readStreamHeader_header_bytes readStreamHeader_sound)+

section \<open>Chunks\<close>

definition readChunk :: "reader \<Rightarrow> (u32 \<times> byte list \<times> io_error option) \<times> reader" where
  "readChunk r =
     (case read_full 8 r of
        (Inl e, r1) \<Rightarrow> ((0, [], Some e), r1)
      | (Inr hdr, r1) \<Rightarrow>
          let len = (get_be (take 4 hdr) :: u32); seq = (get_be (drop 4 hdr) :: u32) in
          if len = 0 then ((seq, [], None), r1)
          else case read_full (unat len) r1 of
            (Inl e, r2) \<Rightarrow> ((seq, [], Some e), r2)
          | (Inr buf, r2) \<Rightarrow> ((seq, buf, None), r2))"

definition writeChunk :: "writer \<Rightarrow> u32 \<Rightarrow> byte list \<Rightarrow> io_error option \<times> writer" where
  "writeChunk w seq payload =
     (case conn_write (put_be 4 (of_nat (length payload) :: u32) @ put_be 4 seq) w of
        (Some e, w1) \<Rightarrow> (Some e, w1)
      | (None, w1) \<Rightarrow>
          if length payload > 0 then conn_write payload w1 else (None, w1))"

text \<open>What a chunk looks like on the wire, and which chunks the length field can carry.\<close>

fun chunk_bytes :: "u32 \<times> byte list \<Rightarrow> byte list" where
  "chunk_bytes (seq, payload) =
     put_be 4 (of_nat (length payload) :: u32) @ put_be 4 seq @ payload"

fun chunk_ok :: "u32 \<times> byte list \<Rightarrow> bool" where
  "chunk_ok (seq, payload) \<longleftrightarrow> length payload < 2 ^ 32"

text \<open>\<open>readChunk\<close> with its Go result triple read as a sum.\<close>

definition chunk_result :: "reader \<Rightarrow> (io_error + u32 \<times> byte list) \<times> reader" where
  "chunk_result r =
     (case readChunk r of
        ((seq, payload, None), r') \<Rightarrow> (Inr (seq, payload), r')
      | ((seq, payload, Some e), r') \<Rightarrow> (Inl e, r'))"

text \<open>Chunk number \<open>j\<close> of a list of payloads as it is framed, and the frames of several.\<close>

abbreviation frame_of :: "byte list list \<Rightarrow> nat \<Rightarrow> u32 \<times> byte list" where
  "frame_of cs j \<equiv> (of_nat j, cs ! j)"

abbreviation frames_of :: "byte list list \<Rightarrow> nat list \<Rightarrow> byte list" where
  "frames_of cs js \<equiv> concat (map (\<lambda>j. chunk_bytes (frame_of cs j)) js)"

lemma length_chunk_bytes: "length (chunk_bytes (seq, payload)) = 8 + length payload"
  by simp

lemma readChunk_chunk_bytes:
  assumes "length payload < 2 ^ 32" and "rbuf r = chunk_bytes (seq, payload) @ rest"
  shows "readChunk r = ((seq, payload, None), r\<lparr>rbuf := rest\<rparr>)"
proof -
  let ?len = "of_nat (length payload) :: u32"
  have "read_full 8 r = (Inr (put_be 4 ?len @ put_be 4 seq), r\<lparr>rbuf := payload @ rest\<rparr>)"
    using assms(2) by (intro read_full_prefix) simp_all
  moreover have "read_full (length payload) (r\<lparr>rbuf := payload @ rest\<rparr>) =
      (Inr payload, r\<lparr>rbuf := rest\<rparr>)"
    by (subst read_full_prefix) simp_all
  moreover have "unat ?len = length payload" "?len = 0 \<longleftrightarrow> payload = []"
    using assms(1) by (simp_all add: word_simps)
  ultimately show ?thesis
    by (simp add: readChunk_def Let_def)
qed

lemma readChunk_sound:
  assumes "readChunk r = ((seq, payload, None), r')"
  shows "length payload < 2 ^ 32 \<and> rbuf r = chunk_bytes (seq, payload) @ rbuf r' \<and>
    rend r' = rend r"
proof -
  obtain hd8 r1 where 1: "read_full 8 r = (Inr hd8, r1)"
    using assms by (auto simp: readChunk_def Let_def split: prod.splits sum.splits if_splits)
  define len where "len = (get_be (take 4 hd8) :: u32)"
  have h: "length hd8 = 8" "rbuf r = hd8 @ rbuf r1" "rend r1 = rend r"
    using read_full_InrD [OF 1] by simp_all
  have seq: "seq = get_be (drop 4 hd8)"
    using assms 1 by (auto simp: readChunk_def Let_def split: prod.splits sum.splits if_splits)
  have hd8: "hd8 = put_be 4 len @ put_be 4 seq"
    using h(1) by (simp add: len_def seq)
  have "length payload = unat len \<and> rbuf r1 = payload @ rbuf r' \<and> rend r' = rend r1"
  proof (cases "len = 0")
    case True
    then have "payload = []" "r' = r1"
      using assms 1 by (auto simp: readChunk_def Let_def len_def)
    then show ?thesis
      using True by simp
  next
    case False
    then have "read_full (unat len) r1 = (Inr payload, r')"
      using assms 1 by (auto simp: readChunk_def Let_def len_def split: prod.splits sum.splits)
    then show ?thesis
      by (auto dest: read_full_InrD)
  qed
  moreover have "unat len < 2 ^ 32"
    using unsigned_less [where w = len and 'a = nat] by simp
  moreover have "of_nat (unat len) = len"
    by simp
  ultimately show ?thesis
    using h hd8 by simp
qed

lemma chunk_result_Inr_iff:
  "chunk_result r = (Inr (seq, payload), r') \<longleftrightarrow> readChunk r = ((seq, payload, None), r')"
  by (auto simp: chunk_result_def split: prod.splits option.splits)

interpretation chk: frame_codec chunk_bytes chunk_result chunk_ok
proof
  fix f and r :: reader and rest
  assume f: "chunk_ok f" and r: "rbuf r = chunk_bytes f @ rest"
  obtain seq payload where [simp]: "f = (seq, payload)"
    by (cases f)
  show "chunk_result r = (Inr f, r\<lparr>rbuf := rest\<rparr>)"
    using f r readChunk_chunk_bytes [of payload r seq rest] by (simp add: chunk_result_Inr_iff)
next
  fix f and r r' :: reader
  assume "chunk_result r = (Inr f, r')"
  moreover obtain seq payload where [simp]: "f = (seq, payload)"
    by (cases f)
  ultimately show "chunk_ok f \<and> rbuf r = chunk_bytes f @ rbuf r' \<and> rend r' = rend r"
    using readChunk_sound [of r seq payload r'] by (simp add: chunk_result_Inr_iff)
next
  fix f
  have "length (chunk_bytes f) = 8 + length (snd f)"
    by (cases f) simp
  then show "chunk_bytes f \<noteq> []"
    by auto
qed

text \<open>
  What a chunk leaves on a stream: its encoding, or, when the connection breaks, a prefix of it
  and a connection that takes nothing more.
\<close>

definition carried :: "writer \<Rightarrow> writer \<Rightarrow> byte list \<Rightarrow> bool" where
  "carried w0 w bs \<longleftrightarrow>
     wout w = wout w0 @ bs \<or> (wroom w = Some 0 \<and> (\<exists>m \<le> length bs. wout w = wout w0 @ take m bs))"

lemma carried_refl: "carried w w []"
  by (simp add: carried_def)

lemma carried_extend:
  assumes "carried w0 w bs" and "wroom w = Some 0"
  shows "carried w0 w (bs @ b)"
proof -
  obtain m where "m \<le> length bs" "wout w = wout w0 @ take m bs"
    using assms(1) by (auto simp: carried_def intro: that [of "length bs"])
  then have "m \<le> length (bs @ b)" "wout w = wout w0 @ take m (bs @ b)"
    by simp_all
  then show ?thesis
    using assms(2) unfolding carried_def by blast
qed

lemma conn_write_Some_room: "conn_write b w = (Some e, w') \<Longrightarrow> wroom w' = Some 0"
  by (auto simp: conn_write_def split: option.splits if_splits)

lemma carried_conn_write:
  assumes "carried w0 w bs"
  shows "carried w0 (snd (conn_write b w)) (bs @ b)"
proof (cases "wout w = wout w0 @ bs")
  case True
  obtain e w' where e: "conn_write b w = (e, w')"
    by (cases "conn_write b w")
  show ?thesis
  proof (cases e)
    case None
    then show ?thesis
      using e True conn_write_NoneD [of b w w'] by (simp add: carried_def)
  next
    case (Some x)
    then obtain k where k: "k < length b" "wout w' = wout w @ take k b"
      using e conn_write_SomeD [of b w x w'] by auto
    then have "length bs + k \<le> length (bs @ b)" "wout w' = wout w0 @ take (length bs + k) (bs @ b)"
      using True by simp_all
    then have "\<exists>m \<le> length (bs @ b). wout w' = wout w0 @ take m (bs @ b)"
      by blast
    then show ?thesis
      using e conn_write_Some_room [of b w x w'] Some by (simp add: carried_def)
  qed
next
  case False
  then have r: "wroom w = Some 0"
    using assms by (simp add: carried_def)
  then have "wout (snd (conn_write b w)) = wout w" "wroom (snd (conn_write b w)) = Some 0"
    by (auto simp: conn_write_def)
  then show ?thesis
    using carried_extend [OF assms r, of b] r by (simp add: carried_def)
qed

lemma carried_writeChunk:
  assumes "carried w0 w bs"
  shows "carried w0 (snd (writeChunk w seq payload)) (bs @ chunk_bytes (seq, payload))"
proof -
  let ?h = "put_be 4 (of_nat (length payload) :: u32) @ put_be 4 seq"
  obtain e w1 where e: "conn_write ?h w = (e, w1)"
    by (cases "conn_write ?h w")
  have c: "carried w0 w1 (bs @ ?h)"
    using carried_conn_write [OF assms, of ?h] e by simp
  show ?thesis
  proof (cases e)
    case None
    then show ?thesis
      using e c carried_conn_write [OF c, of payload]
      by (cases payload) (simp_all add: writeChunk_def)
  next
    case (Some x)
    then show ?thesis
      using carried_extend [OF c, of payload] conn_write_Some_room [of ?h w x w1] e
      by (simp add: writeChunk_def)
  qed
qed

lemma wroom_writeChunk [io_simps]:
  "wroom w = None \<Longrightarrow> wroom (snd (writeChunk w seq payload)) = None"
  by (simp add: writeChunk_def io_simps)

lemma writeChunk_unlimited [io_simps]:
  "wroom w = None \<Longrightarrow>
     writeChunk w seq payload = (None, w\<lparr>wout := wout w @ chunk_bytes (seq, payload)\<rparr>)"
  by (simp add: writeChunk_def io_simps)

lemma writeChunk_NoneD:
  "writeChunk w seq payload = (None, w') \<Longrightarrow> wout w' = wout w @ chunk_bytes (seq, payload)"
  by (auto simp: writeChunk_def dest!: conn_write_NoneD split: prod.splits option.splits if_splits)

lemma carried_unlimited: "carried w0 w bs \<Longrightarrow> wroom w = None \<Longrightarrow> wout w = wout w0 @ bs"
  by (simp add: carried_def)

lemma carried_prefix: "carried w0 w bs \<Longrightarrow> \<exists>m. wout w = wout w0 @ take m bs"
  by (auto simp: carried_def intro: exI [of _ "length bs"])

section \<open>Properties of the framing\<close>

lemma writeStreamHeader_NoneD:
  "writeStreamHeader w h = (None, w') \<Longrightarrow>
     0 < length (tag h) \<and> length (tag h) \<le> maxTagLen \<and> wout w' = wout w @ header_bytes h"
  by (auto simp: writeStreamHeader_def dest: conn_write_NoneD split: if_splits prod.splits)

lemma writeStreamHeader_SomeD:
  assumes "writeStreamHeader w h = (Some e, w')"
  shows "\<exists>k. k < length (header_bytes h) \<and> wout w' = wout w @ take k (header_bytes h) \<and>
    (k = 0 \<or> 0 < length (tag h) \<and> length (tag h) \<le> maxTagLen)"
proof (cases "length (tag h) = 0 \<or> length (tag h) > maxTagLen")
  case True
  then show ?thesis
    using assms by (intro exI [of _ 0]) (auto simp: writeStreamHeader_def length_header_bytes)
next
  case False
  then obtain x where "conn_write (header_bytes h) w = (Some x, w')"
    using assms by (auto simp: writeStreamHeader_def split: prod.splits)
  then show ?thesis
    using False by (auto dest: conn_write_SomeD)
qed

text \<open>C9 (roundtrip): the header the listener side writes on a stream is the header the accept
  side reads from it, and the bytes that follow it (the first chunks) stay in the stream.\<close>

theorem header_roundtrip:
  assumes "writeStreamHeader w h = (None, w')" and "numStripes h \<noteq> 0"
    and "rbuf r = drop (length (wout w)) (wout w') @ rest"
  shows "readStreamHeader r = (Inr h, r\<lparr>rbuf := rest\<rparr>)"
  using assms writeStreamHeader_NoneD [OF assms(1)]
  by (intro hdr.dec_enc) (simp_all add: header_ok_def)

definition sample_header :: streamHeader where
  "sample_header = \<lparr>tag = ''http'', sessionID = 77, stripeIdx = 0, numStripes = 1\<rparr>"

definition sample_writer :: writer where
  "sample_writer = \<lparr>wout = [], wroom = None\<rparr>"

theorem header_roundtrip_witness:
  "readStreamHeader \<lparr>rbuf = header_bytes sample_header @ [1, 2], rend = EOF\<rparr> =
     (Inr sample_header, \<lparr>rbuf = [1, 2], rend = EOF\<rparr>)"
proof -
  have "writeStreamHeader sample_writer sample_header =
      (None, sample_writer\<lparr>wout := header_bytes sample_header\<rparr>)"
    by (simp add: writeStreamHeader_def sample_header_def sample_writer_def maxTagLen_def io_simps)
  from header_roundtrip [OF this, of "\<lparr>rbuf = header_bytes sample_header @ [1, 2], rend = EOF\<rparr>" "[1, 2]"]
  show ?thesis
    by (simp add: sample_header_def sample_writer_def)
qed

text \<open>C10 (equivalence): the header parser accepts exactly the encodings of well-formed headers
  (a tag of 1 to 255 bytes and a nonzero stripe count), consumes exactly the encoding and leaves
  the rest of the stream untouched.\<close>

theorem readStreamHeader_iff:
  "readStreamHeader r = (Inr h, r') \<longleftrightarrow>
     1 \<le> length (tag h) \<and> length (tag h) \<le> 255 \<and> numStripes h \<noteq> 0 \<and>
     rbuf r = header_bytes h @ rbuf r' \<and> rend r' = rend r"
  using hdr.dec_iff [of r h r'] by (auto simp: header_ok_def maxTagLen_def Suc_le_eq)

lemma truncated_header_any:
  assumes "0 < length (tag h)" "length (tag h) \<le> maxTagLen" "k < length (header_bytes h)"
    and "rbuf r = take k (header_bytes h)"
  shows "\<exists>e. fst (readStreamHeader r) = Inl e"
proof -
  let ?h = "h\<lparr>numStripes := 1\<rparr>"
  have "header_bytes h = butlast (header_bytes h) @ [numStripes h]"
    "header_bytes ?h = butlast (header_bytes h) @ [1]"
    by (simp_all add: header_bytes_def butlast_append)
  moreover have "take k (header_bytes h) = take k (butlast (header_bytes h))"
    using assms(3) by (metis Suc_leI butlast_conv_take length_butlast take_butlast take_take
        min.absorb1 less_eq_Suc_le diff_Suc_1 Suc_diff_1 not_less_eq_eq)
  ultimately have "header_bytes ?h = rbuf r @ drop k (butlast (header_bytes h)) @ [1]"
    using assms(4) by simp
  moreover have "header_ok ?h"
    using assms(1,2) by (simp add: header_ok_def)
  ultimately show ?thesis
    by (intro hdr.truncated_is_error [of ?h r "drop k (butlast (header_bytes h)) @ [1]"]) simp_all
qed

text \<open>A header whose write the sender saw fail, because the tag has no legal length
  or because the connection broke, is never taken for a header by the receiver.\<close>

lemma failed_header_never_read:
  assumes "writeStreamHeader w h = (Some e, w')"
    and "rbuf r = drop (length (wout w)) (wout w')"
  shows "\<exists>err. fst (readStreamHeader r) = Inl err"
proof -
  obtain k where k: "k < length (header_bytes h)" "wout w' = wout w @ take k (header_bytes h)"
    "k = 0 \<or> 0 < length (tag h) \<and> length (tag h) \<le> maxTagLen"
    using writeStreamHeader_SomeD [OF assms(1)] by blast
  show ?thesis
  proof (cases "k = 0")
    case True
    then show ?thesis
      using assms(2) k(2) by (simp add: readStreamHeader_def io_simps)
  next
    case False
    then show ?thesis
      using assms(2) k by (intro truncated_header_any [of h k]) simp_all
  qed
qed

text \<open>Where a stream ends inside a header decides the error. At the start of one of
  the header's three reads (length byte, tag, metadata) the parser reports a clean \<open>EOF\<close>,
  everywhere else \<open>UnexpectedEOF\<close>.\<close>

lemma truncated_header_error:
  assumes "header_ok h" and "header_bytes h = rbuf r @ ys" and "ys \<noteq> []" and "rend r = EOF"
  shows "fst (readStreamHeader r) =
    Inl (HeaderIO (if length (rbuf r) \<in> {0, 1, 1 + length (tag h)} then EOF else UnexpectedEOF))"
proof (cases "rbuf r")
  case Nil
  then show ?thesis
    using assms(4) by (simp add: readStreamHeader_def io_simps)
next
  case (Cons b bs)
  let ?n = "length (tag h)"
  let ?meta = "put_be 8 (sessionID h) @ [stripeIdx h, numStripes h]"
  have n: "unat (of_nat ?n :: byte) = ?n" "0 < ?n"
    using assms(1) by (simp_all add: header_ok_def maxTagLen_def word_simps)
  have b: "b = of_nat ?n" and bs: "bs @ ys = string_bytes (tag h) @ ?meta"
    using assms(2) Cons by (simp_all add: header_bytes_def)
  have 1: "read_full 1 r = (Inr [of_nat ?n], r\<lparr>rbuf := bs\<rparr>)"
    using Cons b by (intro read_full_prefix) simp_all
  show ?thesis
  proof (cases "length bs < ?n")
    case True
    then show ?thesis
      using 1 n assms(4) Cons by (simp add: readStreamHeader_def io_simps)
  next
    case False
    then have "bs = string_bytes (tag h) @ drop ?n bs"
      using bs by (metis append_eq_append_conv_if append_take_drop_id length_string_bytes not_less)
    then obtain m where m: "bs = string_bytes (tag h) @ m"
      by blast
    then have "m @ ys = ?meta"
      using bs by simp
    then have "length m + length ys = 10"
      by (metis length_append length_header_meta)
    then have "length m < 10"
      using assms(3) by (cases ys) simp_all
    moreover have "read_full ?n (r\<lparr>rbuf := bs\<rparr>) = (Inr (string_bytes (tag h)), r\<lparr>rbuf := m\<rparr>)"
      using m by (subst read_full_prefix) simp_all
    ultimately show ?thesis
      using 1 n assms(4) Cons m by (simp add: readStreamHeader_def io_simps)
  qed
qed

text \<open>A chunk written on a stream is the chunk read from it, and the chunks that
  follow it stay in the stream. Only a payload of \<open>2 ^ 32\<close> bytes or more would not fit.\<close>

lemma chunk_roundtrip:
  assumes "writeChunk w seq payload = (None, w')" and "length payload < 2 ^ 32"
    and "rbuf r = drop (length (wout w)) (wout w') @ rest"
  shows "readChunk r = ((seq, payload, None), r\<lparr>rbuf := rest\<rparr>)"
  using assms(2,3) writeChunk_NoneD [OF assms(1)]
  by (intro readChunk_chunk_bytes) (simp_all del: chunk_bytes.simps)

end
