(* ===== verification/Machine.thy ===== *)
theory Machine
  imports Prelude
begin

text \<open>
  Interleaved programs as machines: a step function from an action and a state to the next state,
  if the action is possible, and its runs. An invariant is an interface with one law, proved once
  for the machine's steps; the locales carry it over to runs, and, with a rank that every step
  decreases, bound the runs and find a state in which nothing can move.
\<close>

fun run :: "('a \<Rightarrow> 's \<Rightarrow> 's option) \<Rightarrow> 'a list \<Rightarrow> 's \<Rightarrow> 's option" where
  "run step [] s = Some s"
| "run step (a # as) s = (case step a s of None \<Rightarrow> None | Some t \<Rightarrow> run step as t)"

lemma run_append: "run step (as @ bs) s = (case run step as s of None \<Rightarrow> None | Some t \<Rightarrow> run step bs t)"
  by (induction as arbitrary: s) (simp_all split: option.split)

lemma run_ConsE:
  assumes "run step (a # as) s = Some t"
  obtains u where "step a s = Some u" and "run step as u = Some t"
  using assms by (auto split: option.splits)

locale machine_invariant =
  fixes step :: "'a \<Rightarrow> 's \<Rightarrow> 's option"
    and inv :: "'s \<Rightarrow> bool"
    and allowed :: "'a \<Rightarrow> bool"
  assumes step_inv: "inv s \<Longrightarrow> allowed a \<Longrightarrow> step a s = Some t \<Longrightarrow> inv t"
begin

lemma run_inv: "run step as s = Some t \<Longrightarrow> inv s \<Longrightarrow> (\<And>a. a \<in> set as \<Longrightarrow> allowed a) \<Longrightarrow> inv t"
proof (induction as arbitrary: s)
  case (Cons a as)
  from Cons.prems(1) obtain u where u: "step a s = Some u" "run step as u = Some t"
    by (rule run_ConsE)
  show ?case
    by (rule Cons.IH [OF u(2) step_inv [OF Cons.prems(2) _ u(1)]]) (simp_all add: Cons.prems(3))
qed simp

end

locale machine_measure = machine_invariant step inv allowed
  for step :: "'a \<Rightarrow> 's \<Rightarrow> 's option" and inv :: "'s \<Rightarrow> bool" and allowed :: "'a \<Rightarrow> bool" +
  fixes rank :: "'s \<Rightarrow> nat"
  assumes step_rank: "inv s \<Longrightarrow> allowed a \<Longrightarrow> step a s = Some t \<Longrightarrow> rank t < rank s"
begin

lemma run_rank:
  "run step as s = Some t \<Longrightarrow> inv s \<Longrightarrow> (\<And>a. a \<in> set as \<Longrightarrow> allowed a) \<Longrightarrow> length as + rank t \<le> rank s"
proof (induction as arbitrary: s)
  case (Cons a as)
  from Cons.prems(1) obtain u where u: "step a s = Some u" "run step as u = Some t"
    by (rule run_ConsE)
  have a: "allowed a"
    by (simp add: Cons.prems(3))
  have "length as + rank t \<le> rank u"
    by (rule Cons.IH [OF u(2) step_inv [OF Cons.prems(2) a u(1)]]) (simp add: Cons.prems(3))
  then show ?case
    using step_rank [OF Cons.prems(2) a u(1)] by simp
qed simp

text \<open>Some run of allowed actions ends in a state in which none of them is possible.\<close>

lemma run_to_end:
  "inv s \<Longrightarrow> \<exists>as t. run step as s = Some t \<and> inv t \<and> (\<forall>a \<in> set as. allowed a) \<and> (\<forall>a. allowed a \<longrightarrow> step a t = None)"
proof (induction "rank s" arbitrary: s rule: less_induct)
  case less
  show ?case
  proof (cases "\<forall>a. allowed a \<longrightarrow> step a s = None")
    case True
    then show ?thesis
      using less.prems by (intro exI [of _ "[]"] exI [of _ s]) simp
  next
    case False
    then obtain a u where u: "allowed a" "step a s = Some u"
      by auto
    then obtain as t where "run step as u = Some t" "inv t" "\<forall>a \<in> set as. allowed a" "\<forall>a. allowed a \<longrightarrow> step a t = None"
      using less.hyps [of u] step_rank [OF less.prems u] step_inv [OF less.prems u] by blast
    then show ?thesis
      using u by (intro exI [of _ "a # as"] exI [of _ t]) simp
  qed
qed

end

end
