(* ===== verification/StripeSend.thy ===== *)
theory StripeSend
  imports Wire Machine
begin

text \<open>
  The sending half of the striped byte pump of \<open>internal/forward/forward.go\<close>: \<open>writeStripes\<close>
  cuts the bytes it reads from a TCP connection into numbered chunks and hands each chunk to
  whichever stream writer is free. Its goroutines are a step relation, one action per goroutine
  step; the lemmas give its invariant, a bound on its runs, progress while no stream fails, and
  the deadlock it runs into when its only stream breaks.
\<close>

section \<open>The sender\<close>

text \<open>
  A source is the sequence of results its \<open>Read\<close> calls return: slices without an error, then one
  slice (maybe empty) together with the error that ends the loop.
\<close>

record source =
  src_reads :: "byte list list"
  src_last :: "byte list"
  src_err :: io_error

definition src_read :: "source \<Rightarrow> (byte list \<times> io_error option) \<times> source" where
  "src_read s =
     (case src_reads s of
        p # ps \<Rightarrow> ((p, None), s\<lparr>src_reads := ps\<rparr>)
      | [] \<Rightarrow> ((src_last s, Some (src_err s)), s))"

definition src_bytes :: "source \<Rightarrow> byte list" where
  "src_bytes s = concat (src_reads s) @ src_last s"

text \<open>\<open>Read\<close> never returns more than the buffer holds.\<close>

definition source_ok :: "source \<Rightarrow> bool" where
  "source_ok s \<longleftrightarrow> (\<forall>p \<in> set (src_reads s). length p \<le> chunkSize) \<and> length (src_last s) \<le> chunkSize"

text \<open>
  Where the reading goroutine stands: in the loop before \<open>Read\<close>; blocked on
  \<open>dispatch <- chunk\<close> (and whether the same \<open>Read\<close> returned an error); past
  \<open>close(dispatch)\<close>, in \<open>wg.Wait()\<close>; sending the EOF markers; returned. A writer goroutine
  waits for a chunk, is writing one, or has returned.
\<close>

datatype ws_pc =
    Reading
  | Sending "byte list" bool
  | Draining
  | Marking nat
  | WsDone

datatype ws_writer = WIdle | WBusy u32 "byte list" | WExit

record ws_state =
  ws_src :: source
  ws_at :: ws_pc
  ws_seq :: u32
  ws_counter :: u64
  ws_writers :: "ws_writer list"
  ws_streams :: "writer list"

definition ws_init :: "source \<Rightarrow> writer list \<Rightarrow> ws_state" where
  "ws_init src streams =
     \<lparr>ws_src = src, ws_at = Reading, ws_seq = 0, ws_counter = 0,
      ws_writers = replicate (length streams) WIdle, ws_streams = streams\<rparr>"

datatype ws_act = ARead | ADispatch nat | AWrite nat | AQuit nat | AWait | AMark

text \<open>One step of the sender; \<open>None\<close> when the goroutine the action names cannot move.\<close>

fun ws_step :: "ws_act \<Rightarrow> ws_state \<Rightarrow> ws_state option" where
  "ws_step ARead s =
     (if ws_at s = Reading then
        (case src_read (ws_src s) of ((p, e), src') \<Rightarrow>
           Some (s\<lparr>ws_src := src',
                  ws_at := (if length p > 0 then Sending p (e \<noteq> None)
                            else if e \<noteq> None then Draining else Reading)\<rparr>))
      else None)"
| "ws_step (ADispatch i) s =
     (case ws_at s of
        Sending p fin \<Rightarrow>
          if i < length (ws_writers s) \<and> ws_writers s ! i = WIdle then
            Some (s\<lparr>ws_writers := (ws_writers s)[i := WBusy (ws_seq s) p],
                   ws_counter := ws_counter s + of_nat (length p),
                   ws_seq := ws_seq s + 1,
                   ws_at := (if fin then Draining else Reading)\<rparr>)
          else None
      | _ \<Rightarrow> None)"
| "ws_step (AWrite i) s =
     (if i < length (ws_writers s) then
        (case ws_writers s ! i of
           WBusy q p \<Rightarrow>
             (case writeChunk (ws_streams s ! i) q p of (e, w) \<Rightarrow>
                Some (s\<lparr>ws_streams := (ws_streams s)[i := w],
                       ws_writers := (ws_writers s)[i := (if e = None then WIdle else WExit)]\<rparr>))
         | _ \<Rightarrow> None)
      else None)"
| "ws_step (AQuit i) s =
     (if ws_at s = Draining \<and> i < length (ws_writers s) \<and> ws_writers s ! i = WIdle then
        Some (s\<lparr>ws_writers := (ws_writers s)[i := WExit]\<rparr>)
      else None)"
| "ws_step AWait s =
     (if ws_at s = Draining \<and> (\<forall>w \<in> set (ws_writers s). w = WExit) then
        Some (s\<lparr>ws_at := Marking 0\<rparr>)
      else None)"
| "ws_step AMark s =
     (case ws_at s of
        Marking i \<Rightarrow>
          if i < length (ws_streams s) then
            (case writeChunk (ws_streams s ! i) (ws_seq s) [] of (_, w) \<Rightarrow>
               Some (s\<lparr>ws_streams := (ws_streams s)[i := w], ws_at := Marking (Suc i)\<rparr>))
          else Some (s\<lparr>ws_at := WsDone\<rparr>)
      | _ \<Rightarrow> None)"

inductive ws_steps :: "ws_state \<Rightarrow> ws_state \<Rightarrow> bool" for s where
  start: "ws_steps s s"
| step: "ws_steps s t \<Longrightarrow> ws_step a t = Some u \<Longrightarrow> ws_steps s u"

abbreviation ws_run :: "ws_act list \<Rightarrow> ws_state \<Rightarrow> ws_state option" where
  "ws_run \<equiv> run ws_step"

fun_cases ws_step_SomeE:
  "ws_step ARead s = Some t" "ws_step (ADispatch i) s = Some t" "ws_step (AWrite i) s = Some t"
  "ws_step (AQuit i) s = Some t" "ws_step AWait s = Some t" "ws_step AMark s = Some t"

lemma ws_steps_trans: "ws_steps t u \<Longrightarrow> ws_steps s t \<Longrightarrow> ws_steps s u"
  by (induction rule: ws_steps.induct) (blast intro: ws_steps.intros)+

section \<open>What the sender keeps true\<close>

text \<open>The chunks a source gives rise to: one per \<open>Read\<close> that returned bytes.\<close>

definition src_chunks :: "source \<Rightarrow> byte list list" where
  "src_chunks s = filter (\<lambda>p. p \<noteq> []) (src_reads s @ [src_last s])"

lemma concat_filter_nonempty: "concat (filter (\<lambda>p. p \<noteq> []) xs) = concat xs"
  by (induction xs) auto

lemma concat_src_chunks [simp]: "concat (src_chunks s) = src_bytes s"
  by (simp add: src_chunks_def src_bytes_def concat_filter_nonempty del: filter_append)

text \<open>The chunks that are still to be dispatched.\<close>

fun ws_todo :: "ws_state \<Rightarrow> byte list list" where
  "ws_todo s =
     (case ws_at s of
        Reading \<Rightarrow> src_chunks (ws_src s)
      | Sending p fin \<Rightarrow> p # (if fin then [] else src_chunks (ws_src s))
      | _ \<Rightarrow> [])"

text \<open>
  The sender's invariant, for the chunks \<open>cs\<close> of the source: the first \<open>k\<close> chunks have been
  handed out, each to exactly one writer (\<open>owns ! i\<close> lists those of writer \<open>i\<close>, in order); a
  stream carries the frames of its writer's chunks, without the one being written, and after it
  the EOF marker once that has been sent.
\<close>

definition marked :: "ws_state \<Rightarrow> nat \<Rightarrow> bool" where
  "marked s i \<longleftrightarrow> (case ws_at s of Marking m \<Rightarrow> i < m | WsDone \<Rightarrow> True | _ \<Rightarrow> False)"

definition written :: "ws_writer \<Rightarrow> nat list \<Rightarrow> nat list" where
  "written w js = (case w of WBusy _ _ \<Rightarrow> butlast js | _ \<Rightarrow> js)"

definition stream_inv ::
    "byte list list \<Rightarrow> writer list \<Rightarrow> ws_state \<Rightarrow> nat list list \<Rightarrow> nat \<Rightarrow> bool" where
  "stream_inv cs streams s owns i \<longleftrightarrow>
     carried (streams ! i) (ws_streams s ! i)
       (frames_of cs (written (ws_writers s ! i) (owns ! i)) @
        (if marked s i then chunk_bytes (ws_seq s, []) else [])) \<and>
     (\<forall>q p. ws_writers s ! i = WBusy q p \<longrightarrow> owns ! i \<noteq> [] \<and> (q, p) = frame_of cs (last (owns ! i))) \<and>
     sorted_wrt (<) (owns ! i)"

definition ws_inv :: "byte list list \<Rightarrow> writer list \<Rightarrow> ws_state \<Rightarrow> nat list list \<Rightarrow> nat \<Rightarrow> bool" where
  "ws_inv cs streams s owns k \<longleftrightarrow>
     k \<le> length cs \<and> drop k cs = ws_todo s \<and> ws_seq s = of_nat k \<and>
     ws_counter s = of_nat (length (concat (take k cs))) \<and>
     length (ws_writers s) = length streams \<and> length (ws_streams s) = length streams \<and>
     length owns = length streams \<and>
     distinct (concat owns) \<and> set (concat owns) = {..<k} \<and>
     (ws_at s \<in> range Marking \<union> {WsDone} \<longrightarrow> (\<forall>w \<in> set (ws_writers s). w = WExit)) \<and>
     (\<forall>i < length streams. stream_inv cs streams s owns i)"

lemma ws_inv_init: "ws_inv (src_chunks src) streams (ws_init src streams) (replicate (length streams) []) 0"
  by (auto simp: ws_inv_def ws_init_def stream_inv_def written_def marked_def carried_refl)


lemma mset_concat_snoc_at:
  "i < length xss \<Longrightarrow> mset (concat (xss[i := xss ! i @ [x]])) = add_mset x (mset (concat xss))"
  by (subst (2) id_take_nth_drop [of i xss]) (simp_all add: upd_conv_take_nth_drop)

lemma concat_snoc_at:
  assumes "i < length xss"
  shows "distinct (concat (xss[i := xss ! i @ [x]])) \<longleftrightarrow>
      x \<notin> set (concat xss) \<and> distinct (concat xss)"
    and "set (concat (xss[i := xss ! i @ [x]])) = insert x (set (concat xss))"
proof -
  have m: "mset (concat (xss[i := xss ! i @ [x]])) = mset (x # concat xss)"
    using mset_concat_snoc_at [OF assms] by simp
  show "distinct (concat (xss[i := xss ! i @ [x]])) \<longleftrightarrow>
      x \<notin> set (concat xss) \<and> distinct (concat xss)"
    using mset_eq_imp_distinct_iff [OF m] by simp
  show "set (concat (xss[i := xss ! i @ [x]])) = insert x (set (concat xss))"
    using mset_eq_setD [OF m] by simp
qed

lemma owned_less: "set (concat owns) = {..<k} \<Longrightarrow> i < length owns \<Longrightarrow> j \<in> set (owns ! i) \<Longrightarrow> j < k"
  by (metis UN_I lessThan_iff nth_mem set_concat)

lemma ws_inv_read:
  assumes "ws_inv cs streams s owns k" and "ws_step ARead s = Some t"
  shows "ws_inv cs streams t owns k"
proof -
  obtain p e src' where r: "src_read (ws_src s) = ((p, e), src')"
    by (metis prod.exhaust)
  have at: "ws_at s = Reading" and t: "t = s\<lparr>ws_src := src',
      ws_at := (if length p > 0 then Sending p (e \<noteq> None) else if e \<noteq> None then Draining else Reading)\<rparr>"
    using assms(2) r by (auto split: if_splits)
  have "ws_todo t = ws_todo s"
    using at t r by (auto simp: src_read_def src_chunks_def split: list.splits)
  then show ?thesis
    using assms(1) at t by (auto simp: ws_inv_def stream_inv_def marked_def simp del: ws_todo.simps)
qed

lemma ws_inv_dispatch:
  assumes inv: "ws_inv cs streams s owns k" and "ws_step (ADispatch i) s = Some t"
  shows "ws_inv cs streams t (owns[i := owns ! i @ [k]]) (Suc k)"
proof -
  obtain p fin where at: "ws_at s = Sending p fin" and i: "i < length (ws_writers s)"
    and idle: "ws_writers s ! i = WIdle"
    and t: "t = s\<lparr>ws_writers := (ws_writers s)[i := WBusy (ws_seq s) p],
                   ws_counter := ws_counter s + of_nat (length p),
                   ws_seq := ws_seq s + 1,
                   ws_at := (if fin then Draining else Reading)\<rparr>"
    using assms(2) by (auto split: ws_pc.splits if_splits)
  have d: "drop k cs = p # ws_todo t"
    using inv at t by (simp add: ws_inv_def)
  then have k: "k < length cs" "cs ! k = p" "drop (Suc k) cs = ws_todo t"
    by (metis drop_eq_Nil list.distinct(1) not_less, metis nth_via_drop,
        metis drop_Suc list.sel(3) tl_drop)
  have "concat (take (Suc k) cs) = concat (take k cs) @ p"
    using k by (simp add: take_Suc_conv_app_nth)
  moreover have n: "length owns = length streams" "length (ws_writers s) = length streams"
    "set (concat owns) = {..<k}" "distinct (concat owns)" "ws_seq s = of_nat k"
    "ws_counter s = of_nat (length (concat (take k cs)))" "length (ws_streams s) = length streams"
    using inv by (simp_all add: ws_inv_def)
  moreover have "distinct (concat (owns[i := owns ! i @ [k]]))"
    "set (concat (owns[i := owns ! i @ [k]])) = {..<Suc k}"
    using concat_snoc_at [of i owns k] n i by auto
  moreover have "stream_inv cs streams t (owns[i := owns ! i @ [k]]) j" if j: "j < length streams" for j
  proof -
    have sj: "stream_inv cs streams s owns j"
      using inv j by (simp add: ws_inv_def)
    show ?thesis
    proof (cases "j = i")
      case True
      have "\<forall>x \<in> set (owns ! i). x < k"
        using owned_less [OF n(3)] i n by auto
      then show ?thesis
        using sj True i idle n k at t j
        by (auto simp: stream_inv_def written_def marked_def sorted_wrt_append)
    next
      case False
      then show ?thesis
        using sj at t by (auto simp: stream_inv_def marked_def)
    qed
  qed
  ultimately show ?thesis
    using k i t by (simp add: ws_inv_def image_iff del: ws_todo.simps)
qed

lemma ws_inv_write:
  assumes inv: "ws_inv cs streams s owns k" and "ws_step (AWrite i) s = Some t"
  shows "ws_inv cs streams t owns k"
proof -
  obtain q p e w where i: "i < length (ws_writers s)" and busy: "ws_writers s ! i = WBusy q p"
    and w: "writeChunk (ws_streams s ! i) q p = (e, w)"
    and t: "t = s\<lparr>ws_streams := (ws_streams s)[i := w],
                 ws_writers := (ws_writers s)[i := (if e = None then WIdle else WExit)]\<rparr>"
    using assms(2) by (auto split: if_splits ws_writer.splits prod.splits)
  have n: "length owns = length streams" "length (ws_writers s) = length streams"
    "length (ws_streams s) = length streams"
    using inv by (simp_all add: ws_inv_def)
  have not_marking: "ws_at s \<notin> range Marking \<union> {WsDone}"
    using inv busy nth_mem [OF i] unfolding ws_inv_def by (metis ws_writer.distinct(5))
  then have unmarked: "\<not> marked s j" "\<not> marked t j" for j
    using t by (auto simp: marked_def split: ws_pc.splits)
  have "stream_inv cs streams t owns j" if j: "j < length streams" for j
  proof -
    have sj: "stream_inv cs streams s owns j"
      using inv j by (simp add: ws_inv_def)
    show ?thesis
    proof (cases "j = i")
      case True
      then have o: "owns ! i \<noteq> []" "(q, p) = frame_of cs (last (owns ! i))"
        and c: "carried (streams ! i) (ws_streams s ! i) (frames_of cs (butlast (owns ! i)))"
        using sj busy unmarked by (simp_all add: stream_inv_def written_def)
      have "frames_of cs (owns ! i) =
          frames_of cs (butlast (owns ! i)) @ chunk_bytes (frame_of cs (last (owns ! i)))"
        by (subst append_butlast_last_id [OF o(1), symmetric]) (simp del: append_butlast_last_id)
      then have "carried (streams ! i) w (frames_of cs (owns ! i))"
        using carried_writeChunk [OF c, of q p] w o(2) by (simp del: chunk_bytes.simps)
      then show ?thesis
        using sj True i n t unmarked by (auto simp: stream_inv_def written_def)
    next
      case False
      then show ?thesis
        using sj t unmarked by (simp add: stream_inv_def)
    qed
  qed
  moreover have "ws_todo t = ws_todo s"
    using t by (simp split: ws_pc.split)
  ultimately show ?thesis
    using inv t not_marking by (auto simp: ws_inv_def simp del: ws_todo.simps)
qed

lemma ws_inv_quit:
  assumes inv: "ws_inv cs streams s owns k" and "ws_step (AQuit i) s = Some t"
  shows "ws_inv cs streams t owns k"
proof -
  have at: "ws_at s = Draining" and i: "i < length (ws_writers s)" "ws_writers s ! i = WIdle"
    and t: "t = s\<lparr>ws_writers := (ws_writers s)[i := WExit]\<rparr>"
    using assms(2) by (auto split: if_splits)
  have "stream_inv cs streams t owns j" if "j < length streams" for j
    using inv that i t by (cases "j = i") (auto simp: ws_inv_def stream_inv_def written_def marked_def)
  then show ?thesis
    using inv at t by (simp add: ws_inv_def image_iff)
qed

lemma ws_inv_wait:
  assumes "ws_inv cs streams s owns k" and "ws_step AWait s = Some t"
  shows "ws_inv cs streams t owns k"
  using assms by (auto simp: ws_inv_def stream_inv_def marked_def split: if_splits)

lemma ws_inv_mark:
  assumes inv: "ws_inv cs streams s owns k" and "ws_step AMark s = Some t"
  shows "ws_inv cs streams t owns k"
proof -
  obtain m where at: "ws_at s = Marking m"
    using assms(2) by (auto split: ws_pc.splits)
  have exited: "\<forall>w \<in> set (ws_writers s). w = WExit"
    and n: "length (ws_writers s) = length streams" "length (ws_streams s) = length streams"
    using inv at by (auto simp: ws_inv_def)
  show ?thesis
  proof (cases "m < length (ws_streams s)")
    case False
    then have t: "t = s\<lparr>ws_at := WsDone\<rparr>"
      using assms(2) at by simp
    have "stream_inv cs streams t owns j" if "j < length streams" for j
      using inv that False n at t by (auto simp: ws_inv_def stream_inv_def marked_def)
    then show ?thesis
      using inv at t exited by (simp add: ws_inv_def)
  next
    case True
    obtain e w where w: "writeChunk (ws_streams s ! m) (ws_seq s) [] = (e, w)"
      by (cases "writeChunk (ws_streams s ! m) (ws_seq s) []")
    then have t: "t = s\<lparr>ws_streams := (ws_streams s)[m := w], ws_at := Marking (Suc m)\<rparr>"
      using assms(2) at True by simp
    have "stream_inv cs streams t owns j" if j: "j < length streams" for j
    proof -
      have sj: "stream_inv cs streams s owns j"
        using inv j by (simp add: ws_inv_def)
      show ?thesis
      proof (cases "j = m")
        case True
        have x: "ws_writers s ! m = WExit"
          using exited j n True by simp
        then have c: "carried (streams ! m) (ws_streams s ! m) (frames_of cs (owns ! m))"
          using sj True at by (simp add: stream_inv_def written_def marked_def del: chunk_bytes.simps)
        from carried_writeChunk [OF c, of "ws_seq s" "[]"] show ?thesis
          using sj True j n at t w x
          by (simp add: stream_inv_def written_def marked_def del: chunk_bytes.simps)
      next
        case False
        then have "marked t j = marked s j"
          using at t by (simp add: marked_def less_Suc_eq)
        then show ?thesis
          using sj t False by (auto simp: stream_inv_def simp del: chunk_bytes.simps)
      qed
    qed
    then show ?thesis
      using inv at t exited by (simp add: ws_inv_def)
  qed
qed

lemma ws_inv_step:
  assumes "ws_inv cs streams s owns k" and "ws_step a s = Some t"
  shows "\<exists>owns k. ws_inv cs streams t owns k"
  using assms
  by (cases a) (blast dest: ws_inv_read ws_inv_dispatch ws_inv_write ws_inv_quit ws_inv_wait ws_inv_mark)+

lemma ws_inv_reachable:
  "ws_steps (ws_init src streams) s \<Longrightarrow> \<exists>owns k. ws_inv (src_chunks src) streams s owns k"
  by (induction rule: ws_steps.induct) (blast intro: ws_inv_init dest: ws_inv_step)+

section \<open>Termination, progress and the way the sender can wedge\<close>

fun ws_writer_weight :: "ws_writer \<Rightarrow> nat" where
  "ws_writer_weight WIdle = 1"
| "ws_writer_weight (WBusy _ _) = 2"
| "ws_writer_weight WExit = 0"

definition ws_reader_weight :: "ws_state \<Rightarrow> nat" where
  "ws_reader_weight s =
     (let n = length (ws_streams s); r = 3 * (length (src_reads (ws_src s)) + 1) in
      case ws_at s of
        Reading \<Rightarrow> r + (n + 2)
      | Sending p fin \<Rightarrow> (if fin then 0 else r) + 2 + (n + 2)
      | Draining \<Rightarrow> n + 2
      | Marking i \<Rightarrow> n - i + 1
      | WsDone \<Rightarrow> 0)"

definition ws_measure :: "ws_state \<Rightarrow> nat" where
  "ws_measure s = ws_reader_weight s + sum_list (map ws_writer_weight (ws_writers s))"

lemma sum_list_map_update:
  fixes f :: "'a \<Rightarrow> nat"
  assumes "i < length xs"
  shows "sum_list (map f (xs[i := x])) + f (xs ! i) = sum_list (map f xs) + f x"
proof -
  have "sum_list (map f xs) = sum_list (map f (take i xs)) + (f (xs ! i) + sum_list (map f (drop (Suc i) xs)))"
    by (subst id_take_nth_drop [OF assms]) simp
  then show ?thesis
    by (simp add: upd_conv_take_nth_drop [OF assms])
qed

lemma ws_step_measure: "ws_step a s = Some t \<Longrightarrow> ws_measure t < ws_measure s"
proof (induction a s rule: ws_step.induct)
  case (1 s)
  then show ?case
    by (auto simp: ws_measure_def ws_reader_weight_def src_read_def split: if_splits list.splits)
next
  case (2 i s)
  have "sum_list (map ws_writer_weight ((ws_writers s)[i := WBusy q p])) =
      Suc (sum_list (map ws_writer_weight (ws_writers s)))"
    if "i < length (ws_writers s)" "ws_writers s ! i = WIdle" for q p
    using that sum_list_map_update [of i "ws_writers s" ws_writer_weight "WBusy q p"] by simp
  then show ?case
    using 2 by (auto simp: ws_measure_def ws_reader_weight_def split: if_splits ws_pc.splits)
next
  case (3 i s)
  have *: "sum_list (map ws_writer_weight ((ws_writers s)[i := x])) < sum_list (map ws_writer_weight (ws_writers s))"
    if "i < length (ws_writers s)" "ws_writers s ! i = WBusy q p" "ws_writer_weight x < 2" for x q p
    using that sum_list_map_update [of i "ws_writers s" ws_writer_weight x] by simp
  have "ws_reader_weight t = ws_reader_weight s"
    using 3 by (auto simp: ws_reader_weight_def split: if_splits ws_writer.splits prod.splits ws_pc.splits)
  then show ?case
    using 3 * by (auto simp: ws_measure_def split: if_splits ws_writer.splits prod.splits)
next
  case (4 i s)
  then show ?case
    using sum_list_map_update [of i "ws_writers s" ws_writer_weight WExit]
    by (auto simp: ws_measure_def ws_reader_weight_def split: if_splits)
next
  case (5 s)
  then show ?case
    by (auto simp: ws_measure_def ws_reader_weight_def split: if_splits)
next
  case (6 s)
  then show ?case
    by (auto simp: ws_measure_def ws_reader_weight_def split: if_splits ws_pc.splits prod.splits)
qed

interpretation ws: machine_measure ws_step "ws_steps s0" "\<lambda>_. True" ws_measure for s0
  by unfold_locales (auto intro: ws_steps.step ws_step_measure simp del: ws_step.simps)

lemma ws_run_steps: "ws_run as s = Some t \<Longrightarrow> ws_steps s t"
  by (rule ws.run_inv) (auto intro: ws_steps.start)

lemma ws_measure_init:
  "ws_measure (ws_init src streams) = 3 * length (src_reads src) + 2 * length streams + 5"
  by (simp add: ws_measure_def ws_reader_weight_def ws_init_def sum_list_replicate)

text \<open>While every stream accepts everything, no writer gives up before the loop ends.\<close>

definition ws_healthy :: "ws_state \<Rightarrow> bool" where
  "ws_healthy s \<longleftrightarrow>
     (\<forall>w \<in> set (ws_streams s). wroom w = None) \<and> length (ws_writers s) = length (ws_streams s) \<and>
     (ws_at s \<notin> {Draining, WsDone} \<union> range Marking \<longrightarrow> WExit \<notin> set (ws_writers s))"

lemma ws_healthy_init: "\<forall>w \<in> set streams. wroom w = None \<Longrightarrow> ws_healthy (ws_init src streams)"
  by (simp add: ws_healthy_def ws_init_def)

lemma set_update_subset: "x \<in> set (xs[i := y]) \<Longrightarrow> x = y \<or> x \<in> set xs"
  using set_update_subset_insert [of xs i y] by blast

lemma ws_healthy_step: "ws_step a s = Some t \<Longrightarrow> ws_healthy s \<Longrightarrow> ws_healthy t"
proof (induction a s rule: ws_step.induct)
  case (3 i s)
  then have i: "i < length (ws_streams s)" "wroom (ws_streams s ! i) = None"
    by (auto simp: ws_healthy_def split: if_splits)
  then show ?case
    using 3 by (auto simp: ws_healthy_def io_simps simp del: chunk_bytes.simps
        split: if_splits ws_writer.splits dest!: set_update_subset)
next
  case (6 s)
  then show ?case
    by (auto simp: ws_healthy_def io_simps simp del: chunk_bytes.simps
        split: if_splits ws_pc.splits dest!: set_update_subset)
qed (auto simp: ws_healthy_def split: if_splits ws_pc.splits prod.splits dest!: set_update_subset)

lemma ws_healthy_steps: "ws_steps s t \<Longrightarrow> ws_healthy s \<Longrightarrow> ws_healthy t"
  by (induction rule: ws_steps.induct) (blast dest: ws_healthy_step)+

lemma ws_healthy_progress:
  assumes "ws_healthy s" and "ws_streams s \<noteq> []" and "ws_at s \<noteq> WsDone"
  shows "\<exists>a t. ws_step a s = Some t"
proof (cases "ws_at s")
  case Reading
  then have "\<exists>t. ws_step ARead s = Some t"
    by (auto split: prod.splits)
  then show ?thesis
    by blast
next
  case (Sending p fin)
  obtain i where i: "i < length (ws_writers s)"
    using assms by (auto simp: ws_healthy_def)
  have "WExit \<notin> set (ws_writers s)"
    using assms(1) Sending by (simp add: ws_healthy_def image_iff)
  then have "ws_writers s ! i \<noteq> WExit"
    using i by (metis nth_mem)
  then have "\<exists>t. ws_step (ADispatch i) s = Some t \<or> ws_step (AWrite i) s = Some t"
    using Sending i by (cases "ws_writers s ! i") (auto split: prod.splits)
  then show ?thesis
    by blast
next
  case Draining
  show ?thesis
  proof (cases "\<forall>w \<in> set (ws_writers s). w = WExit")
    case True
    then have "\<exists>t. ws_step AWait s = Some t"
      using Draining by simp
    then show ?thesis
      by blast
  next
    case False
    then obtain i where "i < length (ws_writers s)" "ws_writers s ! i \<noteq> WExit"
      by (metis in_set_conv_nth)
    then have "\<exists>t. ws_step (AQuit i) s = Some t \<or> ws_step (AWrite i) s = Some t"
      using Draining by (cases "ws_writers s ! i") (auto split: prod.splits)
    then show ?thesis
      by blast
  qed
next
  case (Marking i)
  then have "\<exists>t. ws_step AMark s = Some t"
    by (auto split: prod.splits)
  then show ?thesis
    by blast
qed (use assms in simp)

text \<open>
  One stream that breaks inside the first chunk: the only writer goroutine returns, and nobody
  receives from \<open>dispatch\<close> any more.
\<close>

definition ws_broken :: "byte list list \<Rightarrow> writer \<Rightarrow> ws_state \<Rightarrow> bool" where
  "ws_broken cs w s \<longleftrightarrow>
     (ws_writers s = [WIdle] \<and> ws_streams s = [w] \<and> ws_seq s = 0 \<and> ws_todo s = cs \<or>
      ws_writers s = [WBusy 0 (cs ! 0)] \<and> ws_streams s = [w] \<and> ws_todo s = tl cs \<or>
      ws_writers s = [WExit] \<and> ws_todo s = tl cs)"

lemma ws_todo_pc: "ws_todo s \<noteq> [] \<Longrightarrow> ws_at s = Reading \<or> (\<exists>p fin. ws_at s = Sending p fin)"
  by (cases "ws_at s") auto

lemma ws_todo_read:
  "ws_step ARead s = Some t \<Longrightarrow> ws_todo t = ws_todo s \<and> ws_writers t = ws_writers s \<and>
     ws_streams t = ws_streams s \<and> ws_seq t = ws_seq s"
  by (auto simp: src_read_def src_chunks_def split: list.splits if_splits)

lemma ws_broken_step:
  assumes "ws_broken cs w s" and "ws_step a s = Some t" and "2 \<le> length cs"
    and "wroom w = Some r" and "r < 8 + length (cs ! 0)"
  shows "ws_broken cs w t"
proof -
  have todo: "ws_todo s \<noteq> []"
    using assms(1,3) by (cases cs) (auto simp: ws_broken_def simp del: ws_todo.simps)
  have fails: "\<exists>e w'. writeChunk w 0 (cs ! 0) = (Some e, w')"
    using assms(4,5) by (auto simp: writeChunk_def conn_write_def)
  show ?thesis
  proof (cases a)
    case ARead
    then show ?thesis
      using assms(1) ws_todo_read [of s t] assms(2)
      by (simp add: ws_broken_def del: ws_step.simps ws_todo.simps)
  next
    case (ADispatch i)
    then obtain p fin where at: "ws_at s = Sending p fin" "ws_writers s ! i = WIdle"
        "i < length (ws_writers s)"
      and t: "t = s\<lparr>ws_writers := (ws_writers s)[i := WBusy (ws_seq s) p],
                   ws_counter := ws_counter s + of_nat (length p),
                   ws_seq := ws_seq s + 1,
                   ws_at := (if fin then Draining else Reading)\<rparr>"
      using assms(2) by (auto split: ws_pc.splits if_splits)
    have "ws_todo s = p # ws_todo t"
      using at t by simp
    then show ?thesis
      using assms(1) at t by (auto simp: ws_broken_def simp del: ws_todo.simps)
  next
    case (AWrite i)
    then obtain q p where b: "i < length (ws_writers s)" "ws_writers s ! i = WBusy q p"
      using assms(2) by (auto split: if_splits ws_writer.splits)
    then have i: "i = 0" "q = 0" "p = cs ! 0" "ws_streams s = [w]" "ws_writers s = [WBusy 0 (cs ! 0)]"
      "ws_todo s = tl cs"
      using assms(1) by (auto simp: ws_broken_def simp del: ws_todo.simps)
    then have "ws_writers t = [WExit]" "ws_at t = ws_at s" "ws_src t = ws_src s"
      using assms(2) AWrite b fails by auto
    moreover have "ws_todo t = ws_todo s"
      using calculation by (simp split: ws_pc.split)
    ultimately show ?thesis
      using i by (simp add: ws_broken_def del: ws_todo.simps)
  qed (use assms(2) ws_todo_pc [OF todo] in \<open>auto split: ws_pc.splits\<close>)
qed

lemma ws_broken_reachable:
  assumes "ws_steps (ws_init src [w]) s" and "2 \<le> length (src_chunks src)"
    and "wroom w = Some r" and "r < 8 + length (src_chunks src ! 0)"
  shows "ws_broken (src_chunks src) w s"
  using assms(1)
proof (induction rule: ws_steps.induct)
  case start
  show ?case
    by (simp add: ws_broken_def ws_init_def)
next
  case (step t a u)
  then show ?case
    using assms(2-4) ws_broken_step by blast
qed

section \<open>Properties of the sender\<close>

text \<open>What the streams hold once \<open>writeStripes\<close> has returned.\<close>

definition stripes_hold :: "byte list list \<Rightarrow> writer list \<Rightarrow> writer list \<Rightarrow> nat list list \<Rightarrow> bool" where
  "stripes_hold cs streams streams' owns \<longleftrightarrow>
     length streams' = length streams \<and> length owns = length streams \<and>
     distinct (concat owns) \<and> set (concat owns) = {..<length cs} \<and>
     (\<forall>i < length streams. sorted_wrt (<) (owns ! i) \<and>
        carried (streams ! i) (streams' ! i)
          (frames_of cs (owns ! i) @ chunk_bytes (of_nat (length cs), [])))"

lemma ws_inv_done:
  assumes "ws_inv cs streams s owns k" and "ws_at s = WsDone"
  shows "stripes_hold cs streams (ws_streams s) owns \<and> ws_counter s = of_nat (length (concat cs))"
proof -
  have k: "k = length cs"
    using assms by (simp add: ws_inv_def)
  have "ws_writers s ! i = WExit" if "i < length streams" for i
    using assms that by (simp add: ws_inv_def)
  then show ?thesis
    using assms k
    by (auto simp: ws_inv_def stripes_hold_def stream_inv_def written_def marked_def
        simp del: chunk_bytes.simps)
qed

text \<open>C13 (functional): when \<open>writeStripes\<close> has returned, every chunk of the source is on exactly
  one stream, each stream carries its chunks in ascending order followed by the EOF marker (or a
  prefix of that if it broke), and the byte counter has grown by the length of the source.\<close>

theorem sender_streams:
  assumes "ws_steps (ws_init src streams) s" and "ws_at s = WsDone"
  shows "(\<exists>owns. stripes_hold (src_chunks src) streams (ws_streams s) owns) \<and>
    ws_counter s = of_nat (length (src_bytes src))"
proof -
  obtain owns k where "ws_inv (src_chunks src) streams s owns k"
    using ws_inv_reachable [OF assms(1)] by blast
  from ws_inv_done [OF this assms(2)] show ?thesis
    by auto
qed

definition two_reads :: source where
  "two_reads = \<lparr>src_reads = [[1, 2], [], [3]], src_last = [4], src_err = EOF\<rparr>"

definition two_streams :: "writer list" where
  "two_streams = [\<lparr>wout = [], wroom = None\<rparr>, \<lparr>wout = [], wroom = None\<rparr>]"

definition two_run :: "ws_act list" where
  "two_run = [ARead, ADispatch 1, ARead, ARead, ADispatch 0, ARead, AWrite 1, ADispatch 1,
     AWrite 1, AWrite 0, AQuit 0, AQuit 1, AWait, AMark, AMark, AMark]"

lemma two_run_done:
  "\<exists>s. ws_run two_run (ws_init two_reads two_streams) = Some s \<and> ws_at s = WsDone"
  by (simp add: two_run_def ws_init_def two_reads_def two_streams_def src_read_def io_simps
      del: chunk_bytes.simps)

theorem sender_streams_witness:
  "\<exists>s owns. ws_steps (ws_init two_reads two_streams) s \<and>
     stripes_hold (src_chunks two_reads) two_streams (ws_streams s) owns \<and> ws_counter s = 4"
proof -
  obtain s where s: "ws_run two_run (ws_init two_reads two_streams) = Some s" "ws_at s = WsDone"
    using two_run_done by blast
  note st = ws_run_steps [OF s(1)]
  have "length (src_bytes two_reads) = 4"
    by (simp add: two_reads_def src_bytes_def)
  then show ?thesis
    using sender_streams [OF st s(2)] st by auto
qed

text \<open>C14 (termination): as long as the streams accept what is written, \<open>writeStripes\<close> returns:
  a run has at most \<open>3 * r + 2 * n + 5\<close> steps (\<open>r\<close> reads without an error, \<open>n\<close> streams), and until
  the goroutine has returned some goroutine can move.\<close>

theorem sender_returns:
  assumes "\<forall>w \<in> set streams. wroom w = None" and "streams \<noteq> []"
    and "ws_run as (ws_init src streams) = Some s"
  shows "length as \<le> 3 * length (src_reads src) + 2 * length streams + 5 \<and>
    (ws_at s = WsDone \<or> (\<exists>a t. ws_step a s = Some t))"
proof
  show "length as \<le> 3 * length (src_reads src) + 2 * length streams + 5"
    using ws.run_rank [OF assms(3) ws_steps.start] by (simp add: ws_measure_init)
  have st: "ws_steps (ws_init src streams) s"
    using assms(3) by (rule ws_run_steps)
  obtain owns k where "ws_inv (src_chunks src) streams s owns k"
    using ws_inv_reachable [OF st] by blast
  then have "ws_streams s \<noteq> []"
    using assms(2) by (auto simp: ws_inv_def)
  moreover have "ws_healthy s"
    using ws_healthy_steps [OF st ws_healthy_init [OF assms(1)]] .
  ultimately show "ws_at s = WsDone \<or> (\<exists>a t. ws_step a s = Some t)"
    using ws_healthy_progress by blast
qed

theorem sender_returns_witness:
  "\<exists>a t. ws_step a (ws_init two_reads two_streams) = Some t"
  using sender_returns [of two_streams "[]" two_reads "ws_init two_reads two_streams"]
  by (auto simp: two_streams_def ws_init_def)

text \<open>C16 (liveness): with the one stream the code opens per connection, a stream that breaks
  inside the first chunk wedges \<open>writeStripes\<close>: its only writer goroutine has returned, the
  reading goroutine blocks for ever on \<open>dispatch\<close> with the next chunk, and no interleaving
  lets it return, although the source still has an end.\<close>

theorem sender_wedges:
  assumes "length streams = listenStripes" and "wroom (streams ! 0) = Some r"
    and "r < 8 + length (src_chunks src ! 0)" and "2 \<le> length (src_chunks src)"
  shows "(\<forall>s. ws_steps (ws_init src streams) s \<longrightarrow> ws_at s \<noteq> WsDone) \<and>
    (\<exists>s p fin. ws_steps (ws_init src streams) s \<and> ws_at s = Sending p fin \<and>
       (\<forall>a. ws_step a s = None))"
proof -
  obtain w where w: "streams = [w]"
    using assms(1) by (cases streams) (auto simp: listenStripes_def)
  have b: "ws_broken (src_chunks src) w s" if "ws_steps (ws_init src streams) s" for s
    using ws_broken_reachable [of src w s r] that assms w by simp
  have todo: "ws_todo s \<noteq> []" if "ws_steps (ws_init src streams) s" for s
    using b [OF that] assms(4)
    by (cases "src_chunks src") (auto simp: ws_broken_def simp del: ws_todo.simps)
  obtain s where s: "ws_steps (ws_init src streams) s" "\<forall>a. ws_step a s = None"
    using ws.run_to_end [OF ws_steps.start] by blast
  moreover have "ws_at s \<noteq> Reading"
  proof
    assume "ws_at s = Reading"
    then have "ws_step ARead s \<noteq> None"
      by (auto split: prod.splits)
    then show False
      using s(2) by (simp del: ws_step.simps)
  qed
  ultimately have "\<exists>p fin. ws_at s = Sending p fin"
    using ws_todo_pc [OF todo [OF s(1)]] by blast
  then show ?thesis
    using s ws_todo_pc [OF todo] by (metis ws_pc.distinct(7) ws_pc.distinct(13))
qed

theorem sender_wedges_witness:
  "\<exists>s p fin. ws_steps (ws_init two_reads [\<lparr>wout = [], wroom = Some 4\<rparr>]) s \<and>
     ws_at s = Sending p fin \<and> (\<forall>a. ws_step a s = None)"
  using sender_wedges [of "[\<lparr>wout = [], wroom = Some 4\<rparr>]" 4 two_reads]
  by (simp add: listenStripes_def src_chunks_def two_reads_def)

end
