(* ===== verification/StripeRecv.thy ===== *)
theory StripeRecv
  imports Wire
begin

text \<open>
  The receiving half of the striped byte pump (\<open>readStripesToTCP\<close> of
  \<open>internal/forward/forward.go\<close>): one goroutine per stream reads chunks and puts them on a
  buffered channel; the main loop takes them in the order of arrival, writes those whose turn
  it is and keeps the others in a reorder buffer.
\<close>

section \<open>The main loop\<close>

record stripeChunk =
  sc_seq :: u32
  sc_payload :: "byte list"
  sc_stripe :: nat
  sc_eof :: bool

record rs_state =
  rs_pending :: "u32 \<rightharpoonup> byte list"
  rs_next :: u32
  rs_eofs :: nat
  rs_dst :: writer
  rs_counter :: u64

definition rs_init :: "writer \<Rightarrow> rs_state" where
  "rs_init dst = \<lparr>rs_pending = Map.empty, rs_next = 0, rs_eofs = 0, rs_dst = dst, rs_counter = 0\<rparr>"

text \<open>A payload that was written: the counter and the expected sequence number move on.\<close>

definition rs_wrote :: "byte list \<Rightarrow> writer \<Rightarrow> rs_state \<Rightarrow> rs_state" where
  "rs_wrote p w s =
     s\<lparr>rs_dst := w, rs_counter := rs_counter s + of_nat (length p), rs_next := rs_next s + 1\<rparr>"

lemma rs_wrote_eofs [simp]: "rs_eofs (rs_wrote p w s) = rs_eofs s"
  by (simp add: rs_wrote_def)

text \<open>
  The inner loop that writes buffered chunks as long as the next one is there; the result says
  whether a write failed (the function returns).
\<close>

function rs_drain :: "rs_state \<Rightarrow> bool \<times> rs_state" where
  "rs_drain s =
     (case rs_pending s (rs_next s) of
        None \<Rightarrow> (False, s)
      | Some p \<Rightarrow>
          let s1 = s\<lparr>rs_pending := (rs_pending s)(rs_next s := None)\<rparr> in
          case conn_write p (rs_dst s) of
            (Some e, w) \<Rightarrow> (True, s1\<lparr>rs_dst := w\<rparr>)
          | (None, w) \<Rightarrow> rs_drain (rs_wrote p w s1))"
  by pat_completeness auto
termination
proof (relation "measure (\<lambda>s. card (dom (rs_pending s)))")
  fix s :: rs_state and p s1 x e w
  assume "rs_pending s (rs_next s) = Some p"
    and s1: "s1 = s\<lparr>rs_pending := (rs_pending s)(rs_next s := None)\<rparr>"
  then have "rs_next s \<in> dom (rs_pending s)"
    by blast
  then have "card (dom (rs_pending s) - {rs_next s}) < card (dom (rs_pending s))"
    by (intro card_Diff1_less) simp_all
  then show "(rs_wrote p w s1, s) \<in> measure (\<lambda>s. card (dom (rs_pending s)))"
    by (simp add: rs_wrote_def s1)
qed simp

declare rs_drain.simps [simp del]

datatype rs_verdict = Continue | Break | Return

definition rs_take :: "nat \<Rightarrow> stripeChunk \<Rightarrow> rs_state \<Rightarrow> rs_verdict \<times> rs_state" where
  "rs_take n c s =
     (if sc_eof c then
        let s1 = s\<lparr>rs_eofs := rs_eofs s + 1\<rparr> in
        (if rs_eofs s1 = n then Break else Continue, s1)
      else if sc_seq c = rs_next s then
        (case conn_write (sc_payload c) (rs_dst s) of
           (Some e, w) \<Rightarrow> (Return, s\<lparr>rs_dst := w\<rparr>)
         | (None, w) \<Rightarrow>
             case rs_drain (rs_wrote (sc_payload c) w s) of
               (True, s1) \<Rightarrow> (Return, s1)
             | (False, s1) \<Rightarrow> (Continue, s1))
      else (Continue, s\<lparr>rs_pending := (rs_pending s)(sc_seq c \<mapsto> sc_payload c)\<rparr>))"

text \<open>
  The main loop over the chunks in their order of arrival; when it ends without a failed write,
  the final drain follows.
\<close>

fun rs_loop :: "nat \<Rightarrow> stripeChunk list \<Rightarrow> rs_state \<Rightarrow> bool \<times> rs_state" where
  "rs_loop n [] s = (False, s)"
| "rs_loop n (c # cs) s =
     (case rs_take n c s of
        (Continue, s1) \<Rightarrow> rs_loop n cs s1
      | (Break, s1) \<Rightarrow> (False, s1)
      | (Return, s1) \<Rightarrow> (True, s1))"

definition readStripesToTCP :: "nat \<Rightarrow> stripeChunk list \<Rightarrow> writer \<Rightarrow> rs_state" where
  "readStripesToTCP n cs dst =
     (case rs_loop n cs (rs_init dst) of
        (True, s) \<Rightarrow> s
      | (False, s) \<Rightarrow> snd (rs_drain s))"

section \<open>The stream readers\<close>

text \<open>What one reader goroutine puts on the channel: its stream's chunks, then one end marker
  for the terminator or for an error.\<close>

definition stripe_event :: "nat \<Rightarrow> reader \<Rightarrow> stripeChunk \<times> reader" where
  "stripe_event i r =
     (case readChunk r of ((seq, payload, err), r') \<Rightarrow>
        (if length payload = 0 \<and> err = None
         then \<lparr>sc_seq = seq, sc_payload = [], sc_stripe = i, sc_eof = True\<rparr>
         else if err \<noteq> None
         then \<lparr>sc_seq = 0, sc_payload = [], sc_stripe = i, sc_eof = True\<rparr>
         else \<lparr>sc_seq = seq, sc_payload = payload, sc_stripe = i, sc_eof = False\<rparr>, r'))"

lemma stripe_event_decreases:
  "stripe_event i r = (c, r') \<Longrightarrow> \<not> sc_eof c \<Longrightarrow> length (rbuf r') < length (rbuf r)"
  by (auto simp: stripe_event_def dest!: readChunk_sound split: prod.splits if_splits)

function read_stripe :: "nat \<Rightarrow> reader \<Rightarrow> stripeChunk list" where
  "read_stripe i r =
     (case stripe_event i r of (c, r') \<Rightarrow> if sc_eof c then [c] else c # read_stripe i r')"
  by pat_completeness auto
termination
  by (relation "measure (\<lambda>(i, r). length (rbuf r))") (auto dest: stripe_event_decreases [OF sym])

declare read_stripe.simps [simp del]

text \<open>
  An order of arrival: the chunks of each stream arrive in the order that stream's goroutine
  reads them, and nothing else arrives.
\<close>

definition arrival :: "reader list \<Rightarrow> stripeChunk list \<Rightarrow> bool" where
  "arrival rs cs \<longleftrightarrow>
     list_all (\<lambda>c. sc_stripe c < length rs) cs \<and>
     list_all (\<lambda>i. filter (\<lambda>c. sc_stripe c = i) cs = read_stripe i (rs ! i)) [0..<length rs]"

section \<open>What the main loop keeps true\<close>

text \<open>
  \<open>cs\<close> are the chunks of the sender in their order, \<open>D\<close> the numbers of those that have arrived,
  \<open>k\<close> how many have been written to \<open>w0\<close>: the reorder buffer holds exactly the arrived chunks from
  \<open>k\<close> on.
\<close>

definition rs_inv :: "byte list list \<Rightarrow> writer \<Rightarrow> nat set \<Rightarrow> nat \<Rightarrow> rs_state \<Rightarrow> bool" where
  "rs_inv cs w0 D k s \<longleftrightarrow>
     k \<le> length cs \<and> D \<subseteq> {..<length cs} \<and> {..<k} \<subseteq> D \<and> rs_next s = of_nat k \<and>
     rs_pending s = (\<lambda>q. if unat q \<in> D \<and> k \<le> unat q then Some (cs ! unat q) else None) \<and>
     wout (rs_dst s) = wout w0 @ concat (take k cs) \<and>
     rs_counter s = of_nat (length (concat (take k cs)))"

definition rs_prefix :: "byte list list \<Rightarrow> writer \<Rightarrow> rs_state \<Rightarrow> bool" where
  "rs_prefix cs w0 s \<longleftrightarrow> (\<exists>m. wout (rs_dst s) = wout w0 @ take m (concat cs))"

lemma concat_take_prefix: "concat (take k cs) = take (length (concat (take k cs))) (concat cs)"
  by (metis append_eq_conv_conj append_take_drop_id concat_append)

lemma rs_inv_prefix: "rs_inv cs w0 D k s \<Longrightarrow> rs_prefix cs w0 s"
  unfolding rs_inv_def rs_prefix_def by (metis concat_take_prefix)

lemma rs_inv_init: "rs_inv cs dst {} 0 (rs_init dst)"
  by (simp add: rs_inv_def rs_init_def)

lemma rs_inv_pending:
  assumes "rs_inv cs w0 D k s" and "length cs \<le> 2 ^ 32"
  shows "rs_pending s (rs_next s) = (if k \<in> D then Some (cs ! k) else None)"
proof (cases "k < 2 ^ 32")
  case True
  then have "unat (of_nat k :: u32) = k"
    by (rule unat_of_nat_u32)
  then show ?thesis
    using assms(1) by (simp add: rs_inv_def)
next
  case False
  then have "k = 2 ^ 32"
    using assms by (simp add: rs_inv_def)
  then show ?thesis
    using assms by (auto simp: rs_inv_def)
qed

text \<open>Writing the chunk whose turn it is.\<close>

lemma rs_wrote_inv:
  assumes "rs_inv cs w0 D k s" and "k \<in> D" and "conn_write (cs ! k) (rs_dst s) = (None, w)"
    and "length cs \<le> 2 ^ 32"
  shows "rs_inv cs w0 D (Suc k)
    (rs_wrote (cs ! k) w (s\<lparr>rs_pending := (rs_pending s)(rs_next s := None)\<rparr>))"
proof -
  have k: "k < length cs" "unat (of_nat k :: u32) = k"
    using assms by (auto simp: rs_inv_def word_simps)
  have "(\<lambda>q. if unat q \<in> D \<and> k \<le> unat q then Some (cs ! unat q) else None)(of_nat k := None) =
      (\<lambda>q :: u32. if unat q \<in> D \<and> Suc k \<le> unat q then Some (cs ! unat q) else None)"
    using k(2) by (auto simp: fun_eq_iff Suc_le_eq le_less)
  then show ?thesis
    using assms k conn_write_NoneD [OF assms(3)]
    by (auto simp: rs_inv_def rs_wrote_def take_Suc_conv_app_nth less_Suc_eq)
qed

lemma rs_write_fails:
  assumes "rs_inv cs w0 D k s" and "k < length cs" and "conn_write (cs ! k) (rs_dst s) = (Some e, w)"
  shows "rs_prefix cs w0 (s'\<lparr>rs_dst := w\<rparr>)"
proof -
  obtain m where m: "m < length (cs ! k)" "wout w = wout (rs_dst s) @ take m (cs ! k)"
    using conn_write_SomeD [OF assms(3)] by blast
  have "concat cs = concat (take k cs) @ cs ! k @ concat (drop (Suc k) cs)"
    by (metis assms(2) concat.simps(2) concat_append id_take_nth_drop)
  then have "concat (take k cs) @ take m (cs ! k) = take (length (concat (take k cs)) + m) (concat cs)"
    using m(1) by simp
  then show ?thesis
    using assms(1) m(2) by (auto simp: rs_prefix_def rs_inv_def)
qed

lemma rs_drain_inv:
  assumes "rs_inv cs w0 D k s" and "length cs \<le> 2 ^ 32" and "rs_drain s = (b, s')"
  shows "if b then rs_prefix cs w0 s' else rs_eofs s' = rs_eofs s \<and> (\<exists>k'. rs_inv cs w0 D k' s' \<and> k' \<notin> D)"
  using assms
proof (induction s arbitrary: k rule: rs_drain.induct)
  case (1 s)
  note pending = rs_inv_pending [OF "1.prems"(1,2)]
  show ?case
  proof (cases "k \<in> D")
    case False
    then show ?thesis
      using "1.prems" pending by (auto simp: rs_drain.simps [of s])
  next
    case True
    obtain e w where w: "conn_write (cs ! k) (rs_dst s) = (e, w)"
      by (cases "conn_write (cs ! k) (rs_dst s)")
    let ?s1 = "s\<lparr>rs_pending := (rs_pending s)(rs_next s := None)\<rparr>"
    have kl: "k < length cs"
      using True "1.prems"(1) by (auto simp: rs_inv_def)
    show ?thesis
    proof (cases e)
      case None
      have d: "rs_drain (rs_wrote (cs ! k) w ?s1) = (b, s')"
        using "1.prems"(3) pending True w None by (simp add: rs_drain.simps [of s])
      have i: "rs_inv cs w0 D (Suc k) (rs_wrote (cs ! k) w ?s1)"
        using rs_wrote_inv [OF "1.prems"(1) True _ "1.prems"(2)] w None by simp
      from "1.IH" [OF _ refl w [symmetric] None i "1.prems"(2) d] pending True show ?thesis
        by (simp add: rs_wrote_def)
    next
      case (Some x)
      then show ?thesis
        using "1.prems"(3) pending True w rs_write_fails [OF "1.prems"(1) kl, of x w ?s1]
        by (auto simp: rs_drain.simps [of s])
    qed
  qed
qed

lemma rs_drain_unlimited:
  "wroom (rs_dst s) = None \<Longrightarrow> rs_drain s = (b, s') \<Longrightarrow> \<not> b \<and> wroom (rs_dst s') = None"
proof (induction s rule: rs_drain.induct)
  case (1 s)
  then show ?case
    by (auto simp: rs_drain.simps [of s] rs_wrote_def io_simps Let_def split: option.splits)
qed

text \<open>One arrival of chunk number \<open>j\<close>.\<close>

lemma rs_take_data:
  assumes inv: "rs_inv cs w0 D k s" "k \<notin> D" and len: "length cs \<le> 2 ^ 32"
    and c: "\<not> sc_eof c" "(sc_seq c, sc_payload c) = (of_nat j, cs ! j)"
    and j: "j < length cs" "j \<notin> D" and take: "rs_take n c s = (v, s')"
  shows "v = Return \<and> rs_prefix cs w0 s' \<or>
    v = Continue \<and> rs_eofs s' = rs_eofs s \<and>
      (\<exists>k'. rs_inv cs w0 (insert j D) k' s' \<and> k' \<notin> insert j D)"
proof -
  have kj: "k \<le> j" "unat (of_nat j :: u32) = j"
    using inv j len by (auto simp: rs_inv_def word_simps not_less[symmetric])
  have seq: "sc_seq c = rs_next s \<longleftrightarrow> j = k"
    using inv(1) c(2) of_nat_inj_u32 [of j k] kj(1) j(1) len by (auto simp: rs_inv_def)
  show ?thesis
  proof (cases "j = k")
    case False
    then have "s' = s\<lparr>rs_pending := (rs_pending s)(of_nat j \<mapsto> cs ! j)\<rparr>" "v = Continue"
      using take c seq by (simp_all add: rs_take_def)
    moreover have "(\<lambda>q. if unat q \<in> D \<and> k \<le> unat q then Some (cs ! unat q) else None)(of_nat j \<mapsto> cs ! j) =
        (\<lambda>q :: u32. if unat q \<in> insert j D \<and> k \<le> unat q then Some (cs ! unat q) else None)"
      using kj by (auto simp: fun_eq_iff)
    ultimately show ?thesis
      using inv j False by (auto simp: rs_inv_def)
  next
    case True
    have pend: "(rs_pending s)(rs_next s := None) = rs_pending s"
      using rs_inv_pending [OF inv(1) len] inv(2) by (auto simp: fun_eq_iff)
    have D: "rs_inv cs w0 (insert k D) k (s\<lparr>rs_pending := (rs_pending s)(rs_next s \<mapsto> cs ! k)\<rparr>)"
      using inv True j kj by (auto simp: rs_inv_def fun_eq_iff)
    obtain e w where w: "conn_write (cs ! k) (rs_dst s) = (e, w)"
      by (cases "conn_write (cs ! k) (rs_dst s)")
    show ?thesis
    proof (cases e)
      case (Some x)
      then show ?thesis
        using take c seq True w rs_write_fails [of cs w0 D k s x w s] inv j
        by (auto simp: rs_take_def)
    next
      case None
      have i: "rs_inv cs w0 (insert k D) (Suc k) (rs_wrote (cs ! k) w s)"
        using rs_wrote_inv [OF D _ _ len, of w] w None pend by (simp add: fun_upd_upd)
      obtain b s1 where d: "rs_drain (rs_wrote (cs ! k) w s) = (b, s1)"
        by (cases "rs_drain (rs_wrote (cs ! k) w s)")
      have "if b then rs_prefix cs w0 s1
          else rs_eofs s1 = rs_eofs s \<and> (\<exists>k'. rs_inv cs w0 (insert k D) k' s1 \<and> k' \<notin> insert k D)"
        using rs_drain_inv [OF i len d] by (simp only: rs_wrote_eofs)
      moreover have "v = (if b then Return else Continue)" "s' = s1"
        using take c seq True w None d by (auto simp: rs_take_def split: bool.splits)
      ultimately show ?thesis
        using True by (cases b) simp_all
    qed
  qed
qed

lemma rs_take_eof:
  "sc_eof c \<Longrightarrow> rs_take n c s =
     (if Suc (rs_eofs s) = n then Break else Continue, s\<lparr>rs_eofs := Suc (rs_eofs s)\<rparr>)"
  by (simp add: rs_take_def)

lemma rs_inv_eofs [simp]: "rs_inv cs w0 D k (s\<lparr>rs_eofs := e\<rparr>) \<longleftrightarrow> rs_inv cs w0 D k s"
  by (simp add: rs_inv_def)

text \<open>The numbers of the chunks in a list of arrivals.\<close>

abbreviation data_of :: "stripeChunk list \<Rightarrow> stripeChunk list" where
  "data_of es \<equiv> filter (\<lambda>c. \<not> sc_eof c) es"

definition carries :: "byte list list \<Rightarrow> stripeChunk list \<Rightarrow> nat list \<Rightarrow> bool" where
  "carries cs es js \<longleftrightarrow>
     map (\<lambda>c. (sc_seq c, sc_payload c)) (data_of es) = map (\<lambda>j. (of_nat j, cs ! j)) js"

text \<open>
  The loop on any arrivals of distinct chunks: either a write failed and the destination holds a
  prefix of the sender's bytes, or the loop ended with a set \<open>D'\<close> of arrived chunks, all of them
  if the last end marker came last.
\<close>

lemma rs_loop_eof:
  "sc_eof c \<Longrightarrow> rs_loop n (c # es) s =
     (if Suc (rs_eofs s) = n then (False, s\<lparr>rs_eofs := Suc (rs_eofs s)\<rparr>)
      else rs_loop n es (s\<lparr>rs_eofs := Suc (rs_eofs s)\<rparr>))"
  by (simp add: rs_take_eof)

lemma rs_loop_inv:
  assumes "rs_inv cs w0 D k s" and "k \<notin> D" and "length cs \<le> 2 ^ 32"
    and "carries cs es js" and "distinct js" and "set js \<subseteq> {..<length cs}" and "set js \<inter> D = {}"
    and "rs_loop n es s = (b, s')"
  shows "if b then rs_prefix cs w0 s' else
    \<exists>D' k'. rs_inv cs w0 D' k' s' \<and> k' \<notin> D' \<and> D' \<subseteq> D \<union> set js \<and>
      (rs_eofs s + length (filter sc_eof (butlast es)) < n \<longrightarrow> D' = D \<union> set js)"
  using assms
proof (induction es arbitrary: s D k js)
  case Nil
  then have "js = []" "\<not> b" "s' = s"
    by (auto simp: carries_def)
  then show ?case
    using Nil by auto
next
  case (Cons c es)
  show ?case
  proof (cases "sc_eof c")
    case True
    let ?s1 = "s\<lparr>rs_eofs := Suc (rs_eofs s)\<rparr>"
    have js: "carries cs es js"
      using Cons.prems(4) True by (simp add: carries_def)
    have l: "(if Suc (rs_eofs s) = n then (False, ?s1) else rs_loop n es ?s1) = (b, s')"
      using Cons.prems(8) unfolding rs_loop_eof [OF True] .
    show ?thesis
    proof (cases "es = [] \<or> Suc (rs_eofs s) = n")
      case last: True
      then have "\<not> b" "s' = ?s1" "es = [] \<Longrightarrow> js = []"
        using js l by (auto simp: carries_def split: if_splits)
      then show ?thesis
        using Cons.prems(1,2) last True by auto
    next
      case False
      then show ?thesis
        using Cons.IH [of D k ?s1 js] Cons.prems(1-3,5-7) js l True by auto
    qed
  next
    case False
    then obtain j js' where j: "js = j # js'" "(sc_seq c, sc_payload c) = (of_nat j, cs ! j)"
      "carries cs es js'"
      using Cons.prems(4) by (cases js) (auto simp: carries_def)
    obtain v s1 where v: "rs_take n c s = (v, s1)"
      by (cases "rs_take n c s")
    have "j < length cs" "j \<notin> D"
      using Cons.prems(6,7) j by auto
    from rs_take_data [OF Cons.prems(1-3) False j(2) this v]
    consider "v = Return" "rs_prefix cs w0 s1"
      | k' where "v = Continue" "rs_eofs s1 = rs_eofs s" "rs_inv cs w0 (insert j D) k' s1" "k' \<notin> insert j D"
      by blast
    then show ?thesis
    proof cases
      case 1
      then show ?thesis
        using Cons.prems(8) v by simp
    next
      case 2
      then have l: "rs_loop n es s1 = (b, s')"
        using Cons.prems(8) v by simp
      have d: "distinct js'" "set js' \<subseteq> {..<length cs}" "set js' \<inter> insert j D = {}"
        using Cons.prems(5-7) j(1) by auto
      from Cons.IH [OF 2(3,4) Cons.prems(3) j(3) d l]
      show ?thesis
        using 2(2) False j(1) by (cases "es = []") auto
    qed
  qed
qed

lemma rs_loop_unlimited:
  "wroom (rs_dst s) = None \<Longrightarrow> rs_loop n es s = (b, s') \<Longrightarrow> \<not> b \<and> wroom (rs_dst s') = None"
proof (induction es arbitrary: s)
  case (Cons c es)
  obtain v s1 where v: "rs_take n c s = (v, s1)"
    by (cases "rs_take n c s")
  have "v \<noteq> Return \<and> wroom (rs_dst s1) = None"
  proof (cases "sc_eof c")
    case True
    then show ?thesis
      using v Cons.prems(1) by (auto simp: rs_take_eof split: if_splits)
  next
    case data: False
    show ?thesis
    proof (cases "sc_seq c = rs_next s")
      case True
      let ?s = "rs_wrote (sc_payload c) (rs_dst s\<lparr>wout := wout (rs_dst s) @ sc_payload c\<rparr>) s"
      obtain b2 s2 where d: "rs_drain ?s = (b2, s2)"
        by (cases "rs_drain ?s")
      have "\<not> b2 \<and> wroom (rs_dst s2) = None"
        using Cons.prems(1) by (intro rs_drain_unlimited [OF _ d]) (simp add: rs_wrote_def)
      then show ?thesis
        using v True data Cons.prems(1) d by (auto simp: rs_take_def io_simps)
    next
      case False
      then show ?thesis
        using v data Cons.prems(1) by (auto simp: rs_take_def)
    qed
  qed
  then show ?case
    using Cons v by (cases v) auto
qed simp

section \<open>What the stream readers deliver\<close>

text \<open>A data chunk as the goroutine of stream \<open>i\<close> puts it on the channel.\<close>

definition data_event :: "nat \<Rightarrow> u32 \<times> byte list \<Rightarrow> stripeChunk" where
  "data_event i f = \<lparr>sc_seq = fst f, sc_payload = snd f, sc_stripe = i, sc_eof = False\<rparr>"

lemma data_event_sel [simp]:
  "\<not> sc_eof (data_event i f)" "sc_stripe (data_event i f) = i"
  "sc_seq (data_event i f) = fst f" "sc_payload (data_event i f) = snd f"
  by (simp_all add: data_event_def)

lemma stripe_event_stripe: "sc_stripe (fst (stripe_event i r)) = i"
  by (simp add: stripe_event_def split: prod.split)

lemma read_stripe_chunk:
  assumes "rbuf r = chunk_bytes (q, p) @ rest" and "p \<noteq> []" and "length p < 2 ^ 32"
  shows "read_stripe i r = data_event i (q, p) # read_stripe i (r\<lparr>rbuf := rest\<rparr>)"
  using readChunk_chunk_bytes [OF assms(3,1)] assms(2)
  by (simp add: read_stripe.simps [of i r] stripe_event_def data_event_def)

lemma read_stripe_cut:
  assumes "chunk_bytes (q, p) = rbuf r @ ys" and "ys \<noteq> [] \<or> p = []" and "length p < 2 ^ 32"
  shows "\<exists>e. read_stripe i r = [e] \<and> sc_eof e \<and> sc_stripe e = i"
proof (cases "ys = []")
  case True
  then have "readChunk r = ((q, [], None), r\<lparr>rbuf := []\<rparr>)"
    using assms by (intro readChunk_chunk_bytes) simp_all
  then show ?thesis
    by (simp add: read_stripe.simps [of i r] stripe_event_def)
next
  case False
  then obtain e where e: "fst (chunk_result r) = Inl e"
    using chk.truncated_is_error [of "(q, p)" r ys] assms by auto
  then obtain sq pl r' where "readChunk r = ((sq, pl, Some e), r')"
    by (auto simp: chunk_result_def split: prod.splits option.splits)
  then show ?thesis
    by (simp add: read_stripe.simps [of i r] stripe_event_def)
qed

text \<open>A stream cut anywhere in the frames of its sender: the frames before the cut, one end.\<close>

lemma read_stripe_prefix:
  assumes "\<forall>f \<in> set fs. snd f \<noteq> [] \<and> length (snd f) < 2 ^ 32"
    and "rbuf r = take m (concat (map chunk_bytes fs) @ chunk_bytes (q, []))"
  shows "\<exists>l e. read_stripe i r = map (data_event i) (take l fs) @ [e] \<and> sc_eof e \<and> sc_stripe e = i \<and>
    (length (concat (map chunk_bytes fs)) \<le> m \<longrightarrow> l = length fs)"
  using assms
proof (induction fs arbitrary: r m)
  case Nil
  then have "chunk_bytes (q, []) = rbuf r @ drop m (chunk_bytes (q, []))"
    by (simp del: chunk_bytes.simps)
  from read_stripe_cut [OF this, of i] show ?case
    by auto
next
  case (Cons f fs)
  obtain fq p where f: "f = (fq, p)"
    by (cases f)
  have p: "p \<noteq> []" "length p < 2 ^ 32"
    using Cons.prems(1) f by simp_all
  show ?case
  proof (cases "length (chunk_bytes f) \<le> m")
    case True
    let ?rest = "take (m - length (chunk_bytes f)) (concat (map chunk_bytes fs) @ chunk_bytes (q, []))"
    have r: "rbuf r = chunk_bytes f @ ?rest"
      using Cons.prems(2) True by (simp del: chunk_bytes.simps)
    have fs: "\<forall>f \<in> set fs. snd f \<noteq> [] \<and> length (snd f) < 2 ^ 32"
      using Cons.prems(1) by simp
    obtain l e where le: "read_stripe i (r\<lparr>rbuf := ?rest\<rparr>) = map (data_event i) (take l fs) @ [e]"
        "sc_eof e" "sc_stripe e = i"
        "length (concat (map chunk_bytes fs)) \<le> m - length (chunk_bytes f) \<longrightarrow> l = length fs"
      using Cons.IH [OF fs, of "r\<lparr>rbuf := ?rest\<rparr>" "m - length (chunk_bytes f)"]
      by (auto simp del: chunk_bytes.simps)
    moreover have "read_stripe i r = data_event i f # read_stripe i (r\<lparr>rbuf := ?rest\<rparr>)"
      using read_stripe_chunk [of r fq p ?rest i] r p f by simp
    ultimately show ?thesis
      using True by (intro exI [of _ "Suc l"] exI [of _ e]) (simp del: chunk_bytes.simps)
  next
    case False
    then have "chunk_bytes (fq, p) = rbuf r @ drop m (chunk_bytes f)" "drop m (chunk_bytes f) \<noteq> []"
      using Cons.prems(2) f by (simp_all del: chunk_bytes.simps)
    then obtain e where "read_stripe i r = [e]" "sc_eof e" "sc_stripe e = i"
      using read_stripe_cut [of fq p r "drop m (chunk_bytes f)" i] p by blast
    then show ?thesis
      using False by (intro exI [of _ 0] exI [of _ e]) (simp del: chunk_bytes.simps)
  qed
qed

section \<open>Arrivals\<close>

lemma mset_filter_less_Suc:
  "mset (filter (\<lambda>c. f c < Suc n) xs) = mset (filter (\<lambda>c. f c < n) xs) + mset (filter (\<lambda>c. f c = n) xs)"
  by (induction xs) (auto simp: less_Suc_eq)

lemma mset_by_class:
  "mset (concat (map (\<lambda>i. filter (\<lambda>c. f c = i) xs) [0..<n])) = mset (filter (\<lambda>c. f c < n) xs)"
proof (induction n)
  case (Suc n)
  then show ?case
    by (simp add: mset_filter_less_Suc del: mset_filter)
qed simp

lemma arrivalD:
  assumes "arrival rs es"
  shows "\<forall>c \<in> set es. sc_stripe c < length rs"
    and "i < length rs \<Longrightarrow> filter (\<lambda>c. sc_stripe c = i) es = read_stripe i (rs ! i)"
  using assms by (auto simp: arrival_def list_all_iff)

lemma arrival_mset:
  assumes "arrival rs es"
  shows "mset es = mset (concat (map (\<lambda>i. read_stripe i (rs ! i)) [0..<length rs]))"
proof -
  have "filter (\<lambda>c. sc_stripe c < length rs) es = es"
    using arrivalD(1) [OF assms] by (simp add: filter_id_conv)
  moreover have "map (\<lambda>i. filter (\<lambda>c. sc_stripe c = i) es) [0..<length rs] =
      map (\<lambda>i. read_stripe i (rs ! i)) [0..<length rs]"
    using arrivalD(2) [OF assms] by simp
  ultimately show ?thesis
    using mset_by_class [of sc_stripe es "length rs"] by (simp only:)
qed

lemma concat_takes:
  "list_all2 (\<lambda>xs ys. \<exists>l. xs = take l ys) xss yss \<Longrightarrow> distinct (concat yss) \<Longrightarrow>
     distinct (concat xss) \<and> set (concat xss) \<subseteq> set (concat yss)"
proof (induction rule: list_all2_induct)
  case (Cons xs xss ys yss)
  then obtain l where "xs = take l ys"
    by blast
  then have "set xs \<subseteq> set ys" "distinct ys \<Longrightarrow> distinct xs"
    by (simp_all add: set_take_subset)
  then show ?case
    using Cons by (simp only: concat.simps set_append distinct_append) blast
qed simp

lemma count_end_events:
  assumes "\<And>i. i < n \<Longrightarrow> length (filter sc_eof (f i)) = 1"
  shows "length (filter sc_eof (concat (map f [0..<n]))) = n"
  using assms by (induction n) simp_all

text \<open>
  The facts about one transfer that the receiver's theorems share: the sender's chunks \<open>cs\<close>, the
  chunks \<open>owns ! i\<close> it put on stream \<open>i\<close>, how many bytes \<open>m i\<close> of it reach the reader.
\<close>

definition transfer :: "byte list list \<Rightarrow> nat list list \<Rightarrow> (nat \<Rightarrow> nat) \<Rightarrow> reader list \<Rightarrow> bool" where
  "transfer cs owns m rs \<longleftrightarrow>
     length owns = length rs \<and> distinct (concat owns) \<and> set (concat owns) \<subseteq> {..<length cs} \<and>
     length cs \<le> 2 ^ 32 \<and> (\<forall>p \<in> set cs. p \<noteq> [] \<and> length p < 2 ^ 32) \<and>
     (\<forall>i < length rs. rbuf (rs ! i) =
        take (m i) (frames_of cs (owns ! i) @ chunk_bytes (of_nat (length cs), [])))"

lemma transfer_stripe:
  assumes "transfer cs owns m rs" and "i < length rs"
  shows "\<exists>l e. read_stripe i (rs ! i) = map (\<lambda>j. data_event i (frame_of cs j)) (take l (owns ! i)) @ [e] \<and>
    sc_eof e \<and> (length (frames_of cs (owns ! i)) \<le> m i \<longrightarrow> take l (owns ! i) = owns ! i)"
proof -
  let ?fs = "map (frame_of cs) (owns ! i)"
  have "\<forall>f \<in> set ?fs. snd f \<noteq> [] \<and> length (snd f) < 2 ^ 32"
  proof
    fix f
    assume "f \<in> set ?fs"
    then obtain j where j: "j \<in> set (owns ! i)" "f = frame_of cs j"
      by auto
    then have "j \<in> set (concat owns)"
      using assms by (auto simp: transfer_def intro: nth_mem)
    then show "snd f \<noteq> [] \<and> length (snd f) < 2 ^ 32"
      using assms(1) j by (auto simp: transfer_def)
  qed
  moreover have "concat (map chunk_bytes ?fs) = frames_of cs (owns ! i)"
    by (simp add: comp_def del: chunk_bytes.simps)
  ultimately obtain l e where "read_stripe i (rs ! i) = map (data_event i) (take l ?fs) @ [e]"
      "sc_eof e" "length (frames_of cs (owns ! i)) \<le> m i \<longrightarrow> l = length ?fs"
    using read_stripe_prefix [of ?fs "rs ! i" "m i" "of_nat (length cs)" i] assms
    by (auto simp: transfer_def simp del: chunk_bytes.simps)
  then show ?thesis
    by (intro exI [of _ l] exI [of _ e]) (simp add: take_map comp_def)
qed

text \<open>Each stream ends with its one end event, so the last arrival of all is one, and fewer than all
  have arrived before it.\<close>

lemma ends_before_last:
  assumes arr: "arrival rs es" and ne: "rs \<noteq> []"
    and one: "\<And>i. i < length rs \<Longrightarrow> length (filter sc_eof (read_stripe i (rs ! i))) = 1 \<and> sc_eof (last (read_stripe i (rs ! i)))"
  shows "length (filter sc_eof (butlast es)) < length rs"
proof (cases "es = []")
  case False
  let ?all = "concat (map (\<lambda>i. read_stripe i (rs ! i)) [0..<length rs])"
  let ?i = "sc_stripe (last es)"
  have "length (filter sc_eof es) = length (filter sc_eof ?all)"
    using arrival_mset [OF arr] by (metis mset_filter size_mset)
  also have "\<dots> = length rs"
    using one by (intro count_end_events) simp
  finally have total: "length (filter sc_eof (butlast es @ [last es])) = length rs"
    using False by simp
  have i: "?i < length rs"
    using arrivalD(1) [OF arr] False by simp
  have "filter (\<lambda>c. sc_stripe c = ?i) (butlast es @ [last es]) = read_stripe ?i (rs ! ?i)"
    using arrivalD(2) [OF arr i] False by simp
  then have "last (read_stripe ?i (rs ! ?i)) = last es"
    by (auto dest: arg_cong [of _ _ last])
  then have "sc_eof (last es)"
    using one [OF i] by simp
  then show ?thesis
    using total by simp
qed (use ne in simp)

lemma carries_mset:
  assumes "mset (map (\<lambda>c. (sc_seq c, sc_payload c)) (data_of es)) = mset (map (\<lambda>j. (of_nat j, cs ! j)) ks)"
    and small: "\<And>j. j \<in> set ks \<Longrightarrow> unat (of_nat j :: u32) = j"
  shows "\<exists>js. carries cs es js \<and> mset js = mset ks"
proof (intro exI conjI)
  let ?js = "map (\<lambda>c. unat (sc_seq c)) (data_of es)"
  have "sc_payload c = cs ! unat (sc_seq c)" if "c \<in> set (data_of es)" for c
  proof -
    have "(sc_seq c, sc_payload c) \<in> set (map (\<lambda>c. (sc_seq c, sc_payload c)) (data_of es))"
      using that by (simp del: set_filter)
    then obtain j where "j \<in> set ks" "sc_seq c = of_nat j" "sc_payload c = cs ! j"
      unfolding mset_eq_setD [OF assms(1)] by auto
    then show ?thesis
      using small by simp
  qed
  then show "carries cs es ?js"
    by (simp add: carries_def)
  have "mset ?js = mset (map (unat \<circ> fst) (map (\<lambda>c. (sc_seq c, sc_payload c)) (data_of es)))"
    by (simp add: comp_def)
  also have "\<dots> = mset (map (unat \<circ> fst) (map (\<lambda>j. (of_nat j :: u32, cs ! j)) ks))"
    unfolding mset_map [of "unat \<circ> fst"] assms(1) ..
  also have "map (unat \<circ> fst) (map (\<lambda>j. (of_nat j :: u32, cs ! j)) ks) = ks"
    using small by (auto intro: map_idI)
  finally show "mset ?js = mset ks" .
qed

text \<open>What arrives on the streams of a transfer, one after the other: the chunks of each up to
  where it broke, and an end marker.\<close>

lemma transfer_streams:
  assumes tr: "transfer cs owns m rs"
  obtains ks where
    "map (\<lambda>c. (sc_seq c, sc_payload c)) (data_of (concat (map (\<lambda>i. read_stripe i (rs ! i)) [0..<length rs]))) =
      map (\<lambda>j. (of_nat j, cs ! j)) ks"
    and "distinct ks" and "set ks \<subseteq> set (concat owns)"
    and "(\<forall>i < length rs. length (frames_of cs (owns ! i)) \<le> m i) \<Longrightarrow> ks = concat owns"
    and "\<And>i. i < length rs \<Longrightarrow> length (filter sc_eof (read_stripe i (rs ! i))) = 1 \<and> sc_eof (last (read_stripe i (rs ! i)))"
proof -
  let ?n = "length rs"
  let ?P = "\<lambda>i l e.
      read_stripe i (rs ! i) = map (\<lambda>j. data_event i (frame_of cs j)) (take l (owns ! i)) @ [e] \<and>
      sc_eof e \<and> (length (frames_of cs (owns ! i)) \<le> m i \<longrightarrow> take l (owns ! i) = owns ! i)"
  have "\<forall>i. \<exists>x. i < ?n \<longrightarrow> ?P i (fst x) (snd x)"
    using transfer_stripe [OF tr] by (simp del: chunk_bytes.simps)
  from choice [OF this] obtain x where x: "\<forall>i. i < ?n \<longrightarrow> ?P i (fst (x i)) (snd (x i))" ..
  let ?takes = "map (\<lambda>i. take (fst (x i)) (owns ! i)) [0..<?n]"
  have n: "length owns = ?n" "distinct (concat owns)"
    using tr by (simp_all add: transfer_def)
  have "list_all2 (\<lambda>xs ys. \<exists>l. xs = take l ys) ?takes owns"
    using n(1) by (auto simp: list_all2_conv_all_nth)
  note takes = concat_takes [OF this n(2)]
  have "map (\<lambda>c. (sc_seq c, sc_payload c)) (data_of (concat (map (\<lambda>i. read_stripe i (rs ! i)) [0..<k]))) =
      map (\<lambda>j. (of_nat j, cs ! j)) (concat (map (\<lambda>i. take (fst (x i)) (owns ! i)) [0..<k]))" if "k \<le> ?n" for k
    using that by (induction k) (simp_all add: x filter_map comp_def)
  moreover have "concat ?takes = concat owns" if "\<forall>i < ?n. length (frames_of cs (owns ! i)) \<le> m i"
  proof -
    have "?takes = map (\<lambda>i. owns ! i) [0..<?n]"
      using x that by simp
    also have "\<dots> = owns"
      using map_nth [of owns] n(1) by simp
    finally show ?thesis
      by (rule arg_cong)
  qed
  moreover have "length (filter sc_eof (read_stripe i (rs ! i))) = 1 \<and> sc_eof (last (read_stripe i (rs ! i)))"
    if "i < ?n" for i
    using x that by (simp add: filter_map comp_def)
  ultimately show ?thesis
    using takes that [of "concat ?takes"] by blast
qed

lemma transfer_arrival:
  assumes tr: "transfer cs owns m rs" and arr: "arrival rs es"
  shows "\<exists>js. carries cs es js \<and> distinct js \<and> set js \<subseteq> set (concat owns) \<and>
    ((\<forall>i < length rs. length (frames_of cs (owns ! i)) \<le> m i) \<longrightarrow> set js = set (concat owns)) \<and>
    (rs \<noteq> [] \<longrightarrow> length (filter sc_eof (butlast es)) < length rs)"
proof -
  from transfer_streams [OF tr] obtain ks where
    data: "map (\<lambda>c. (sc_seq c, sc_payload c)) (data_of (concat (map (\<lambda>i. read_stripe i (rs ! i)) [0..<length rs]))) =
      map (\<lambda>j. (of_nat j, cs ! j)) ks"
    and ks: "distinct ks" "set ks \<subseteq> set (concat owns)"
      "(\<forall>i < length rs. length (frames_of cs (owns ! i)) \<le> m i) \<Longrightarrow> ks = concat owns"
    and ends: "\<And>i. i < length rs \<Longrightarrow> length (filter sc_eof (read_stripe i (rs ! i))) = 1 \<and> sc_eof (last (read_stripe i (rs ! i)))"
    by blast
  have "mset (map (\<lambda>c. (sc_seq c, sc_payload c)) (data_of es)) = mset (map (\<lambda>j. (of_nat j, cs ! j)) ks)"
    unfolding data [symmetric] mset_map mset_filter arrival_mset [OF arr] ..
  moreover have "unat (of_nat j :: u32) = j" if "j \<in> set ks" for j
  proof (rule unat_of_nat_u32)
    have "set (concat owns) \<subseteq> {..<length cs}" "length cs \<le> 2 ^ 32"
      using tr by (simp_all add: transfer_def)
    then show "j < 2 ^ 32"
      using that ks(2) by (auto dest!: subsetD)
  qed
  ultimately obtain js where "carries cs es js" "mset js = mset ks"
    using carries_mset by blast
  moreover have "distinct js" "set js = set ks"
    using calculation(2) ks(1) by (metis mset_eq_imp_distinct_iff, metis mset_eq_setD)
  moreover have "length (filter sc_eof (butlast es)) < length rs" if "rs \<noteq> []"
    by (rule ends_before_last [OF arr that]) (use ends in auto)
  ultimately show ?thesis
    using ks by (intro exI [of _ js]) auto
qed

section \<open>What is written to the TCP connection\<close>

lemma rs_drain_done:
  assumes "rs_inv cs w0 D k s" and "k \<notin> D" and "length cs \<le> 2 ^ 32"
  shows "rs_drain s = (False, s)"
  using rs_inv_pending [OF assms(1,3)] assms(2) by (simp add: rs_drain.simps [of s])

lemma readStripesToTCP_inv:
  assumes "carries cs es js" and "distinct js" and "set js \<subseteq> {..<length cs}" and "length cs \<le> 2 ^ 32"
  shows "rs_prefix cs dst (readStripesToTCP n es dst) \<and>
    (wroom dst = None \<and> length (filter sc_eof (butlast es)) < n \<longrightarrow>
       (\<exists>k. rs_inv cs dst (set js) k (readStripesToTCP n es dst) \<and> k \<notin> set js))"
proof -
  obtain b s where l: "rs_loop n es (rs_init dst) = (b, s)"
    by (cases "rs_loop n es (rs_init dst)")
  have unlim: "\<not> b" if "wroom dst = None"
    using rs_loop_unlimited [of "rs_init dst" n es b s] l that by (simp add: rs_init_def)
  from rs_loop_inv [OF rs_inv_init _ assms(4,1,2,3) _ l]
  have *: "if b then rs_prefix cs dst s else
      \<exists>D' k'. rs_inv cs dst D' k' s \<and> k' \<notin> D' \<and> D' \<subseteq> set js \<and>
        (length (filter sc_eof (butlast es)) < n \<longrightarrow> D' = set js)"
    by (simp add: rs_init_def split: if_splits)
  show ?thesis
  proof (cases b)
    case True
    then show ?thesis
      using * l unlim by (auto simp: readStripesToTCP_def)
  next
    case False
    then obtain D' k' where D': "rs_inv cs dst D' k' s" "k' \<notin> D'"
        "length (filter sc_eof (butlast es)) < n \<longrightarrow> D' = set js"
      using * by auto
    then have "readStripesToTCP n es dst = s"
      using l False rs_drain_done [OF D'(1,2) assms(4)] by (simp add: readStripesToTCP_def)
    then show ?thesis
      using D' rs_inv_prefix by blast
  qed
qed

lemma rs_inv_complete:
  assumes "rs_inv cs w0 D k s" and "k \<notin> D" and "D = {..<length cs}"
  shows "wout (rs_dst s) = wout w0 @ concat cs \<and> rs_counter s = of_nat (length (concat cs))"
  using assms by (auto simp: rs_inv_def)

text \<open>
  One stream with its chunks in order: nothing is ever buffered, and the sequence numbers may
  wrap around.
\<close>

lemma rs_take_next:
  assumes "rs_pending s = Map.empty" and "wroom (rs_dst s) = None"
  shows "rs_take n (data_event i (rs_next s, p)) s =
    (Continue, rs_wrote p (rs_dst s\<lparr>wout := wout (rs_dst s) @ p\<rparr>) s)"
  using assms by (simp add: rs_take_def io_simps rs_wrote_def rs_drain.simps)

lemma rs_loop_in_order:
  assumes "rs_pending s = Map.empty" and "wroom (rs_dst s) = None" and "rs_next s = of_nat k"
    and "k \<le> length cs" and "sc_eof e" and "Suc (rs_eofs s) = n"
  shows "\<exists>s'. rs_loop n (map (\<lambda>j. data_event i (frame_of cs j)) [k..<length cs] @ [e]) s = (False, s') \<and>
    rs_pending s' = Map.empty \<and> wout (rs_dst s') = wout (rs_dst s) @ concat (drop k cs) \<and>
    rs_counter s' = rs_counter s + of_nat (length (concat (drop k cs)))"
  using assms
proof (induction "length cs - k" arbitrary: k s)
  case 0
  then show ?case
    by (auto simp: rs_take_eof)
next
  case (Suc d)
  then have k: "k < length cs"
    by simp
  let ?s = "rs_wrote (cs ! k) (rs_dst s\<lparr>wout := wout (rs_dst s) @ cs ! k\<rparr>) s"
  have split: "[k..<length cs] = k # [Suc k..<length cs]" "drop k cs = cs ! k # drop (Suc k) cs"
    using k by (simp_all add: upt_conv_Cons Cons_nth_drop_Suc)
  have "rs_take n (data_event i (frame_of cs k)) s = (Continue, ?s)"
    using rs_take_next [OF Suc.prems(1,2), of n i "cs ! k"] Suc.prems(3) by simp
  moreover have "\<exists>s'. rs_loop n (map (\<lambda>j. data_event i (frame_of cs j)) [Suc k..<length cs] @ [e]) ?s =
      (False, s') \<and> rs_pending s' = Map.empty \<and>
      wout (rs_dst s') = wout (rs_dst ?s) @ concat (drop (Suc k) cs) \<and>
      rs_counter s' = rs_counter ?s + of_nat (length (concat (drop (Suc k) cs)))"
    using Suc.hyps(2) Suc.prems k by (intro Suc.hyps(1)) (simp_all add: rs_wrote_def)
  ultimately show ?case
    by (auto simp: split rs_wrote_def)
qed

end
