(* ===== verification/StripeChan.thy ===== *)
theory StripeChan
  imports StripeRecv Machine
begin

text \<open>
  The goroutines of \<open>readStripesToTCP\<close> (\<open>internal/forward/forward.go\<close>): one reader per stream,
  a channel of capacity \<open>8 * n\<close> and the main loop, as a step relation. It refines the function
  \<open>readStripesToTCP\<close> of theory \<open>StripeRecv\<close>: whatever the interleaving, the loop has seen the
  beginning of an order of arrival and left what the function computes.
\<close>

section \<open>Goroutines and channel\<close>

text \<open>A reader goroutine is about to read a chunk, blocked on the channel, or has returned.\<close>

datatype rr_go = GRead | GPut stripeChunk | GExit

datatype rr_main = MLoop | MDone

record rr_state =
  rr_conns :: "reader list"
  rr_gos :: "rr_go list"
  rr_chan :: "stripeChunk list"
  rr_at :: rr_main
  rr_rs :: rs_state

definition rr_init :: "reader list \<Rightarrow> writer \<Rightarrow> rr_state" where
  "rr_init rs dst =
     \<lparr>rr_conns = rs, rr_gos = replicate (length rs) GRead, rr_chan = [], rr_at = MLoop,
      rr_rs = rs_init dst\<rparr>"

definition chan_cap :: "rr_state \<Rightarrow> nat" where
  "chan_cap s = length (rr_gos s) * 8"

datatype rr_act = RGo nat | RTake | REnd

fun rr_step :: "rr_act \<Rightarrow> rr_state \<Rightarrow> rr_state option" where
  "rr_step (RGo i) s =
     (if i < length (rr_gos s) then
        (case rr_gos s ! i of
           GRead \<Rightarrow>
             (case stripe_event i (rr_conns s ! i) of (c, r) \<Rightarrow>
                Some (s\<lparr>rr_conns := (rr_conns s)[i := r], rr_gos := (rr_gos s)[i := GPut c]\<rparr>))
         | GPut c \<Rightarrow>
             if length (rr_chan s) < chan_cap s then
               Some (s\<lparr>rr_chan := rr_chan s @ [c],
                      rr_gos := (rr_gos s)[i := (if sc_eof c then GExit else GRead)]\<rparr>)
             else None
         | GExit \<Rightarrow> None)
      else None)"
| "rr_step RTake s =
     (case (rr_at s, rr_chan s) of
        (MLoop, c # cs) \<Rightarrow>
          (case rs_take (length (rr_gos s)) c (rr_rs s) of
             (Continue, t) \<Rightarrow> Some (s\<lparr>rr_chan := cs, rr_rs := t\<rparr>)
           | (Break, t) \<Rightarrow> Some (s\<lparr>rr_chan := cs, rr_rs := snd (rs_drain t), rr_at := MDone\<rparr>)
           | (Return, t) \<Rightarrow> Some (s\<lparr>rr_chan := cs, rr_rs := t, rr_at := MDone\<rparr>))
      | _ \<Rightarrow> None)"
| "rr_step REnd s =
     (if rr_at s = MLoop \<and> rr_chan s = [] \<and> (\<forall>g \<in> set (rr_gos s). g = GExit)
      then Some (s\<lparr>rr_rs := snd (rs_drain (rr_rs s)), rr_at := MDone\<rparr>)
      else None)"

text \<open>Reachable states, with the chunks the main loop has taken so far.\<close>

inductive rr_reach :: "reader list \<Rightarrow> writer \<Rightarrow> stripeChunk list \<Rightarrow> rr_state \<Rightarrow> bool"
  for rs dst where
  init: "rr_reach rs dst [] (rr_init rs dst)"
| go: "rr_reach rs dst es s \<Longrightarrow> rr_step (RGo i) s = Some t \<Longrightarrow> rr_reach rs dst es t"
| take: "rr_reach rs dst es s \<Longrightarrow> rr_step RTake s = Some t \<Longrightarrow>
    rr_reach rs dst (es @ [hd (rr_chan s)]) t"
| finish: "rr_reach rs dst es s \<Longrightarrow> rr_step REnd s = Some t \<Longrightarrow> rr_reach rs dst es t"

lemma rr_take_SomeE:
  assumes "rr_step RTake s = Some t"
  obtains c cs v r where "rr_at s = MLoop" "rr_chan s = c # cs"
    "rs_take (length (rr_gos s)) c (rr_rs s) = (v, r)"
    "t = s\<lparr>rr_chan := cs, rr_rs := (if v = Break then snd (rs_drain r) else r),
           rr_at := (if v = Continue then MLoop else MDone)\<rparr>"
proof -
  obtain c cs where c: "rr_at s = MLoop" "rr_chan s = c # cs"
    using assms by (auto split: rr_main.splits list.splits)
  obtain v r where v: "rs_take (length (rr_gos s)) c (rr_rs s) = (v, r)"
    by (cases "rs_take (length (rr_gos s)) c (rr_rs s)")
  show thesis
    using assms c v by (intro that [OF c v]) (cases v; auto)
qed

section \<open>Every run delivers the beginning of an arrival\<close>

text \<open>What goroutine \<open>i\<close> has still to put on the channel.\<close>

definition rr_rest :: "rr_state \<Rightarrow> nat \<Rightarrow> stripeChunk list" where
  "rr_rest s i =
     (case rr_gos s ! i of
        GRead \<Rightarrow> read_stripe i (rr_conns s ! i)
      | GPut c \<Rightarrow> c # (if sc_eof c then [] else read_stripe i (rr_conns s ! i))
      | GExit \<Rightarrow> [])"

lemma rr_rest_cong:
  "rr_gos t = rr_gos s \<Longrightarrow> rr_conns t = rr_conns s \<Longrightarrow> rr_rest t = rr_rest s"
  by (simp add: rr_rest_def fun_eq_iff split: rr_go.split)

text \<open>Everything of stream \<open>i\<close>: taken, on the channel, and still to come.\<close>

definition rr_seen :: "stripeChunk list \<Rightarrow> rr_state \<Rightarrow> nat \<Rightarrow> stripeChunk list" where
  "rr_seen es s i = filter (\<lambda>c. sc_stripe c = i) (es @ rr_chan s) @ rr_rest s i"

definition gos_ok :: "rr_go list \<Rightarrow> bool" where
  "gos_ok gs \<longleftrightarrow> (\<forall>i < length gs. \<forall>c. gs ! i = GPut c \<longrightarrow> sc_stripe c = i)"

lemma gos_ok_update:
  "gos_ok gs \<Longrightarrow> (\<And>c. g = GPut c \<Longrightarrow> sc_stripe c = i) \<Longrightarrow> gos_ok (gs[i := g])"
  by (cases "i < length gs")
    (auto simp: gos_ok_def nth_list_update list_update_beyond split: if_splits)

definition rr_inv :: "reader list \<Rightarrow> stripeChunk list \<Rightarrow> rr_state \<Rightarrow> bool" where
  "rr_inv rs es s \<longleftrightarrow>
     length (rr_gos s) = length rs \<and> length (rr_conns s) = length rs \<and>
     length (rr_chan s) \<le> chan_cap s \<and> gos_ok (rr_gos s) \<and>
     (\<forall>c \<in> set (es @ rr_chan s). sc_stripe c < length rs) \<and>
     (\<forall>i < length rs. rr_seen es s i = read_stripe i (rs ! i))"

lemma rr_inv_init: "rr_inv rs [] (rr_init rs dst)"
  by (simp add: rr_inv_def rr_init_def rr_rest_def chan_cap_def rr_seen_def gos_ok_def)

lemma rr_inv_go:
  assumes inv: "rr_inv rs es s" and step: "rr_step (RGo i) s = Some t"
  shows "rr_inv rs es t"
proof -
  have i: "i < length rs" "i < length (rr_gos s)" "i < length (rr_conns s)"
    using assms by (auto simp: rr_inv_def split: if_splits)
  have ok: "gos_ok (rr_gos s)"
    using inv by (simp add: rr_inv_def)
  have frame: "rr_rest t j = rr_rest s j" if "j \<noteq> i" for j
    using step that
    by (auto simp: rr_rest_def split: if_splits rr_go.splits prod.splits)
  show ?thesis
  proof (cases "rr_gos s ! i")
    case GRead
    obtain c r where e: "stripe_event i (rr_conns s ! i) = (c, r)"
      by (cases "stripe_event i (rr_conns s ! i)")
    then have t: "t = s\<lparr>rr_conns := (rr_conns s)[i := r], rr_gos := (rr_gos s)[i := GPut c]\<rparr>"
      using step GRead i by simp
    have "rr_rest t i = rr_rest s i"
      using GRead i e t by (simp add: rr_rest_def read_stripe.simps [of i "rr_conns s ! i"])
    then have "rr_seen es t = rr_seen es s"
      using frame t by (fastforce simp: rr_seen_def)
    moreover have "gos_ok (rr_gos t)"
      using gos_ok_update [OF ok, of "GPut c" i] stripe_event_stripe [of i "rr_conns s ! i"] e t by simp
    moreover have "length (rr_gos t) = length (rr_gos s)" "rr_chan t = rr_chan s"
      "length (rr_conns t) = length (rr_conns s)"
      using t by simp_all
    ultimately show ?thesis
      using inv by (simp add: rr_inv_def chan_cap_def)
  next
    case (GPut c)
    then have t: "t = s\<lparr>rr_chan := rr_chan s @ [c],
        rr_gos := (rr_gos s)[i := (if sc_eof c then GExit else GRead)]\<rparr>"
      and cap: "length (rr_chan s) < chan_cap s"
      using step i by (auto split: if_splits)
    have ci: "sc_stripe c = i"
      using ok i GPut by (simp add: gos_ok_def)
    have "rr_rest s i = c # rr_rest t i"
      using GPut i t by (simp add: rr_rest_def)
    then have "rr_seen es t j = rr_seen es s j" for j
      using frame [of j] t ci by (cases "j = i") (auto simp: rr_seen_def)
    moreover have "gos_ok (rr_gos t)"
      using gos_ok_update [OF ok, of GExit i] gos_ok_update [OF ok, of GRead i] t by simp
    moreover have "length (rr_gos t) = length (rr_gos s)" "rr_chan t = rr_chan s @ [c]"
      "rr_conns t = rr_conns s"
      using t by simp_all
    ultimately show ?thesis
      using inv cap ci i by (auto simp: rr_inv_def chan_cap_def)
  next
    case GExit
    then show ?thesis
      using step i by simp
  qed
qed

lemma rr_inv_take:
  assumes "rr_inv rs es s" and "rr_step RTake s = Some t"
  shows "rr_inv rs (es @ [hd (rr_chan s)]) t"
  using assms(2)
proof (rule rr_take_SomeE)
  fix c cs v r
  assume "rr_chan s = c # cs" and "t = s\<lparr>rr_chan := cs,
      rr_rs := (if v = Break then snd (rs_drain r) else r), rr_at := (if v = Continue then MLoop else MDone)\<rparr>"
  then have "rr_chan s = c # rr_chan t" "rr_rest t = rr_rest s" "rr_gos t = rr_gos s"
    "rr_conns t = rr_conns s"
    by (auto intro: rr_rest_cong)
  moreover from this have "rr_seen (es @ [c]) t = rr_seen es s"
    by (simp add: rr_seen_def fun_eq_iff)
  ultimately show ?thesis
    using assms(1) by (simp add: rr_inv_def chan_cap_def)
qed

lemma rr_inv_finish:
  assumes "rr_inv rs es s" and "rr_step REnd s = Some t"
  shows "rr_inv rs es t"
proof -
  have "rr_chan t = rr_chan s" "rr_rest t = rr_rest s" "rr_gos t = rr_gos s"
    "rr_conns t = rr_conns s"
    using assms(2) by (auto intro: rr_rest_cong split: if_splits)
  then show ?thesis
    using assms(1) by (simp add: rr_inv_def rr_seen_def chan_cap_def)
qed

lemma rr_reach_inv: "rr_reach rs dst es s \<Longrightarrow> rr_inv rs es s"
  by (induction rule: rr_reach.induct)
    (blast intro: rr_inv_init rr_inv_go rr_inv_take rr_inv_finish)+

text \<open>The chunks still on their way complete the taken ones to an order of arrival.\<close>

definition rr_future :: "rr_state \<Rightarrow> stripeChunk list" where
  "rr_future s = rr_chan s @ concat (map (rr_rest s) [0..<length (rr_gos s)])"

lemma read_stripe_stripe: "c \<in> set (read_stripe i r) \<Longrightarrow> sc_stripe c = i"
proof (induction i r rule: read_stripe.induct)
  case (1 i r)
  obtain d r' where d: "stripe_event i r = (d, r')"
    by (cases "stripe_event i r")
  then show ?case
    using 1 stripe_event_stripe [of i r]
    by (auto simp: read_stripe.simps [of i r] split: if_splits)
qed

lemma filter_concat_class:
  assumes "\<And>i c. i < n \<Longrightarrow> c \<in> set (f i) \<Longrightarrow> g c = i"
  shows "filter (\<lambda>c. g c = k) (concat (map f [0..<n])) = (if k < n then f k else [])"
  using assms
proof (induction n)
  case (Suc n)
  have "filter (\<lambda>c. g c = k) (f n) = (if k = n then f n else [])"
    using Suc.prems [of n] by (auto simp: filter_empty_conv filter_id_conv)
  then show ?case
    using Suc by (auto simp: less_Suc_eq)
qed simp

lemma rr_future_arrival:
  assumes "rr_inv rs es s"
  shows "arrival rs (es @ rr_future s)"
proof -
  have n: "length (rr_gos s) = length rs"
    using assms by (simp add: rr_inv_def)
  have rest: "sc_stripe c = i" if "i < length rs" "c \<in> set (rr_rest s i)" for i c
    using assms that
    by (auto simp: rr_inv_def gos_ok_def rr_rest_def dest: read_stripe_stripe
        split: rr_go.splits if_splits)
  have "filter (\<lambda>c. sc_stripe c = i) (es @ rr_future s) = read_stripe i (rs ! i)"
    if "i < length rs" for i
    using assms that filter_concat_class [of "length rs" "rr_rest s" sc_stripe i] rest n
    by (simp add: rr_inv_def rr_seen_def rr_future_def)
  moreover have "\<forall>c \<in> set (es @ rr_future s). sc_stripe c < length rs"
    using assms rest n by (auto simp: rr_inv_def rr_future_def)
  ultimately show ?thesis
    by (auto simp: arrival_def list_all_iff)
qed

section \<open>The main loop computes the function\<close>

text \<open>The state after taking chunks none of which ends the loop.\<close>

fun rs_conts :: "nat \<Rightarrow> stripeChunk list \<Rightarrow> rs_state \<Rightarrow> rs_state option" where
  "rs_conts n [] s = Some s"
| "rs_conts n (c # cs) s =
     (case rs_take n c s of (Continue, t) \<Rightarrow> rs_conts n cs t | _ \<Rightarrow> None)"

lemma rs_conts_loop:
  "rs_conts n es s = Some t \<Longrightarrow> rs_loop n (es @ fs) s = rs_loop n fs t"
  by (induction es arbitrary: s) (auto split: prod.splits rs_verdict.splits)

lemma rs_conts_snoc:
  "rs_conts n es s = Some t \<Longrightarrow> rs_take n c t = (Continue, u) \<Longrightarrow> rs_conts n (es @ [c]) s = Some u"
  by (induction es arbitrary: s) (auto split: prod.splits rs_verdict.splits)

definition rr_tracks :: "reader list \<Rightarrow> writer \<Rightarrow> stripeChunk list \<Rightarrow> rr_state \<Rightarrow> bool" where
  "rr_tracks rs dst es s \<longleftrightarrow>
     (rr_at s = MLoop \<longrightarrow> rs_conts (length rs) es (rs_init dst) = Some (rr_rs s)) \<and>
     (rr_at s = MDone \<longrightarrow>
        (\<exists>fs. arrival rs (es @ fs) \<and> rr_rs s = readStripesToTCP (length rs) (es @ fs) dst))"

lemma rr_tracks_take:
  assumes reach: "rr_reach rs dst es s" and "rr_tracks rs dst es s" and step: "rr_step RTake s = Some t"
  shows "rr_tracks rs dst (es @ [hd (rr_chan s)]) t"
proof -
  have n: "length (rr_gos s) = length rs"
    using rr_reach_inv [OF reach] by (simp add: rr_inv_def)
  have inv: "rr_inv rs (es @ [hd (rr_chan s)]) t"
    using rr_inv_take rr_reach_inv [OF reach] step by blast
  from step show ?thesis
  proof (rule rr_take_SomeE)
    fix c cs v r
    assume c: "rr_at s = MLoop" "rr_chan s = c # cs"
      "rs_take (length (rr_gos s)) c (rr_rs s) = (v, r)"
      and t: "t = s\<lparr>rr_chan := cs, rr_rs := (if v = Break then snd (rs_drain r) else r),
                    rr_at := (if v = Continue then MLoop else MDone)\<rparr>"
    have conts: "rs_conts (length rs) es (rs_init dst) = Some (rr_rs s)"
      using assms(2) c(1) by (simp add: rr_tracks_def)
    let ?all = "(es @ [c]) @ rr_future t"
    have "rs_loop (length rs) ?all (rs_init dst) = rs_loop (length rs) (c # rr_future t) (rr_rs s)"
      using rs_conts_loop [OF conts, of "c # rr_future t"] by simp
    then have "v \<noteq> Continue \<longrightarrow> rr_rs t = readStripesToTCP (length rs) ?all dst"
      using c(3) n t by (cases v) (simp_all add: readStripesToTCP_def)
    moreover have "arrival rs ?all"
      using rr_future_arrival [OF inv] c(2) by simp
    moreover have "v = Continue \<longrightarrow> rs_conts (length rs) (es @ [c]) (rs_init dst) = Some (rr_rs t)"
      using rs_conts_snoc [OF conts] c(3) n t by simp
    ultimately show ?thesis
      using c t by (cases v) (auto simp: rr_tracks_def)
  qed
qed

lemma rr_tracks_finish:
  assumes reach: "rr_reach rs dst es s" and "rr_tracks rs dst es s" and "rr_step REnd s = Some t"
  shows "rr_tracks rs dst es t"
proof -
  have s: "rr_at s = MLoop" "rr_chan s = []" "\<forall>g \<in> set (rr_gos s). g = GExit"
    and t: "t = s\<lparr>rr_rs := snd (rs_drain (rr_rs s)), rr_at := MDone\<rparr>"
    using assms(3) by (auto split: if_splits)
  have "rr_gos s ! i = GExit" if "i < length (rr_gos s)" for i
    using s(3) that by simp
  then have "rr_future s = []"
    using s(2) by (simp add: rr_future_def rr_rest_def)
  then have "arrival rs (es @ [])"
    using rr_future_arrival [OF rr_reach_inv [OF reach]] by simp
  moreover have "rs_conts (length rs) es (rs_init dst) = Some (rr_rs s)"
    using assms(2) s(1) by (simp add: rr_tracks_def)
  then have "rr_rs t = readStripesToTCP (length rs) (es @ []) dst"
    using rs_conts_loop [of "length rs" es "rs_init dst" "rr_rs s" "[]"] t
    by (simp add: readStripesToTCP_def)
  ultimately have "\<exists>fs. arrival rs (es @ fs) \<and> rr_rs t = readStripesToTCP (length rs) (es @ fs) dst"
    by blast
  then show ?thesis
    using t by (simp add: rr_tracks_def)
qed

lemma rr_tracks_reach: "rr_reach rs dst es s \<Longrightarrow> rr_tracks rs dst es s"
proof (induction rule: rr_reach.induct)
  case init
  then show ?case
    by (simp add: rr_init_def rr_tracks_def)
next
  case (go es s i t)
  then have "rr_at t = rr_at s" "rr_rs t = rr_rs s"
    by (auto split: if_splits rr_go.splits prod.splits)
  then show ?case
    using go.IH by (simp add: rr_tracks_def)
next
  case (take es s t)
  then show ?case
    using rr_tracks_take by blast
next
  case (finish es s t)
  then show ?case
    using rr_tracks_finish by blast
qed

lemmas rr_loop_inv = rr_tracks_reach [unfolded rr_tracks_def]

section \<open>Termination, progress and the readers that stay behind\<close>

definition rr_weight :: "rr_state \<Rightarrow> nat \<Rightarrow> nat" where
  "rr_weight s i =
     (case rr_gos s ! i of
        GRead \<Rightarrow> 3 * length (rbuf (rr_conns s ! i)) + 3
      | GPut c \<Rightarrow> (if sc_eof c then 2 else 3 * length (rbuf (rr_conns s ! i)) + 5)
      | GExit \<Rightarrow> 0)"

lemma rr_weight_cong:
  "rr_gos t = rr_gos s \<Longrightarrow> rr_conns t = rr_conns s \<Longrightarrow> rr_weight t = rr_weight s"
  unfolding rr_weight_def by (simp only:)

definition rr_measure :: "rr_state \<Rightarrow> nat" where
  "rr_measure s =
     (\<Sum>i < length (rr_gos s). rr_weight s i) + length (rr_chan s) + (if rr_at s = MLoop then 1 else 0)"

lemma sum_decrease:
  fixes f g :: "nat \<Rightarrow> nat"
  assumes "i < n" and "f i + d < g i + e" and "\<And>j. j \<noteq> i \<Longrightarrow> f j = g j"
  shows "(\<Sum>j < n. f j) + d < (\<Sum>j < n. g j) + e"
proof -
  have "(\<Sum>j \<in> {..<n} - {i}. f j) = (\<Sum>j \<in> {..<n} - {i}. g j)"
    using assms(3) by (intro sum.cong) auto
  then show ?thesis
    using assms(1,2) by (simp add: sum.remove [of "{..<n}" i])
qed

lemma rr_step_measure:
  assumes "rr_step a s = Some t" and "length (rr_conns s) = length (rr_gos s)"
  shows "rr_measure t < rr_measure s"
proof (cases a)
  case (RGo i)
  then have i: "i < length (rr_gos s)" "i < length (rr_conns s)"
    using assms by (auto split: if_splits)
  have frame: "rr_weight t j = rr_weight s j" if "j \<noteq> i" for j
    using assms(1) RGo that by (auto simp: rr_weight_def split: if_splits rr_go.splits prod.splits)
  have n: "length (rr_gos t) = length (rr_gos s)" "rr_at t = rr_at s"
    using assms(1) RGo by (auto split: if_splits rr_go.splits prod.splits)
  have "rr_weight t i + length (rr_chan t) < rr_weight s i + length (rr_chan s)"
  proof (cases "rr_gos s ! i")
    case GRead
    obtain c r where e: "stripe_event i (rr_conns s ! i) = (c, r)"
      by (cases "stripe_event i (rr_conns s ! i)")
    then have "t = s\<lparr>rr_conns := (rr_conns s)[i := r], rr_gos := (rr_gos s)[i := GPut c]\<rparr>"
      using assms(1) RGo GRead i by simp
    then show ?thesis
      using GRead i stripe_event_decreases [OF e] by (cases "sc_eof c") (simp_all add: rr_weight_def)
  next
    case (GPut c)
    then show ?thesis
      using assms(1) RGo i by (auto simp: rr_weight_def split: if_splits)
  next
    case GExit
    then show ?thesis
      using assms(1) RGo by (simp split: if_splits)
  qed
  from sum_decrease [where f = "rr_weight t" and g = "rr_weight s", OF i(1) this frame] show ?thesis
    using n by (simp add: rr_measure_def)
next
  case RTake
  then have "rr_step RTake s = Some t"
    using assms(1) by simp
  then show ?thesis
  proof (rule rr_take_SomeE)
    fix c cs v r
    assume "rr_at s = MLoop" "rr_chan s = c # cs"
      and t: "t = s\<lparr>rr_chan := cs, rr_rs := (if v = Break then snd (rs_drain r) else r),
                    rr_at := (if v = Continue then MLoop else MDone)\<rparr>"
    moreover have "rr_gos t = rr_gos s" "rr_weight t = rr_weight s"
      using t by (auto intro: rr_weight_cong)
    ultimately show ?thesis
      by (simp add: rr_measure_def)
  qed
next
  case REnd
  then have "rr_at s = MLoop" "rr_at t = MDone" "rr_chan t = rr_chan s" "rr_gos t = rr_gos s"
    "rr_weight t = rr_weight s"
    using assms(1) by (auto intro: rr_weight_cong split: if_splits)
  then show ?thesis
    by (simp add: rr_measure_def)
qed

lemma rr_progress:
  assumes "rr_at s = MLoop"
  shows "\<exists>a t. rr_step a s = Some t"
proof (cases "rr_chan s")
  case (Cons c cs)
  then have "rr_step RTake s \<noteq> None"
    using assms by (auto split: prod.splits rs_verdict.splits)
  then show ?thesis
    by (auto simp del: rr_step.simps)
next
  case Nil
  show ?thesis
  proof (cases "\<forall>g \<in> set (rr_gos s). g = GExit")
    case True
    then have "rr_step REnd s \<noteq> None"
      using Nil assms by simp
    then show ?thesis
      by (auto simp del: rr_step.simps)
  next
    case False
    then obtain i where i: "i < length (rr_gos s)" "rr_gos s ! i \<noteq> GExit"
      by (metis in_set_conv_nth)
    then have "rr_step (RGo i) s \<noteq> None"
      using Nil by (cases "rr_gos s ! i") (auto simp: chan_cap_def split: prod.splits)
    then show ?thesis
      by (auto simp del: rr_step.simps)
  qed
qed

abbreviation rr_run :: "rr_act list \<Rightarrow> rr_state \<Rightarrow> rr_state option" where
  "rr_run \<equiv> run rr_step"

lemma rr_reach_step:
  assumes "rr_reach rs dst es s" and "rr_step a s = Some t"
  shows "\<exists>es. rr_reach rs dst es t"
  using assms by (cases a) (blast intro: rr_reach.intros)+

interpretation rr: machine_measure rr_step "\<lambda>s. \<exists>es. rr_reach rs dst es s" "\<lambda>_. True" rr_measure for rs dst
proof
  show "\<exists>es. rr_reach rs dst es t" if "\<exists>es. rr_reach rs dst es s" "rr_step a s = Some t" for s a t
    using that rr_reach_step by blast
  show "rr_measure t < rr_measure s" if "\<exists>es. rr_reach rs dst es s" "rr_step a s = Some t" for s a t
    using that rr_step_measure rr_reach_inv by (auto simp: rr_inv_def simp del: rr_step.simps)
qed

lemma rr_run_reach: "rr_reach rs dst es s \<Longrightarrow> rr_run as s = Some t \<Longrightarrow> \<exists>es. rr_reach rs dst es t"
  by (rule rr.run_inv) auto

lemma rr_ex_stuck: "rr_reach rs dst es s \<Longrightarrow> \<exists>es t. rr_reach rs dst es t \<and> (\<forall>a. rr_step a t = None)"
  using rr.run_to_end [of rs dst s] by blast

lemma rr_measure_init:
  "rr_measure (rr_init rs dst) = 3 * (\<Sum>r\<leftarrow>rs. length (rbuf r)) + 3 * length rs + 1"
proof -
  have "rr_measure (rr_init rs dst) = (\<Sum>i < length rs. 3 * length (rbuf (rs ! i)) + 3) + 1"
    by (simp add: rr_measure_def rr_init_def rr_weight_def)
  then show ?thesis
    by (simp add: sum.distrib sum_distrib_left sum_list_sum_nth atLeast0LessThan)
qed

text \<open>A write that fails on the first chunk ends the loop after at most one chunk was taken.\<close>

lemma rr_first_write_fails:
  assumes "rr_reach [r] dst es s" and "read_stripe 0 r = c # cs" and "\<not> sc_eof c" and "sc_seq c = 0"
    and "wroom dst = Some k" and "k < length (sc_payload c)"
  shows "es = [] \<and> rr_rs s = rs_init dst \<and> rr_at s = MLoop \<or> length es = 1 \<and> rr_at s = MDone"
  using assms(1)
proof (induction rule: rr_reach.induct)
  case init
  then show ?case
    by (simp add: rr_init_def)
next
  case (go es s i t)
  then show ?case
    by (auto split: if_splits rr_go.splits prod.splits)
next
  case (take es s t)
  from take.hyps(2) show ?case
  proof (rule rr_take_SomeE)
    fix d ds v q
    assume d: "rr_at s = MLoop" "rr_chan s = d # ds"
      "rs_take (length (rr_gos s)) d (rr_rs s) = (v, q)"
      and t: "t = s\<lparr>rr_chan := ds, rr_rs := (if v = Break then snd (rs_drain q) else q),
                    rr_at := (if v = Continue then MLoop else MDone)\<rparr>"
    have es: "es = []" "rr_rs s = rs_init dst"
      using take.IH d(1) by auto
    have inv: "rr_inv [r] [] s"
      using rr_reach_inv [OF take.hyps(1)] es(1) by simp
    then have "rr_seen [] s 0 = c # cs" "sc_stripe d = 0"
      using d(2) assms(2) by (simp_all add: rr_inv_def)
    then have "d = c"
      using d(2) by (simp add: rr_seen_def)
    then have "v = Return"
      using d(3) es(2) assms(3-6) by (auto simp: rs_take_def rs_init_def conn_write_def)
    then show ?thesis
      using es t by simp
  qed
next
  case (finish es s t)
  then have s: "rr_at s = MLoop" "rr_chan s = []" "\<forall>g \<in> set (rr_gos s). g = GExit"
    by (auto split: if_splits)
  then have "es = []"
    using finish.IH by auto
  moreover have inv: "rr_inv [r] es s"
    using rr_reach_inv [OF finish.hyps(1)] .
  ultimately have "rr_seen [] s 0 = c # cs" "rr_gos s ! 0 = GExit"
    using s(3) assms(2) by (auto simp: rr_inv_def)
  then show ?case
    using s(2) by (simp add: rr_seen_def rr_rest_def)
qed

section \<open>Properties of the receiver's goroutines\<close>

text \<open>C11 (refinement): however the reader goroutines and the main loop interleave, once the loop
  has ended its state is the one the sequential function computes from some order of arrival of
  the streams' chunks, and what the loop has taken is the beginning of that order.\<close>

theorem receiver_refines:
  assumes "rr_reach rs dst es s" and "rr_at s = MDone"
  shows "\<exists>fs. arrival rs (es @ fs) \<and> rr_rs s = readStripesToTCP (length rs) (es @ fs) dst"
  using rr_loop_inv [OF assms(1)] assms(2) by simp

definition empty_stream :: reader where
  "empty_stream = \<lparr>rbuf = [], rend = EOF\<rparr>"

lemma empty_stream_run:
  "\<exists>es s. rr_reach [empty_stream] sample_writer es s \<and> rr_at s = MDone"
proof -
  let ?s = "rr_init [empty_stream] sample_writer"
  have "\<exists>s. rr_run [RGo 0, RGo 0, RTake] ?s = Some s \<and> rr_at s = MDone"
    by (simp add: rr_init_def rs_init_def chan_cap_def stripe_event_def empty_stream_def readChunk_def
        io_simps rs_take_def)
  then show ?thesis
    using rr_run_reach [OF rr_reach.init] by blast
qed

theorem receiver_refines_witness:
  "\<exists>es fs s. rr_reach [empty_stream] sample_writer es s \<and>
     rr_rs s = readStripesToTCP 1 (es @ fs) sample_writer"
proof -
  obtain es s where s: "rr_reach [empty_stream] sample_writer es s" "rr_at s = MDone"
    using empty_stream_run by blast
  from receiver_refines [OF this] show ?thesis
    using s by auto
qed

text \<open>C12 (termination): once its streams have ended the receiver returns: from the start at most
  \<open>3 * b + 3 * n + 1\<close> steps can be taken (\<open>b\<close> bytes on \<open>n\<close> streams), and as long as the main loop
  has not ended some goroutine can move; in particular the channel's capacity never blocks all
  of them.\<close>

theorem receiver_returns:
  assumes "rr_run as (rr_init rs dst) = Some s"
  shows "length as \<le> 3 * (\<Sum>r\<leftarrow>rs. length (rbuf r)) + 3 * length rs + 1 \<and>
    (rr_at s = MDone \<or> (\<exists>a t. rr_step a s = Some t))"
proof
  show "length as \<le> 3 * (\<Sum>r\<leftarrow>rs. length (rbuf r)) + 3 * length rs + 1"
  proof -
    have "\<exists>es. rr_reach rs dst es (rr_init rs dst)"
      by (rule exI, rule rr_reach.init)
    from rr.run_rank [OF assms this] show ?thesis
      by (simp add: rr_measure_init)
  qed
  show "rr_at s = MDone \<or> (\<exists>a t. rr_step a s = Some t)"
    using rr_progress by (cases "rr_at s") auto
qed

theorem receiver_returns_witness:
  "\<exists>a t. rr_step a (rr_init [empty_stream] sample_writer) = Some t"
  using receiver_returns [of "[]" "[empty_stream]" sample_writer] by (auto simp: rr_init_def)

text \<open>C17 (liveness): when the write to the TCP connection fails on the first chunk, the main loop
  returns and nobody empties the channel any more. With one stream, the reader goroutine of a
  stream that still carries nine or more chunks and end markers never returns: in every run it
  ends up blocked on the full channel.\<close>

theorem receiver_leaves_reader:
  assumes "read_stripe 0 r = c # cs" and "\<not> sc_eof c" and "sc_seq c = 0"
    and "wroom dst = Some k" and "k < length (sc_payload c)" and "9 \<le> length cs"
  shows "(\<forall>es s. rr_reach [r] dst es s \<longrightarrow> rr_gos s \<noteq> [GExit]) \<and>
    (\<exists>es s d. rr_reach [r] dst es s \<and> rr_at s = MDone \<and> rr_gos s = [GPut d] \<and>
       (\<forall>a. rr_step a s = None))"
proof -
  have never: "rr_gos s \<noteq> [GExit]" if "rr_reach [r] dst es s" for es s
  proof
    assume exit: "rr_gos s = [GExit]"
    have inv: "rr_inv [r] es s"
      using rr_reach_inv [OF that] .
    then have "rr_seen es s 0 = c # cs" "length (rr_chan s) \<le> 8"
      using assms(1) exit by (simp_all add: rr_inv_def chan_cap_def)
    moreover have "length (filter (\<lambda>c. sc_stripe c = 0) (es @ rr_chan s)) \<le> length es + length (rr_chan s)"
      by (metis length_append length_filter_le)
    moreover have "length es \<le> 1"
      using rr_first_write_fails [OF that assms(1-5)] by auto
    ultimately show False
      using exit assms(6) by (auto simp: rr_seen_def rr_rest_def dest!: arg_cong [of _ _ length])
  qed
  obtain es s where s: "rr_reach [r] dst es s" "\<forall>a. rr_step a s = None"
    using rr_ex_stuck [OF rr_reach.init] by blast
  have inv: "rr_inv [r] es s"
    using rr_reach_inv [OF s(1)] .
  have fin: "rr_at s = MDone"
    using rr_progress [of s] s(2) by (cases "rr_at s") (simp_all del: rr_step.simps)
  obtain g where g: "rr_gos s = [g]"
    using inv by (cases "rr_gos s") (auto simp: rr_inv_def)
  have "rr_step (RGo 0) s = None"
    using s(2) by simp
  then have "g \<noteq> GRead"
    using g by (auto split: prod.splits)
  then have "\<exists>d. rr_gos s = [GPut d]"
    using never [OF s(1)] g by (cases g) auto
  then show ?thesis
    using never s fin by blast
qed

definition busy_stream :: reader where
  "busy_stream = \<lparr>rbuf = concat (map (\<lambda>j. chunk_bytes (of_nat j, [7])) [0..<9]), rend = EOF\<rparr>"

lemma read_busy_stream:
  "read_stripe 0 busy_stream =
     map (\<lambda>j. data_event 0 (of_nat j, [7])) [0..<9] @
     [\<lparr>sc_seq = 0, sc_payload = [], sc_stripe = 0, sc_eof = True\<rparr>]"
proof -
  have step: "read_stripe 0 \<lparr>rbuf = chunk_bytes (q, [7]) @ xs, rend = EOF\<rparr> =
      data_event 0 (q, [7]) # read_stripe 0 \<lparr>rbuf = xs, rend = EOF\<rparr>" for q xs
    by (subst read_stripe_chunk [where q = q and p = "[7]" and rest = xs]) simp_all
  have end_marker: "read_stripe 0 \<lparr>rbuf = [], rend = EOF\<rparr> =
      [\<lparr>sc_seq = 0, sc_payload = [], sc_stripe = 0, sc_eof = True\<rparr>]"
    by (simp add: read_stripe.simps stripe_event_def readChunk_def io_simps)
  have "read_stripe 0 \<lparr>rbuf = concat (map (\<lambda>j. chunk_bytes (of_nat j, [7])) js), rend = EOF\<rparr> =
      map (\<lambda>j. data_event 0 (of_nat j, [7])) js @
      [\<lparr>sc_seq = 0, sc_payload = [], sc_stripe = 0, sc_eof = True\<rparr>]" for js
    by (induction js) (simp_all add: step end_marker del: chunk_bytes.simps)
  then show ?thesis
    by (simp add: busy_stream_def)
qed

theorem receiver_leaves_reader_witness:
  "\<exists>es s d. rr_reach [busy_stream] \<lparr>wout = [], wroom = Some 0\<rparr> es s \<and> rr_at s = MDone \<and>
     rr_gos s = [GPut d] \<and> (\<forall>a. rr_step a s = None)"
proof -
  have "[0..<9] = 0 # [1..<9]"
    by (simp add: upt_rec)
  then have r: "read_stripe 0 busy_stream =
      data_event 0 (0, [7]) # map (\<lambda>j. data_event 0 (of_nat j, [7])) [1..<9] @
      [\<lparr>sc_seq = 0, sc_payload = [], sc_stripe = 0, sc_eof = True\<rparr>]"
    by (simp add: read_busy_stream)
  from receiver_leaves_reader [OF r, of "\<lparr>wout = [], wroom = Some 0\<rparr>" 0] show ?thesis
    by simp
qed

end
