(* ===== verification/Pump.thy ===== *)
theory Pump
  imports StripeSend StripeChan
begin

text \<open>
  The two halves of the byte pump put together (\<open>pumpStriped\<close>, \<open>pumpStripedReceiver\<close> of
  \<open>internal/forward/forward.go\<close>): what \<open>writeStripes\<close> puts on the streams at one end is what
  \<open>readStripesToTCP\<close> writes to the TCP connection at the other, for every interleaving of the
  goroutines on both sides and every place where a connection may break; then the pair of
  goroutines one end runs and the \<open>closeAll\<close> that couples its two directions.
\<close>

section \<open>From the sender's streams to the receiver's readers\<close>

text \<open>
  The bytes a stream has taken on since \<open>w0\<close>, and a reader at its other end that has been given
  the first \<open>n\<close> of them before the stream ends with \<open>e\<close>.
\<close>

definition new_bytes :: "writer \<Rightarrow> writer \<Rightarrow> byte list" where
  "new_bytes w0 w = drop (length (wout w0)) (wout w)"

definition far_end :: "writer list \<Rightarrow> writer list \<Rightarrow> (nat \<Rightarrow> nat) \<Rightarrow> io_error \<Rightarrow> reader list" where
  "far_end streams streams' given e =
     map (\<lambda>i. \<lparr>rbuf = take (given i) (new_bytes (streams ! i) (streams' ! i)), rend = e\<rparr>)
       [0..<length streams]"

lemma length_far_end [simp]: "length (far_end streams streams' given e) = length streams"
  by (simp add: far_end_def)

lemma far_end_nth [simp]:
  "i < length streams \<Longrightarrow> far_end streams streams' given e ! i =
     \<lparr>rbuf = take (given i) (new_bytes (streams ! i) (streams' ! i)), rend = e\<rparr>"
  by (simp add: far_end_def)

lemma carried_new_bytes: "carried w0 w bs \<Longrightarrow> \<exists>m. new_bytes w0 w = take m bs"
  by (auto simp: new_bytes_def dest!: carried_prefix)

lemma src_chunks_ok:
  "source_ok src \<Longrightarrow> p \<in> set (src_chunks src) \<Longrightarrow> p \<noteq> [] \<and> length p < 2 ^ 32"
  by (auto simp: source_ok_def src_chunks_def chunkSize_def split: if_splits)

lemma take_of_extended: "zs = xs @ ys \<Longrightarrow> take m xs = take (min m (length xs)) zs"
  by (cases "m \<le> length xs") simp_all

lemma le_length_append: "length xs \<le> length (xs @ ys)"
  by simp

text \<open>In every state of the sender a stream holds a prefix of its final content.\<close>

lemma stream_inv_prefix:
  assumes inv: "ws_inv cs streams s owns k" and i: "i < length streams"
  shows "\<exists>m. new_bytes (streams ! i) (ws_streams s ! i) =
    take m (frames_of cs (owns ! i) @ chunk_bytes (of_nat (length cs), []))"
proof -
  let ?final = "frames_of cs (owns ! i) @ chunk_bytes (of_nat (length cs), [])"
  let ?js = "written (ws_writers s ! i) (owns ! i)"
  let ?now = "frames_of cs ?js @ (if marked s i then chunk_bytes (ws_seq s, []) else [])"
  have st: "carried (streams ! i) (ws_streams s ! i) ?now"
    using inv i by (simp add: ws_inv_def stream_inv_def)
  have "\<exists>ys. ?final = ?now @ ys"
  proof (cases "marked s i")
    case True
    then have "ws_at s \<in> range Marking \<union> {WsDone}"
      by (auto simp: marked_def split: ws_pc.splits)
    then have "ws_writers s ! i = WExit" "k = length cs"
      using inv i by (auto simp: ws_inv_def)
    then have "?js = owns ! i" "ws_seq s = of_nat (length cs)"
      using inv by (simp_all add: written_def ws_inv_def)
    then show ?thesis
      using True by simp
  next
    case False
    have "\<exists>xs. owns ! i = ?js @ xs"
    proof (cases "ws_writers s ! i")
      case (WBusy q p)
      then have "owns ! i \<noteq> []"
        using inv i by (simp add: ws_inv_def stream_inv_def)
      then have "owns ! i = butlast (owns ! i) @ [last (owns ! i)]"
        by simp
      then show ?thesis
        using WBusy by (simp only: written_def ws_writer.simps) blast
    qed (simp_all add: written_def)
    then obtain xs where "owns ! i = ?js @ xs"
      by blast
    then have "frames_of cs (owns ! i) = frames_of cs ?js @ frames_of cs xs"
      by (metis concat_append map_append)
    then show ?thesis
      using False by simp
  qed
  then obtain ys where ys: "?final = ?now @ ys"
    by blast
  obtain m where "new_bytes (streams ! i) (ws_streams s ! i) = take m ?now"
    using carried_new_bytes [OF st] by blast
  also have "\<dots> = take (min m (length ?now)) ?final"
    by (rule take_of_extended [OF ys])
  finally show ?thesis
    by blast
qed

lemma far_end_transfer:
  assumes inv: "ws_inv (src_chunks src) streams s owns k"
    and src: "source_ok src" and len: "length (src_chunks src) \<le> 2 ^ 32"
  shows "\<exists>m. transfer (src_chunks src) owns m (far_end streams (ws_streams s) given e)"
proof -
  let ?cs = "src_chunks src"
  have "\<forall>i. \<exists>m. i < length streams \<longrightarrow> new_bytes (streams ! i) (ws_streams s ! i) =
      take m (frames_of ?cs (owns ! i) @ chunk_bytes (of_nat (length ?cs), []))"
    using stream_inv_prefix [OF inv] by blast
  from choice [OF this] obtain m where m: "\<forall>i. i < length streams \<longrightarrow>
      new_bytes (streams ! i) (ws_streams s ! i) =
      take (m i) (frames_of ?cs (owns ! i) @ chunk_bytes (of_nat (length ?cs), []))" ..
  have "rbuf (far_end streams (ws_streams s) given e ! i) =
      take (min (given i) (m i)) (frames_of ?cs (owns ! i) @ chunk_bytes (of_nat (length ?cs), []))"
    if "i < length streams" for i
    using m that by (simp del: take_append chunk_bytes.simps)
  moreover have "length owns = length streams" "distinct (concat owns)"
    "set (concat owns) \<subseteq> {..<length ?cs}"
    using inv by (auto simp: ws_inv_def)
  ultimately have "transfer ?cs owns (\<lambda>i. min (given i) (m i)) (far_end streams (ws_streams s) given e)"
    using src_chunks_ok [OF src] len
    by (simp add: transfer_def del: take_append chunk_bytes.simps set_concat)
  then show ?thesis
    by blast
qed

text \<open>When the sender has returned and nothing was cut, the readers are given everything.\<close>

lemma far_end_complete:
  assumes inv: "ws_inv (src_chunks src) streams s owns k" and fin: "ws_at s = WsDone"
    and unlim: "\<forall>w \<in> set streams. wroom w = None" and st: "ws_steps (ws_init src streams) s"
    and i: "i < length streams"
  shows "new_bytes (streams ! i) (ws_streams s ! i) =
    frames_of (src_chunks src) (owns ! i) @ chunk_bytes (of_nat (length (src_chunks src)), [])"
proof -
  have "carried (streams ! i) (ws_streams s ! i)
      (frames_of (src_chunks src) (owns ! i) @ chunk_bytes (of_nat (length (src_chunks src)), []))"
    using ws_inv_done [OF inv fin] i by (simp add: stripes_hold_def del: chunk_bytes.simps)
  moreover have "wroom (ws_streams s ! i) = None"
    using ws_healthy_steps [OF st ws_healthy_init [OF unlim]] inv i
    by (simp add: ws_healthy_def ws_inv_def)
  ultimately show ?thesis
    by (simp add: carried_unlimited new_bytes_def del: chunk_bytes.simps)
qed

section \<open>What the receiver has written\<close>

lemma carries_take: "carries cs (es @ fs) js \<Longrightarrow> carries cs es (take (length (data_of es)) js)"
proof -
  assume "carries cs (es @ fs) js"
  then have "take (length (data_of es)) (map (\<lambda>c. (sc_seq c, sc_payload c)) (data_of (es @ fs))) =
      take (length (data_of es)) (map (\<lambda>j. (of_nat j, cs ! j)) js)"
    by (simp only: carries_def)
  then show ?thesis
    by (simp add: carries_def take_map)
qed

text \<open>In every reachable state of the receiver the destination holds a prefix of the sender's
  bytes.\<close>

lemma receiver_prefix:
  assumes reach: "rr_reach rs dst es t" and tr: "transfer cs owns m rs"
  shows "rs_prefix cs dst (rr_rs t)"
proof (cases "rr_at t")
  case MDone
  then obtain fs where fs: "arrival rs (es @ fs)"
    "rr_rs t = readStripesToTCP (length rs) (es @ fs) dst"
    using rr_loop_inv [OF reach] by auto
  obtain js where "carries cs (es @ fs) js" "distinct js" "set js \<subseteq> set (concat owns)"
    using transfer_arrival [OF tr fs(1)] by blast
  then show ?thesis
    using readStripesToTCP_inv [of cs "es @ fs" js dst "length rs"] tr fs(2)
    by (auto simp: transfer_def)
next
  case MLoop
  then have conts: "rs_conts (length rs) es (rs_init dst) = Some (rr_rs t)"
    using rr_loop_inv [OF reach] by simp
  then have l: "rs_loop (length rs) es (rs_init dst) = (False, rr_rs t)"
    using rs_conts_loop [OF conts, of "[]"] by simp
  have arr: "arrival rs (es @ rr_future t)"
    using rr_future_arrival [OF rr_reach_inv [OF reach]] .
  obtain js where js: "carries cs (es @ rr_future t) js" "distinct js" "set js \<subseteq> set (concat owns)"
    using transfer_arrival [OF tr arr] by blast
  let ?js = "take (length (data_of es)) js"
  have "set ?js \<subseteq> {..<length cs}" "distinct ?js" "carries cs es ?js" "length cs \<le> 2 ^ 32"
    using js tr set_take_subset [of "length (data_of es)" js] carries_take [OF js(1)]
    by (auto simp: transfer_def)
  from rs_loop_inv [OF rs_inv_init _ this(4,3,2,1) _ l] show ?thesis
    by (auto dest: rs_inv_prefix)
qed

lemma receiver_complete:
  assumes reach: "rr_reach rs dst es t" "rr_at t = MDone" and tr: "transfer cs owns m rs"
    and full: "\<forall>i < length rs. length (frames_of cs (owns ! i)) \<le> m i" "set (concat owns) = {..<length cs}"
    and dst: "wroom dst = None" and n: "rs \<noteq> []"
  shows "wout (rs_dst (rr_rs t)) = wout dst @ concat cs \<and>
    rs_counter (rr_rs t) = of_nat (length (concat cs))"
proof -
  obtain fs where fs: "arrival rs (es @ fs)"
    "rr_rs t = readStripesToTCP (length rs) (es @ fs) dst"
    using rr_loop_inv [OF reach(1)] reach(2) by auto
  obtain js where js: "carries cs (es @ fs) js" "distinct js" "set js = {..<length cs}"
    "length (filter sc_eof (butlast (es @ fs))) < length rs"
    using transfer_arrival [OF tr fs(1)] full n by auto
  have "length cs \<le> 2 ^ 32"
    using tr by (simp add: transfer_def)
  then obtain k where "rs_inv cs dst {..<length cs} k (rr_rs t)" "k \<notin> {..<length cs}"
    using readStripesToTCP_inv [OF js(1,2), of dst "length rs"] js(3,4) dst fs(2) by auto
  from rs_inv_complete [OF this refl] show ?thesis .
qed

section \<open>Delivery\<close>

text \<open>C2 (functional): striping is invisible. For any number of streams, any interleaving of the
  sender's goroutines, any interleaving of the receiver's goroutines and any distribution of the
  chunks over the streams, what the receiver has written to its TCP connection when it returns is
  exactly what the sender read from its own, and both byte counters agree. (Sequence numbers
  have 32 bits: up to \<open>2 ^ 32\<close> chunks.)\<close>

theorem striped_delivery:
  assumes "ws_steps (ws_init src streams) s" and "ws_at s = WsDone"
    and "source_ok src" and "length (src_chunks src) \<le> 2 ^ 32"
    and "streams \<noteq> []" and "\<forall>w \<in> set streams. wroom w = None"
    and "rr_reach (map2 (\<lambda>w0 w. \<lparr>rbuf = new_bytes w0 w, rend = e\<rparr>) streams (ws_streams s)) dst es t"
    and "rr_at t = MDone" and "wroom dst = None"
  shows "wout (rs_dst (rr_rs t)) = wout dst @ src_bytes src \<and>
    rs_counter (rr_rs t) = ws_counter s"
proof -
  obtain owns k where inv: "ws_inv (src_chunks src) streams s owns k"
    using ws_inv_reachable [OF assms(1)] by blast
  let ?cs = "src_chunks src"
  let ?rs = "map2 (\<lambda>w0 w. \<lparr>rbuf = new_bytes w0 w, rend = e\<rparr>) streams (ws_streams s)"
  let ?m = "\<lambda>i. length (frames_of ?cs (owns ! i) @ chunk_bytes (of_nat (length ?cs), []))"
  note held = ws_inv_done [OF inv assms(2)]
  have len: "length (ws_streams s) = length streams"
    using inv by (simp add: ws_inv_def)
  have "rbuf (?rs ! i) = frames_of ?cs (owns ! i) @ chunk_bytes (of_nat (length ?cs), [])"
    if "i < length streams" for i
    using far_end_complete [OF inv assms(2,6,1) that] that len by (simp del: chunk_bytes.simps)
  then have tr: "transfer ?cs owns ?m ?rs"
    using held assms(4) src_chunks_ok [OF assms(3)] len
    by (auto simp: transfer_def stripes_hold_def simp del: chunk_bytes.simps)
  have "?rs \<noteq> []"
    using assms(5) len by (cases streams; cases "ws_streams s") auto
  from receiver_complete [OF assms(7,8) tr _ _ assms(9) this] show ?thesis
    using held by (simp add: stripes_hold_def)
qed

lemma rr_ex_done:
  obtains es t where "rr_reach rs dst es t" "rr_at t = MDone"
proof -
  obtain es t where t: "rr_reach rs dst es t" "\<forall>a. rr_step a t = None"
    using rr_ex_stuck [OF rr_reach.init] by blast
  then have "rr_at t = MDone"
    using rr_progress [of t] by (cases "rr_at t") (simp_all del: rr_step.simps)
  then show thesis
    using that t(1) by blast
qed

lemma two_reads_ok:
  "source_ok two_reads" "length (src_chunks two_reads) \<le> 2 ^ 32" "src_bytes two_reads = [1, 2, 3, 4]"
  "\<forall>w \<in> set two_streams. wroom w = None"
  by (simp_all add: source_ok_def two_reads_def chunkSize_def src_chunks_def src_bytes_def
      two_streams_def)

theorem striped_delivery_witness:
  "\<exists>s es t. ws_steps (ws_init two_reads two_streams) s \<and>
     rr_reach (map2 (\<lambda>w0 w. \<lparr>rbuf = new_bytes w0 w, rend = EOF\<rparr>) two_streams (ws_streams s))
       sample_writer es t \<and> wout (rs_dst (rr_rs t)) = [1, 2, 3, 4]"
proof -
  obtain s where s: "ws_run two_run (ws_init two_reads two_streams) = Some s" "ws_at s = WsDone"
    using two_run_done by blast
  note st = ws_run_steps [OF s(1)]
  let ?rs = "map2 (\<lambda>w0 w. \<lparr>rbuf = new_bytes w0 w, rend = EOF\<rparr>) two_streams (ws_streams s)"
  have "length (ws_streams s) = 2"
    using ws_inv_reachable [OF st] by (auto simp: ws_inv_def two_streams_def)
  then have "?rs \<noteq> []" "two_streams \<noteq> []"
    by (cases "ws_streams s") (auto simp: two_streams_def)
  then obtain es t where t: "rr_reach ?rs sample_writer es t" "rr_at t = MDone"
    using rr_ex_done by blast
  have "wroom sample_writer = None" "wout sample_writer = []"
    by (simp_all add: sample_writer_def)
  then show ?thesis
    using striped_delivery [OF st s(2) two_reads_ok(1,2) \<open>two_streams \<noteq> []\<close> two_reads_ok(4) t]
      st t two_reads_ok(3) by auto
qed

text \<open>C3 (safety): the TCP connection never carries anything but a beginning of what the other
  side's connection delivered. This holds in every state of the sender and of the receiver, for
  streams that break at any byte on either side, for a destination that fails at any byte, and for
  any interleaving: nothing is reordered, duplicated or invented.\<close>

theorem striped_prefix:
  assumes "ws_steps (ws_init src streams) s"
    and "source_ok src" and "length (src_chunks src) \<le> 2 ^ 32"
    and "rr_reach (far_end streams (ws_streams s) given e) dst es t"
  shows "\<exists>m. wout (rs_dst (rr_rs t)) = wout dst @ take m (src_bytes src)"
proof -
  obtain owns k where inv: "ws_inv (src_chunks src) streams s owns k"
    using ws_inv_reachable [OF assms(1)] by blast
  obtain m where "transfer (src_chunks src) owns m (far_end streams (ws_streams s) given e)"
    using far_end_transfer [OF inv assms(2,3)] by blast
  from receiver_prefix [OF assms(4) this] show ?thesis
    by (simp add: rs_prefix_def)
qed

theorem striped_prefix_witness:
  "\<exists>s m. ws_steps (ws_init two_reads two_streams) s \<and>
     wout (rs_dst (rr_rs (rr_init (far_end two_streams (ws_streams s) (\<lambda>i. 9) EOF) sample_writer))) =
       wout sample_writer @ take m (src_bytes two_reads)"
proof -
  let ?s = "ws_init two_reads two_streams"
  have ok: "source_ok two_reads" "length (src_chunks two_reads) \<le> 2 ^ 32"
    by (simp_all add: source_ok_def two_reads_def chunkSize_def src_chunks_def)
  from striped_prefix [OF ws_steps.start ok rr_reach.init] show ?thesis
    using ws_steps.start by blast
qed

text \<open>With the one stream the code opens per connection, delivery is exact for
  any number of chunks: the 32-bit sequence number wraps around on both sides alike, and nothing
  is ever held back in the reorder buffer.\<close>

lemma single_stream_delivery:
  assumes "ws_steps (ws_init src [w]) s" and "ws_at s = WsDone"
    and "source_ok src" and "wroom w = None"
    and "rr_reach [\<lparr>rbuf = new_bytes w (ws_streams s ! 0), rend = e\<rparr>] dst es t"
    and "rr_at t = MDone" and "wroom dst = None"
  shows "wout (rs_dst (rr_rs t)) = wout dst @ src_bytes src \<and>
    rs_pending (rr_rs t) = Map.empty \<and> rs_counter (rr_rs t) = ws_counter s"
proof -
  let ?cs = "src_chunks src"
  let ?r = "\<lparr>rbuf = new_bytes w (ws_streams s ! 0), rend = e\<rparr>"
  obtain owns k where inv: "ws_inv ?cs [w] s owns k"
    using ws_inv_reachable [OF assms(1)] by blast
  have held: "stripes_hold ?cs [w] (ws_streams s) owns"
    "ws_counter s = of_nat (length (src_bytes src))"
    using ws_inv_done [OF inv assms(2)] by simp_all
  then obtain js where js: "owns = [js]" "sorted_wrt (<) js" "set js = {..<length ?cs}"
    by (cases owns) (auto simp: stripes_hold_def)
  have "js = [0..<length ?cs]"
    by (rule strict_sorted_equal) (use js in \<open>simp_all add: atLeast0LessThan\<close>)
  then have owns: "owns ! 0 = [0..<length ?cs]"
    using js by simp
  let ?fs = "map (frame_of ?cs) [0..<length ?cs]"
  let ?all = "concat (map chunk_bytes ?fs) @ chunk_bytes (of_nat (length ?cs), [])"
  have buf: "rbuf ?r = take (length ?all) ?all"
    using far_end_complete [OF inv assms(2) _ assms(1), of 0] assms(4) owns
    by (simp add: comp_def del: chunk_bytes.simps)
  have ok: "\<forall>f \<in> set ?fs. snd f \<noteq> [] \<and> length (snd f) < 2 ^ 32"
    using src_chunks_ok [OF assms(3)] by (auto simp del: One_nat_def)
  from read_stripe_prefix [OF ok buf, of 0] obtain l d where
    l: "read_stripe 0 ?r = map (data_event 0) (take l ?fs) @ [d]" "sc_eof d" "l = length ?fs"
    using le_length_append by blast
  then have d: "read_stripe 0 ?r = map (\<lambda>j. data_event 0 (frame_of ?cs j)) [0..<length ?cs] @ [d]"
    "sc_eof d"
    by (simp_all add: comp_def)
  obtain fs where fs: "arrival [?r] (es @ fs)" "rr_rs t = readStripesToTCP 1 (es @ fs) dst"
    using rr_loop_inv [OF assms(5)] assms(6) by auto
  have "es @ fs = read_stripe 0 ?r"
    using arrivalD [OF fs(1)] by (simp add: filter_id_conv)
  then obtain u where "rs_loop 1 (es @ fs) (rs_init dst) = (False, u)" "rs_pending u = Map.empty"
    "wout (rs_dst u) = wout dst @ concat ?cs" "rs_counter u = of_nat (length (concat ?cs))"
    using rs_loop_in_order [of "rs_init dst" 0 ?cs d 1 0] d assms(7) by (auto simp: rs_init_def)
  then show ?thesis
    using fs(2) held(2) by (simp add: readStripesToTCP_def rs_drain.simps [of u])
qed

end
