(* ===== verification/PumpPair.thy ===== *)
theory PumpPair
  imports StripeSend StripeChan
begin

text \<open>
  One end of a tunnelled connection: \<open>pumpStriped\<close> and \<open>pumpStripedReceiver\<close> of
  \<open>internal/forward/forward.go\<close> start \<open>writeStripes\<close> and \<open>readStripesToTCP\<close> on the same TCP
  connection and the same streams; whichever ends first closes everything (\<open>closeAll\<close>). The two
  functions differ only in the order in which they start the two goroutines. The lemmas show when
  the pair returns and what the coupling does to a connection whose client half-closes.
\<close>

section \<open>The pair of goroutines and \<open>closeAll\<close>\<close>

record pump_state =
  pm_up :: ws_state
  pm_down :: rr_state
  pm_up_done :: bool
  pm_down_done :: bool

definition pump_init :: "source \<Rightarrow> writer list \<Rightarrow> reader list \<Rightarrow> writer \<Rightarrow> pump_state" where
  "pump_init src streams rs dst =
     \<lparr>pm_up = ws_init src streams, pm_down = rr_init rs dst, pm_up_done = False,
      pm_down_done = False\<rparr>"

text \<open>
  \<open>c.Close()\<close> ends both directions of the TCP connection; \<open>Close\<close> of a stream ends its write
  direction. What it does to the stream's read direction depends on the session's streams and
  is the parameter \<open>cl\<close>.
\<close>

definition shut :: "writer \<Rightarrow> writer" where
  "shut w = w\<lparr>wroom := Some 0\<rparr>"

definition closeAll :: "(reader \<Rightarrow> reader) \<Rightarrow> pump_state \<Rightarrow> pump_state" where
  "closeAll cl s =
     s\<lparr>pm_up := (pm_up s)\<lparr>ws_src := \<lparr>src_reads = [], src_last = [], src_err = Failed 1\<rparr>,
                          ws_streams := map shut (ws_streams (pm_up s))\<rparr>,
       pm_down := (pm_down s)\<lparr>rr_conns := map cl (rr_conns (pm_down s)),
                              rr_rs := (rr_rs (pm_down s))\<lparr>rs_dst := shut (rs_dst (rr_rs (pm_down s)))\<rparr>\<rparr>\<rparr>"

datatype pump_act = PUp ws_act | PDown rr_act | PUpEnd | PDownEnd

fun pump_step :: "(reader \<Rightarrow> reader) \<Rightarrow> pump_act \<Rightarrow> pump_state \<Rightarrow> pump_state option" where
  "pump_step cl (PUp a) s = map_option (\<lambda>u. s\<lparr>pm_up := u\<rparr>) (ws_step a (pm_up s))"
| "pump_step cl (PDown a) s = map_option (\<lambda>d. s\<lparr>pm_down := d\<rparr>) (rr_step a (pm_down s))"
| "pump_step cl PUpEnd s =
     (if ws_at (pm_up s) = WsDone \<and> \<not> pm_up_done s
      then Some ((closeAll cl s)\<lparr>pm_up_done := True\<rparr>) else None)"
| "pump_step cl PDownEnd s =
     (if rr_at (pm_down s) = MDone \<and> \<not> pm_down_done s
      then Some ((closeAll cl s)\<lparr>pm_down_done := True\<rparr>) else None)"

abbreviation pump_run :: "(reader \<Rightarrow> reader) \<Rightarrow> pump_act list \<Rightarrow> pump_state \<Rightarrow> pump_state option" where
  "pump_run cl \<equiv> run (pump_step cl)"

text \<open>The pump has returned: both goroutines have signalled \<open>done\<close>.\<close>

abbreviation pump_returned :: "pump_state \<Rightarrow> bool" where
  "pump_returned s \<equiv> pm_up_done s \<and> pm_down_done s"

text \<open>The sender is blocked on \<open>dispatch\<close> with no writer goroutine left.\<close>

definition ws_wedged :: "ws_state \<Rightarrow> bool" where
  "ws_wedged s \<longleftrightarrow>
     (\<exists>p fin. ws_at s = Sending p fin) \<and> (\<forall>w \<in> set (ws_writers s). w = WExit)"

section \<open>Termination and progress of the pair\<close>

lemma ws_step_possible:
  assumes "ws_at s \<noteq> WsDone" and "\<not> ws_wedged s"
  shows "\<exists>a t. ws_step a s = Some t"
proof (cases "\<exists>i < length (ws_writers s). \<exists>q p. ws_writers s ! i = WBusy q p")
  case True
  then obtain i q p where "i < length (ws_writers s)" "ws_writers s ! i = WBusy q p"
    by blast
  then have "ws_step (AWrite i) s \<noteq> None"
    by (simp split: prod.split)
  then show ?thesis
    by blast
next
  case False
  then have idle: "ws_writers s ! i = WIdle"
    if "i < length (ws_writers s)" "ws_writers s ! i \<noteq> WExit" for i
    using that by (cases "ws_writers s ! i") auto
  have "\<exists>a. ws_step a s \<noteq> None"
  proof (cases "\<forall>w \<in> set (ws_writers s). w = WExit")
    case True
    then have "ws_step (case ws_at s of Reading \<Rightarrow> ARead | Draining \<Rightarrow> AWait | _ \<Rightarrow> AMark) s \<noteq> None"
      using assms by (cases "ws_at s") (auto simp: ws_wedged_def split: prod.splits)
    then show ?thesis
      by blast
  next
    case False
    then obtain i where "i < length (ws_writers s)" "ws_writers s ! i = WIdle"
      using idle by (metis in_set_conv_nth)
    then have "ws_step (case ws_at s of Reading \<Rightarrow> ARead | Sending _ _ \<Rightarrow> ADispatch i
        | Draining \<Rightarrow> AQuit i | _ \<Rightarrow> AMark) s \<noteq> None"
      using assms(1) by (cases "ws_at s") (auto split: prod.splits)
    then show ?thesis
      by blast
  qed
  then show ?thesis
    by blast
qed

definition pump_measure :: "pump_state \<Rightarrow> nat" where
  "pump_measure s =
     ws_measure (pm_up s) + rr_measure (pm_down s) +
     (if pm_up_done s then 0 else 1) + (if pm_down_done s then 0 else 1)"

lemma ws_measure_close:
  "ws_measure (s\<lparr>ws_src := \<lparr>src_reads = [], src_last = x, src_err = e\<rparr>,
                ws_streams := map shut (ws_streams s)\<rparr>) \<le> ws_measure s"
  by (cases "ws_at s") (auto simp: ws_measure_def ws_reader_weight_def)

definition pump_wf :: "pump_state \<Rightarrow> bool" where
  "pump_wf s \<longleftrightarrow> length (rr_conns (pm_down s)) = length (rr_gos (pm_down s)) \<and> rr_gos (pm_down s) \<noteq> []"

lemma rr_step_lengths:
  "rr_step a s = Some t \<Longrightarrow>
     length (rr_gos t) = length (rr_gos s) \<and> length (rr_conns t) = length (rr_conns s)"
  by (cases a) (auto split: if_splits rr_go.splits prod.splits rr_main.splits list.splits rs_verdict.splits)

lemma rr_measure_close:
  assumes "\<forall>r. length (rbuf (cl r)) \<le> length (rbuf r)" and "length (rr_conns s) = length (rr_gos s)"
  shows "rr_measure (s\<lparr>rr_conns := map cl (rr_conns s), rr_rs := q\<rparr>) \<le> rr_measure s"
proof -
  have "rr_weight (s\<lparr>rr_conns := map cl (rr_conns s), rr_rs := q\<rparr>) i \<le> rr_weight s i"
    if "i < length (rr_gos s)" for i
    using assms that by (cases "rr_gos s ! i") (simp_all add: rr_weight_def)
  then show ?thesis
    using sum_mono [of "{..<length (rr_gos s)}" "rr_weight (s\<lparr>rr_conns := map cl (rr_conns s), rr_rs := q\<rparr>)"
        "rr_weight s"]
    by (simp add: rr_measure_def)
qed

lemma closeAll_measure:
  assumes "pump_wf s" and "\<forall>r. length (rbuf (cl r)) \<le> length (rbuf r)"
  shows "ws_measure (pm_up (closeAll cl s)) + rr_measure (pm_down (closeAll cl s)) \<le>
    ws_measure (pm_up s) + rr_measure (pm_down s)"
  using assms ws_measure_close rr_measure_close
  by (intro add_mono) (simp_all add: closeAll_def pump_wf_def)

lemma pump_step_measure:
  assumes "pump_step cl a s = Some t" and "pump_wf s"
    and "\<forall>r. length (rbuf (cl r)) \<le> length (rbuf r)"
  shows "pump_measure t < pump_measure s \<and> pump_wf t"
proof (cases a)
  case (PUp x)
  then show ?thesis
    using assms(1,2) by (auto simp: pump_measure_def pump_wf_def dest!: ws_step_measure)
next
  case (PDown x)
  then obtain d where d: "rr_step x (pm_down s) = Some d" "t = s\<lparr>pm_down := d\<rparr>"
    using assms(1) by auto
  then show ?thesis
    using assms(2) rr_step_measure [OF d(1)] rr_step_lengths [OF d(1)]
    by (auto simp: pump_measure_def pump_wf_def)
qed (use assms closeAll_measure [OF assms(2,3)] in
    \<open>auto simp: pump_measure_def pump_wf_def closeAll_def split: if_splits\<close>)

interpretation pump: machine_measure "pump_step cl"
    "\<lambda>s. pump_wf s \<and> (\<forall>r. length (rbuf (cl r)) \<le> length (rbuf r))" "\<lambda>_. True" pump_measure for cl
  by unfold_locales (auto dest: pump_step_measure simp del: pump_step.simps)

section \<open>What closing does to the destination\<close>

lemma conn_write_shut: "wroom w = Some 0 \<Longrightarrow> snd (conn_write b w) = w"
  by (simp add: conn_write_def)

lemma rs_drain_shut:
  "wroom (rs_dst s) = Some 0 \<Longrightarrow> rs_dst (snd (rs_drain s)) = rs_dst s"
proof (induction s rule: rs_drain.induct)
  case (1 s)
  show ?case
  proof (cases "rs_pending s (rs_next s)")
    case (Some p)
    let ?s1 = "s\<lparr>rs_pending := (rs_pending s)(rs_next s := None)\<rparr>"
    obtain e where e: "conn_write p (rs_dst s) = (e, rs_dst s)"
      using conn_write_shut [OF "1.prems", of p] by (metis prod.collapse)
    show ?thesis
      using "1.IH" [OF Some refl e [symmetric], of] "1.prems" Some e
      by (cases e) (simp_all add: rs_drain.simps [of s] rs_wrote_def)
  qed (simp add: rs_drain.simps [of s])
qed

lemma rs_take_shut:
  assumes "wroom (rs_dst s) = Some 0"
  shows "rs_dst (snd (rs_take n c s)) = rs_dst s"
proof -
  obtain e where e: "conn_write (sc_payload c) (rs_dst s) = (e, rs_dst s)"
    using conn_write_shut [OF assms, of "sc_payload c"] by (metis prod.collapse)
  have "rs_dst (snd (rs_drain (rs_wrote (sc_payload c) (rs_dst s) s))) = rs_dst s"
    using assms by (subst rs_drain_shut) (simp_all add: rs_wrote_def)
  then show ?thesis
    using e by (auto simp: rs_take_def split: option.split prod.splits bool.splits)
qed

lemma rr_step_shut:
  assumes "rr_step a s = Some t" and "wroom (rs_dst (rr_rs s)) = Some 0"
  shows "rs_dst (rr_rs t) = rs_dst (rr_rs s)"
proof (cases a)
  case (RGo i)
  then show ?thesis
    using assms(1) by (auto split: if_splits rr_go.splits prod.splits)
next
  case RTake
  then have "rr_step RTake s = Some t"
    using assms(1) by simp
  then obtain c cs v r where v: "rs_take (length (rr_gos s)) c (rr_rs s) = (v, r)"
    "t = s\<lparr>rr_chan := cs, rr_rs := (if v = Break then snd (rs_drain r) else r),
           rr_at := (if v = Continue then MLoop else MDone)\<rparr>"
    by (rule rr_take_SomeE)
  have "rs_dst r = rs_dst (rr_rs s)"
    using rs_take_shut [OF assms(2), of "length (rr_gos s)" c] v(1) by simp
  then show ?thesis
    using v(2) assms(2) rs_drain_shut [of r] by simp
next
  case REnd
  then show ?thesis
    using assms rs_drain_shut [of "rr_rs s"] by (auto split: if_splits)
qed

abbreviation delivered :: "pump_state \<Rightarrow> byte list" where
  "delivered s \<equiv> wout (rs_dst (rr_rs (pm_down s)))"

definition pump_shut :: "pump_state \<Rightarrow> bool" where
  "pump_shut s \<longleftrightarrow> wroom (rs_dst (rr_rs (pm_down s))) = Some 0"

lemma pump_step_shut:
  assumes "pump_step cl a s = Some t" and "pump_shut s"
  shows "pump_shut t \<and> delivered t = delivered s"
  using assms rr_step_shut
  by (cases a) (fastforce simp: pump_shut_def closeAll_def shut_def split: if_splits)+

interpretation pump_end: machine_invariant "pump_step cl" "\<lambda>s. pump_shut s \<and> delivered s = d" "\<lambda>_. True" for cl d
  by unfold_locales (auto dest: pump_step_shut simp del: pump_step.simps)

section \<open>Properties of the pair\<close>

text \<open>C15 (termination): one end of a connection returns unless its sender is wedged. Whatever
  breaks and in whatever order the goroutines run, a run has at most
  \<open>3 * r + 5 * n + 3 * b + 8\<close> steps (\<open>r\<close> reads of the TCP connection, \<open>n\<close> streams, \<open>b\<close> bytes on
  them), and in a state in which nothing can move both directions are finished, or
  \<open>writeStripes\<close> is blocked on \<open>dispatch\<close> after every one of its writers gave up, which neither
  \<open>closeAll\<close> nor the end of the other direction undoes.\<close>

theorem pump_returns:
  assumes "pump_run cl as (pump_init src streams rs dst) = Some s" and "rs \<noteq> []"
    and "\<forall>r. length (rbuf (cl r)) \<le> length (rbuf r)"
  shows "length as \<le> 3 * length (src_reads src) + 2 * length streams + 5 +
      (3 * (\<Sum>r\<leftarrow>rs. length (rbuf r)) + 3 * length rs + 1) + 2 \<and>
    (pump_returned s \<or> (\<exists>a t. pump_step cl a s = Some t) \<or>
     pm_down_done s \<and> ws_wedged (pm_up s))"
proof
  have "pump_wf (pump_init src streams rs dst)"
    using assms(2) by (simp add: pump_wf_def pump_init_def rr_init_def)
  with assms(3) have "pump_wf (pump_init src streams rs dst) \<and> (\<forall>r. length (rbuf (cl r)) \<le> length (rbuf r))"
    by blast
  from pump.run_rank [OF assms(1) this]
  show "length as \<le> 3 * length (src_reads src) + 2 * length streams + 5 +
      (3 * (\<Sum>r\<leftarrow>rs. length (rbuf r)) + 3 * length rs + 1) + 2"
    by (simp add: pump_measure_def pump_init_def ws_measure_init rr_measure_init)
  have down: "pump_step cl PDownEnd s \<noteq> None \<or> (\<exists>x. pump_step cl (PDown x) s \<noteq> None)"
    if "\<not> pm_down_done s"
    using that rr_progress [of "pm_down s"] by (cases "rr_at (pm_down s)") auto
  have up: "pump_step cl PUpEnd s \<noteq> None \<or> (\<exists>x. pump_step cl (PUp x) s \<noteq> None)"
    if "\<not> pm_up_done s" "\<not> ws_wedged (pm_up s)"
    using that ws_step_possible [of "pm_up s"] by (cases "ws_at (pm_up s) = WsDone") auto
  show "pump_returned s \<or> (\<exists>a t. pump_step cl a s = Some t) \<or>
      pm_down_done s \<and> ws_wedged (pm_up s)"
    using down up by blast
qed

theorem pump_returns_witness:
  "\<exists>a t. pump_step id a (pump_init two_reads two_streams [empty_stream, empty_stream] sample_writer) =
     Some t"
  using pump_returns [of id "[]" two_reads two_streams "[empty_stream, empty_stream]" sample_writer]
  by (auto simp: pump_init_def)

text \<open>C18 (liveness): a client that half-closes loses the answer. Once \<open>writeStripes\<close> has seen the
  end of the client's input and its goroutine has finished, \<open>closeAll\<close> has closed the TCP
  connection in both directions: whatever arrives from the other side afterwards, in any run, not
  one more byte reaches the client.\<close>

theorem half_close_truncates:
  assumes "ws_at (pm_up s) = WsDone" and "pump_step cl PUpEnd s = Some t"
    and "pump_run cl as t = Some u"
  shows "delivered u = delivered s"
proof -
  have "pump_shut t" "delivered t = delivered s"
    using assms(2) by (auto simp: pump_shut_def closeAll_def shut_def split: if_splits)
  then show ?thesis
    using pump_end.run_inv [OF assms(3), of "delivered t"] by simp
qed

text \<open>A client that sends nothing and half-closes, and an answer that is waiting on the stream.\<close>

definition half_closed :: source where
  "half_closed = \<lparr>src_reads = [], src_last = [], src_err = EOF\<rparr>"

definition answer_run :: "pump_act list" where
  "answer_run = [PUpEnd, PDown (RGo 0), PDown (RGo 0), PDown RTake]"

theorem half_close_truncates_witness:
  "\<exists>u. pump_run id (map PUp [ARead, AQuit 0, AWait, AMark, AMark] @ answer_run)
       (pump_init half_closed [sample_writer] [\<lparr>rbuf = chunk_bytes (0, [7]), rend = EOF\<rparr>] sample_writer) =
       Some u \<and> delivered u = []"
proof -
  let ?r = "\<lparr>rbuf = chunk_bytes (0, [7]), rend = EOF\<rparr>"
  let ?i = "pump_init half_closed [sample_writer] [?r] sample_writer"
  have "readChunk ?r = ((0, [7], None), \<lparr>rbuf = [], rend = EOF\<rparr>)"
    using readChunk_chunk_bytes [of "[7]" ?r 0 "[]"] by simp
  then have "\<exists>s t u. pump_run id (map PUp [ARead, AQuit 0, AWait, AMark, AMark]) ?i = Some s \<and>
      ws_at (pm_up s) = WsDone \<and> pump_step id PUpEnd s = Some t \<and> delivered s = [] \<and>
      pump_run id (tl answer_run) t = Some u"
    by (simp add: pump_init_def ws_init_def half_closed_def src_read_def sample_writer_def io_simps
        rr_init_def rs_init_def closeAll_def shut_def answer_run_def stripe_event_def chan_cap_def
        rs_take_def conn_write_def del: chunk_bytes.simps)
  then obtain s t u where s: "pump_run id (map PUp [ARead, AQuit 0, AWait, AMark, AMark]) ?i = Some s"
    "ws_at (pm_up s) = WsDone" "pump_step id PUpEnd s = Some t" "delivered s = []"
    "pump_run id (tl answer_run) t = Some u"
    by blast
  have "pump_run id (map PUp [ARead, AQuit 0, AWait, AMark, AMark] @ answer_run) ?i = Some u"
    unfolding run_append s(1) using s(3,5)
    by (simp add: answer_run_def del: pump_step.simps)
  then show ?thesis
    using half_close_truncates [OF s(2,3,5)] s(4) by auto
qed

end
