(* ===== verification/Router.thy ===== *)
theory Router
  imports Wire Machine
begin

text \<open>
  The accept side of the forwarder (\<open>AcceptRouter\<close> of \<open>internal/forward/forward.go\<close>): \<open>Run\<close>
  starts a handler goroutine per inbound stream; a handler reads the header, joins the group of
  its session under the mutex, and then either waits for the group to be complete or, as the one
  that completed it, dials the local port and pumps. The mutex makes the joining one step
  (\<open>join_group\<close>); the handlers around it are a step relation.
\<close>

section \<open>Stripe groups\<close>

text \<open>
  Streams are numbered in the order of their acceptance. A group is known by the stream that
  created it (Go identifies it by its address); its \<open>ready\<close> channel is closed when that number
  is in the router's set \<open>rt_ready\<close>.
\<close>

record stripeGroup =
  g_id :: nat
  g_tag :: string
  g_numStripes :: u8
  g_streams :: "nat option list"

definition new_group :: "nat \<Rightarrow> streamHeader \<Rightarrow> stripeGroup" where
  "new_group s h =
     \<lparr>g_id = s, g_tag = tag h, g_numStripes = numStripes h,
      g_streams = replicate (unat (numStripes h)) None\<rparr>"

definition allReady :: "nat option list \<Rightarrow> bool" where
  "allReady streams \<longleftrightarrow> list_all (\<lambda>s. s \<noteq> None) streams"

type_synonym groups = "u64 \<rightharpoonup> stripeGroup"

datatype joined = OutOfRange | Waits stripeGroup | Completes stripeGroup

definition join_group :: "nat \<Rightarrow> streamHeader \<Rightarrow> groups \<Rightarrow> joined \<times> groups" where
  "join_group s h gs =
     (let g = (case gs (sessionID h) of Some g \<Rightarrow> g | None \<Rightarrow> new_group s h);
          gs1 = gs(sessionID h \<mapsto> g) in
      if unat (stripeIdx h) \<ge> length (g_streams g) then (OutOfRange, gs1)
      else
        let g1 = g\<lparr>g_streams := (g_streams g)[unat (stripeIdx h) := Some s]\<rparr> in
        if allReady (g_streams g1) then (Completes g1, gs1(sessionID h := None))
        else (Waits g1, gs1(sessionID h \<mapsto> g1)))"

text \<open>The joins of several streams, in the order in which their handlers get the mutex.\<close>

fun join_all :: "(nat \<times> streamHeader) list \<Rightarrow> groups \<Rightarrow> (u64 \<times> joined) list \<times> groups" where
  "join_all [] gs = ([], gs)"
| "join_all ((s, h) # xs) gs =
     (case join_group s h gs of (j, gs1) \<Rightarrow>
        case join_all xs gs1 of (js, gs2) \<Rightarrow> ((sessionID h, j) # js, gs2))"

section \<open>Handlers\<close>

text \<open>
  A handler is reading its stream's header, waiting on \<open>ready\<close>, about to dial for a complete
  group, pumping, or has returned.
\<close>

datatype handler =
    HHeader reader
  | HWait nat
  | HDial int stripeGroup
  | HPump stripeGroup
  | HEnd

record router =
  rt_groups :: groups
  rt_handlers :: "handler list"
  rt_ready :: "nat set"
  rt_dialed :: "(int \<times> nat list) list"
  rt_shut :: "nat set"
  rt_running :: bool
  rt_closed :: bool

definition NewAcceptRouter :: router where
  "NewAcceptRouter =
     \<lparr>rt_groups = Map.empty, rt_handlers = [], rt_ready = {}, rt_dialed = [], rt_shut = {},
      rt_running = True, rt_closed = False\<rparr>"

definition group_streams :: "stripeGroup \<Rightarrow> nat list" where
  "group_streams g = map the (g_streams g)"

text \<open>The part of \<open>handle\<close> up to the wait or the dial; \<open>dials\<close> maps stream names to ports.\<close>

definition rt_handle :: "(string \<rightharpoonup> int) \<Rightarrow> nat \<Rightarrow> reader \<Rightarrow> router \<Rightarrow> router" where
  "rt_handle dials i r s =
     (let reject = s\<lparr>rt_handlers := (rt_handlers s)[i := HEnd], rt_shut := insert i (rt_shut s)\<rparr> in
      case fst (readStreamHeader r) of
        Inl e \<Rightarrow> reject
      | Inr h \<Rightarrow>
          (case dials (tag h) of
             None \<Rightarrow> reject
           | Some port \<Rightarrow>
               (case join_group i h (rt_groups s) of
                  (OutOfRange, gs) \<Rightarrow> reject\<lparr>rt_groups := gs\<rparr>
                | (Waits g, gs) \<Rightarrow>
                    s\<lparr>rt_groups := gs, rt_handlers := (rt_handlers s)[i := HWait (g_id g)]\<rparr>
                | (Completes g, gs) \<Rightarrow>
                    s\<lparr>rt_groups := gs, rt_ready := insert (g_id g) (rt_ready s),
                      rt_handlers := (rt_handlers s)[i := HDial port g]\<rparr>)))"

text \<open>
  Actions: \<open>Run\<close> accepts a stream (given with what its reader will deliver) or stops on an
  error; handler \<open>i\<close> makes a step; a dial succeeds or not; \<open>Close\<close> is called.
\<close>

datatype rt_act = RAccept reader | RStop | RHeader nat | RWake nat | RDial nat bool | RPumped nat | RClose

fun rt_step :: "(string \<rightharpoonup> int) \<Rightarrow> rt_act \<Rightarrow> router \<Rightarrow> router option" where
  "rt_step dials (RAccept r) s =
     (if rt_running s then Some (s\<lparr>rt_handlers := rt_handlers s @ [HHeader r]\<rparr>) else None)"
| "rt_step dials RStop s = (if rt_running s then Some (s\<lparr>rt_running := False\<rparr>) else None)"
| "rt_step dials (RHeader i) s =
     (if i < length (rt_handlers s) then
        (case rt_handlers s ! i of HHeader r \<Rightarrow> Some (rt_handle dials i r s) | _ \<Rightarrow> None)
      else None)"
| "rt_step dials (RWake i) s =
     (if i < length (rt_handlers s) then
        (case rt_handlers s ! i of
           HWait g \<Rightarrow>
             if g \<in> rt_ready s then Some (s\<lparr>rt_handlers := (rt_handlers s)[i := HEnd]\<rparr>) else None
         | _ \<Rightarrow> None)
      else None)"
| "rt_step dials (RDial i ok) s =
     (if i < length (rt_handlers s) then
        (case rt_handlers s ! i of
           HDial port g \<Rightarrow>
             let s1 = s\<lparr>rt_dialed := rt_dialed s @ [(port, group_streams g)]\<rparr> in
             Some (if ok then s1\<lparr>rt_handlers := (rt_handlers s)[i := HPump g]\<rparr>
                   else s1\<lparr>rt_handlers := (rt_handlers s)[i := HEnd],
                           rt_shut := rt_shut s \<union> set (group_streams g)\<rparr>)
         | _ \<Rightarrow> None)
      else None)"
| "rt_step dials (RPumped i) s =
     (if i < length (rt_handlers s) then
        (case rt_handlers s ! i of
           HPump g \<Rightarrow> Some (s\<lparr>rt_handlers := (rt_handlers s)[i := HEnd],
                             rt_shut := rt_shut s \<union> set (group_streams g)\<rparr>)
         | _ \<Rightarrow> None)
      else None)"
| "rt_step dials RClose s = Some (s\<lparr>rt_closed := True\<rparr>)"

abbreviation rt_run :: "(string \<rightharpoonup> int) \<Rightarrow> rt_act list \<Rightarrow> router \<Rightarrow> router option" where
  "rt_run dials \<equiv> run (rt_step dials)"

fun_cases rt_step_SomeE:
  "rt_step dials (RAccept r) s = Some t" "rt_step dials RStop s = Some t"
  "rt_step dials (RHeader i) s = Some t" "rt_step dials (RWake i) s = Some t"
  "rt_step dials (RDial i ok) s = Some t" "rt_step dials (RPumped i) s = Some t"
  "rt_step dials RClose s = Some t"

section \<open>Grouping\<close>

lemma allReady_iff: "allReady xs \<longleftrightarrow> (\<forall>i < length xs. xs ! i \<noteq> None)"
  by (simp add: allReady_def list_all_length)

lemma allReady_replicate [simp]: "allReady (replicate n None) \<longleftrightarrow> n = 0"
  by (cases n) (auto simp: allReady_def)

lemma replicate_two: "replicate 2 x = [x, x]"
  by (simp add: numeral_2_eq_2)

lemma join_group_other: "sessionID h \<noteq> sid \<Longrightarrow> snd (join_group s h gs) sid = gs sid"
  by (auto simp: join_group_def Let_def)

text \<open>The \<open>n\<close> stripes of one session, and its group when the stripes in \<open>K\<close> have joined.\<close>

definition stripe_header :: "string \<Rightarrow> u64 \<Rightarrow> nat \<Rightarrow> nat \<Rightarrow> streamHeader" where
  "stripe_header t sid n k =
     \<lparr>tag = t, sessionID = sid, stripeIdx = of_nat k, numStripes = of_nat n\<rparr>"

definition slots :: "nat list \<Rightarrow> nat set \<Rightarrow> nat option list" where
  "slots ss K = map (\<lambda>k. if k \<in> K then Some (ss ! k) else None) [0..<length ss]"

lemma slots_update:
  "k < length ss \<Longrightarrow> (slots ss K)[k := Some (ss ! k)] = slots ss (insert k K)"
  by (intro nth_equalityI) (auto simp: slots_def nth_list_update)

lemma allReady_slots: "allReady (slots ss K) \<longleftrightarrow> {..<length ss} \<subseteq> K"
  by (auto simp: allReady_def slots_def list_all_iff)

lemma slots_empty: "slots ss {} = replicate (length ss) None"
  by (simp add: slots_def map_replicate_const)

lemma map_the_slots: "{..<length ss} \<subseteq> K \<Longrightarrow> map the (slots ss K) = ss"
  by (auto simp: slots_def subset_eq intro!: nth_equalityI)

definition group_at :: "string \<Rightarrow> nat list \<Rightarrow> nat set \<Rightarrow> stripeGroup option \<Rightarrow> bool" where
  "group_at t ss K g \<longleftrightarrow>
     (if K = {} then g = None
      else \<exists>i. g = Some \<lparr>g_id = i, g_tag = t, g_numStripes = of_nat (length ss), g_streams = slots ss K\<rparr>)"

lemma join_group_stripe:
  assumes g: "group_at t ss K (gs sid)" and n: "length ss < 256"
    and k: "k < length ss" "k \<notin> K" "K \<subseteq> {..<length ss}"
    and j: "join_group (ss ! k) (stripe_header t sid (length ss) k) gs = (j, gs')"
  shows "if insert k K = {..<length ss}
    then gs' sid = None \<and> (\<exists>g. j = Completes g \<and> group_streams g = ss)
    else group_at t ss (insert k K) (gs' sid) \<and> (\<exists>g. j = Waits g)"
proof -
  let ?h = "stripe_header t sid (length ss) k"
  let ?g = "case gs sid of Some g \<Rightarrow> g | None \<Rightarrow> new_group (ss ! k) ?h"
  have idx: "unat (stripeIdx ?h) = k"
    using k(1) n by (simp add: stripe_header_def word_simps)
  have g': "g_streams ?g = slots ss K" "g_tag ?g = t" "g_numStripes ?g = of_nat (length ss)"
    using g n by (auto simp: group_at_def new_group_def stripe_header_def slots_empty word_simps
        split: if_splits)
  have full: "{..<length ss} \<subseteq> insert k K \<longleftrightarrow> insert k K = {..<length ss}"
    using k(1,3) by blast
  have sid: "sessionID ?h = sid"
    by (simp add: stripe_header_def)
  have len: "\<not> length (g_streams ?g) \<le> unat (stripeIdx ?h)"
    using k(1) by (simp add: g' idx) (simp add: slots_def)
  have "join_group (ss ! k) ?h gs =
      (let g1 = ?g\<lparr>g_streams := slots ss (insert k K)\<rparr> in
       if insert k K = {..<length ss} then (Completes g1, gs(sid := None))
       else (Waits g1, gs(sid \<mapsto> g1)))"
    unfolding join_group_def Let_def sid
    using len slots_update [OF k(1), of K] by (simp add: idx g' allReady_slots full)
  then show ?thesis
    using j g' map_the_slots [of ss "insert k K"]
    by (auto simp: Let_def group_at_def group_streams_def full intro: exI [of _ "g_id ?g"]
        split: if_splits)
qed

text \<open>What became of the streams of one session, among the results of all joins.\<close>

definition joins_of :: "u64 \<Rightarrow> (u64 \<times> joined) list \<Rightarrow> joined list" where
  "joins_of sid js = map snd (filter (\<lambda>(x, _). x = sid) js)"

lemma join_all_absent:
  "join_all xs gs = (js, gs') \<Longrightarrow> filter (\<lambda>(s, h). sessionID h = sid) xs = [] \<Longrightarrow>
     joins_of sid js = [] \<and> gs' sid = gs sid"
proof (induction xs arbitrary: gs js)
  case (Cons x xs)
  obtain s h where x: "x = (s, h)"
    by (cases x)
  obtain j gs1 where j: "join_group s h gs = (j, gs1)"
    by (cases "join_group s h gs")
  have "sessionID h \<noteq> sid" "filter (\<lambda>(s, h). sessionID h = sid) xs = []"
    using Cons.prems(2) x by (auto split: if_splits)
  then show ?case
    using Cons.IH [of gs1] Cons.prems(1) x j join_group_other [of h sid s gs]
    by (auto simp: joins_of_def split: prod.splits)
qed (simp add: joins_of_def)

lemma length_joins_of:
  "length (joins_of sid (fst (join_all xs gs))) = length (filter (\<lambda>(s, h). sessionID h = sid) xs)"
  by (induction xs gs rule: join_all.induct) (auto simp: joins_of_def split: prod.splits)

lemma mset_map_perm:
  assumes "mset xs = mset (map f ys)"
  shows "\<exists>zs. mset zs = mset ys \<and> xs = map f zs"
  using assms
proof (induction xs arbitrary: ys)
  case (Cons x xs)
  have "x \<in> f ` set ys"
    using mset_eq_setD [OF Cons.prems] by auto
  then obtain as y bs where y: "ys = as @ y # bs" "x = f y"
    by (auto dest: split_list)
  then have "mset xs = mset (map f (as @ bs))"
    using Cons.prems by simp
  then obtain zs where "mset zs = mset (as @ bs)" "xs = map f zs"
    using Cons.IH by blast
  then show ?case
    using y by (intro exI [of _ "y # zs"]) simp
qed simp

lemma join_all_session:
  assumes "group_at t ss K (gs sid)" and "length ss < 256" and "K \<subset> {..<length ss}"
    and "distinct ks" and "set ks = {..<length ss} - K"
    and "filter (\<lambda>(s, h). sessionID h = sid) xs =
      map (\<lambda>k. (ss ! k, stripe_header t sid (length ss) k)) ks"
    and "join_all xs gs = (js, gs')"
  shows "gs' sid = None \<and>
    (\<exists>ws g. joins_of sid js = map Waits ws @ [Completes g] \<and> group_streams g = ss)"
  using assms
proof (induction xs arbitrary: gs K ks js)
  case Nil
  then show ?case
    by auto
next
  case (Cons x xs)
  obtain s h where x: "x = (s, h)"
    by (cases x)
  obtain j gs1 where j: "join_group s h gs = (j, gs1)"
    by (cases "join_group s h gs")
  obtain js1 where js1: "join_all xs gs1 = (js1, gs')" "js = (sessionID h, j) # js1"
    using Cons.prems(7) x j by (auto split: prod.splits)
  show ?case
  proof (cases "sessionID h = sid")
    case False
    then have same: "gs1 sid = gs sid"
      using join_group_other [of h sid s gs] j by simp
    have "joins_of sid js = joins_of sid js1"
      using js1(2) False by (simp add: joins_of_def)
    then show ?thesis
      using Cons.IH [of K gs1 ks js1] Cons.prems js1(1) same False x by simp
  next
    case True
    then obtain k ks' where ks: "ks = k # ks'" "s = ss ! k" "h = stripe_header t sid (length ss) k"
      using Cons.prems(6) x by (cases ks) auto
    have k: "k < length ss" "k \<notin> K" "K \<subseteq> {..<length ss}"
      using Cons.prems(3,5) ks(1) by auto
    note step = join_group_stripe [OF Cons.prems(1,2) k j [unfolded ks(2,3)]]
    have set': "set ks' = {..<length ss} - insert k K" "distinct ks'"
      using Cons.prems(4,5) ks(1) by auto
    have rest: "filter (\<lambda>(s, h). sessionID h = sid) xs =
        map (\<lambda>k. (ss ! k, stripe_header t sid (length ss) k)) ks'"
      using Cons.prems(6) True x ks(1) by simp
    have js: "joins_of sid js = j # joins_of sid js1"
      using js1(2) True by (simp add: joins_of_def)
    show ?thesis
    proof (cases "insert k K = {..<length ss}")
      case True
      then obtain g where g: "gs1 sid = None" "j = Completes g" "group_streams g = ss"
        using step by auto
      have "filter (\<lambda>(s, h). sessionID h = sid) xs = []"
        using rest set'(1) True by simp
      then have "joins_of sid js1 = [] \<and> gs' sid = gs1 sid"
        using js1(1) join_all_absent by blast
      then show ?thesis
        using js g by (auto intro: exI [of _ "[]"])
    next
      case False
      then obtain g where g: "group_at t ss (insert k K) (gs1 sid)" "j = Waits g"
        using step by auto
      have "insert k K \<subset> {..<length ss}"
        using k False by auto
      from Cons.IH [OF g(1) Cons.prems(2) this set'(2,1) rest js1(1)]
      obtain ws c where "gs' sid = None" "joins_of sid js1 = map Waits ws @ [Completes c]"
        "group_streams c = ss"
        by blast
      then show ?thesis
        using js g(2) by (intro conjI exI [of _ "g # ws"] exI [of _ c]) simp_all
    qed
  qed
qed

section \<open>What the router keeps true\<close>

text \<open>A handler that has read its header, and one that waits for nobody any more.\<close>

definition past_header :: "router \<Rightarrow> nat \<Rightarrow> bool" where
  "past_header s i \<longleftrightarrow>
     i < length (rt_handlers s) \<and> (\<forall>r. rt_handlers s ! i \<noteq> HHeader r)"

definition released :: "router \<Rightarrow> nat \<Rightarrow> bool" where
  "released s i \<longleftrightarrow>
     past_header s i \<and> (\<forall>g. rt_handlers s ! i = HWait g \<longrightarrow> g \<in> rt_ready s)"

text \<open>The streams of the complete groups that are still to be dialled for.\<close>

fun pending_dial :: "handler \<Rightarrow> nat list" where
  "pending_dial (HDial _ g) = group_streams g"
| "pending_dial _ = []"

fun taken :: "nat option list \<Rightarrow> nat list" where
  "taken [] = []"
| "taken (None # xs) = taken xs"
| "taken (Some x # xs) = x # taken xs"

abbreviation members :: "stripeGroup \<Rightarrow> nat list" where
  "members g \<equiv> taken (g_streams g)"

definition group_inv :: "router \<Rightarrow> stripeGroup \<Rightarrow> bool" where
  "group_inv s g \<longleftrightarrow>
     past_header s (g_id g) \<and> g_id g \<notin> rt_ready s \<and> \<not> allReady (g_streams g) \<and>
     distinct (members g) \<and>
     (\<forall>x \<in> set (members g). x < length (rt_handlers s) \<and> rt_handlers s ! x = HWait (g_id g))"

definition handed_out :: "router \<Rightarrow> nat list" where
  "handed_out s = concat (map snd (rt_dialed s)) @ concat (map pending_dial (rt_handlers s))"

definition rt_inv :: "router \<Rightarrow> bool" where
  "rt_inv s \<longleftrightarrow>
     (\<forall>sid g. rt_groups s sid = Some g \<longrightarrow> group_inv s g) \<and>
     (\<forall>sid sid' g g'. rt_groups s sid = Some g \<longrightarrow> rt_groups s sid' = Some g' \<longrightarrow>
        g_id g = g_id g' \<longrightarrow> sid = sid') \<and>
     (\<forall>i < length (rt_handlers s). \<forall>g. rt_handlers s ! i = HWait g \<longrightarrow>
        g \<in> rt_ready s \<or> (\<exists>sid gr. rt_groups s sid = Some gr \<and> g_id gr = g)) \<and>
     (\<forall>g \<in> rt_ready s. past_header s g) \<and>
     distinct (handed_out s) \<and> (\<forall>x \<in> set (handed_out s). released s x)"

lemma rt_inv_init: "rt_inv NewAcceptRouter"
  by (simp add: rt_inv_def NewAcceptRouter_def handed_out_def)

text \<open>
  A step that touches no group and moves one handler from \<open>HWait\<close>, \<open>HDial\<close> or \<open>HPump\<close> to a state
  that no longer waits, or adds a handler, keeps the invariant as long as it keeps what has been
  handed out.
\<close>

lemma rt_inv_frame:
  assumes inv: "rt_inv s" and gs: "rt_groups t = rt_groups s" "rt_ready t = rt_ready s"
    and past: "\<And>i. past_header s i \<Longrightarrow> past_header t i"
    and rel: "\<And>i. released s i \<Longrightarrow> released t i"
    and keep: "\<And>i g. i < length (rt_handlers s) \<Longrightarrow> rt_handlers s ! i = HWait g \<Longrightarrow>
       g \<notin> rt_ready s \<Longrightarrow> i < length (rt_handlers t) \<and> rt_handlers t ! i = HWait g"
    and new: "\<And>i g. i < length (rt_handlers t) \<Longrightarrow> rt_handlers t ! i = HWait g \<Longrightarrow>
       i < length (rt_handlers s) \<and> rt_handlers s ! i = HWait g"
    and out: "mset (handed_out t) = mset (handed_out s)"
  shows "rt_inv t"
proof -
  have "group_inv t g" if "rt_groups s sid = Some g" for sid g
  proof -
    have g: "group_inv s g"
      using inv that by (simp add: rt_inv_def)
    have "x < length (rt_handlers t) \<and> rt_handlers t ! x = HWait (g_id g)" if "x \<in> set (members g)" for x
      using keep [of x "g_id g"] g that by (simp add: group_inv_def)
    then show ?thesis
      using g past gs by (simp add: group_inv_def)
  qed
  moreover have "distinct (handed_out t)" "set (handed_out t) = set (handed_out s)"
    using mset_eq_imp_distinct_iff [OF out] mset_eq_setD [OF out] inv by (simp_all add: rt_inv_def)
  moreover have "c \<in> rt_ready t \<or> (\<exists>x gr. rt_groups t x = Some gr \<and> g_id gr = c)"
    if "j < length (rt_handlers t)" "rt_handlers t ! j = HWait c" for j c
    unfolding gs using new [OF that] inv unfolding rt_inv_def by blast
  moreover have "\<forall>x \<in> set (handed_out t). released t x" "\<forall>c \<in> rt_ready t. past_header t c"
    using calculation(3) inv rel past gs by (simp_all add: rt_inv_def)
  moreover have "\<forall>sid sid' g g'. rt_groups s sid = Some g \<longrightarrow> rt_groups s sid' = Some g' \<longrightarrow>
      g_id g = g_id g' \<longrightarrow> sid = sid'"
    using inv by (simp add: rt_inv_def)
  ultimately show ?thesis
    unfolding rt_inv_def gs by blast
qed

lemma handed_out_update:
  assumes "i < length (rt_handlers s)" and "rt_handlers t = (rt_handlers s)[i := h]"
    and "rt_dialed t = rt_dialed s"
  shows "mset (handed_out t) + mset (pending_dial (rt_handlers s ! i)) =
    mset (handed_out s) + mset (pending_dial h)"
  using mset_concat_map_update [OF assms(1), of pending_dial h] assms(2,3)
  by (simp add: handed_out_def)

lemma past_header_update:
  "past_header s i \<Longrightarrow> rt_handlers t = (rt_handlers s)[j := h] \<Longrightarrow> (\<forall>r. h \<noteq> HHeader r) \<Longrightarrow> past_header t i"
  by (cases "j = i") (auto simp: past_header_def)

lemma released_update:
  "released s i \<Longrightarrow> rt_handlers t = (rt_handlers s)[j := h] \<Longrightarrow> rt_ready s \<subseteq> rt_ready t \<Longrightarrow>
     (\<forall>r. h \<noteq> HHeader r) \<and> (\<forall>g. h \<noteq> HWait g) \<Longrightarrow> released t i"
  by (cases "j = i") (auto simp: released_def past_header_def)

text \<open>A handler that is not waiting any more ends, or goes on to pump.\<close>

lemma rt_inv_move:
  assumes inv: "rt_inv s" and i: "released s i"
    and t: "rt_groups t = rt_groups s" "rt_ready t = rt_ready s" "rt_handlers t = (rt_handlers s)[i := h]"
    and h: "(\<forall>r. h \<noteq> HHeader r) \<and> (\<forall>g. h \<noteq> HWait g)"
    and out: "mset (handed_out t) = mset (handed_out s)"
  shows "rt_inv t"
proof (rule rt_inv_frame [OF inv t(1,2) _ _ _ _ out])
  show "past_header t j" if "past_header s j" for j
    using past_header_update [OF that t(3)] h by blast
  show "released t j" if "released s j" for j
    using released_update [OF that t(3)] t(2) h by blast
  show "j < length (rt_handlers t) \<and> rt_handlers t ! j = HWait g"
    if "j < length (rt_handlers s)" "rt_handlers s ! j = HWait g" "g \<notin> rt_ready s" for j g
    using that i t(3) by (cases "j = i") (simp_all add: released_def)
  show "j < length (rt_handlers s) \<and> rt_handlers s ! j = HWait g"
    if "j < length (rt_handlers t)" "rt_handlers t ! j = HWait g" for j g
    using that t(3) h by (cases "j = i") auto
qed

text \<open>A handler that has read its header and joined no complete group.\<close>

lemma group_inv_update:
  assumes "group_inv s g" and "rt_handlers s ! i = HHeader r"
    and "rt_handlers t = (rt_handlers s)[i := h]" and "rt_ready t = rt_ready s" and "\<forall>r. h \<noteq> HHeader r"
  shows "group_inv t g"
proof -
  have "rt_handlers t ! x = HWait (g_id g)" if "x \<in> set (members g)" for x
    using that assms(1-3) by (cases "x = i") (auto simp: group_inv_def)
  then show ?thesis
    using assms past_header_update [OF _ assms(3,5)] by (simp add: group_inv_def)
qed

lemma rt_inv_put:
  assumes inv: "rt_inv s" and i: "i < length (rt_handlers s)" "rt_handlers s ! i = HHeader r"
    and t: "rt_groups t = (rt_groups s)(sid \<mapsto> g)" "rt_handlers t = (rt_handlers s)[i := h]"
      "rt_ready t = rt_ready s" "rt_dialed t = rt_dialed s"
    and h: "h = HEnd \<or> h = HWait (g_id g)" and g: "group_inv t g"
    and id: "\<And>x g'. rt_groups s x = Some g' \<Longrightarrow> g_id g' = g_id g \<longleftrightarrow> x = sid"
  shows "rt_inv t"
proof -
  have h': "\<forall>r. h \<noteq> HHeader r"
    using h by auto
  have "group_inv t g'" if "rt_groups t x = Some g'" for x g'
    using that t(1) g inv group_inv_update [OF _ i(2) t(2,3) h', of g']
    by (auto simp: rt_inv_def split: if_splits)
  moreover have "x = y" if "rt_groups t x = Some g1" "rt_groups t y = Some g2" "g_id g1 = g_id g2" for x y g1 g2
    using that inv id by (auto simp: t(1) rt_inv_def split: if_splits)
  moreover have "c \<in> rt_ready t \<or> (\<exists>x gr. rt_groups t x = Some gr \<and> g_id gr = c)"
    if "j < length (rt_handlers t)" "rt_handlers t ! j = HWait c" for j c
  proof (cases "j = i")
    case True
    then show ?thesis
      using that h i(1) t(1,2) by (auto intro: exI [of _ sid])
  next
    case False
    then have "c \<in> rt_ready s \<or> (\<exists>x gr. rt_groups s x = Some gr \<and> g_id gr = c)"
      using that inv t(2) by (simp add: rt_inv_def)
    then show ?thesis
      using id t(1,3) by (metis fun_upd_apply option.inject)
  qed
  moreover have "\<forall>c \<in> rt_ready t. past_header t c"
    using inv past_header_update [OF _ t(2) h'] t(3) by (simp add: rt_inv_def)
  moreover have out: "mset (handed_out t) = mset (handed_out s)"
    using handed_out_update [OF i(1) t(2,4)] i(2) h by auto
  have "\<not> released s i"
    using i by (simp add: released_def past_header_def)
  then have "released t x" if "x \<in> set (handed_out t)" for x
    using that mset_eq_setD [OF out] inv t(2,3) h'
    by (cases "x = i") (auto simp: rt_inv_def released_def past_header_def)
  moreover have "distinct (handed_out t)"
    using mset_eq_imp_distinct_iff [OF out] inv by (simp add: rt_inv_def)
  ultimately show ?thesis
    unfolding rt_inv_def by blast
qed

text \<open>A handler that completes its group.\<close>

lemma members_ready: "allReady (g_streams g) \<Longrightarrow> members g = group_streams g"
proof -
  have "allReady xs \<Longrightarrow> taken xs = map the xs" for xs
    by (induction xs rule: taken.induct) (auto simp: allReady_def)
  then show "allReady (g_streams g) \<Longrightarrow> members g = group_streams g"
    by (simp add: group_streams_def)
qed

lemma rt_inv_complete:
  assumes inv: "rt_inv s" and i: "i < length (rt_handlers s)" "rt_handlers s ! i = HHeader r"
    and t: "rt_groups t = (rt_groups s)(sid := None)" "rt_handlers t = (rt_handlers s)[i := HDial port g]"
      "rt_ready t = insert (g_id g) (rt_ready s)" "rt_dialed t = rt_dialed s"
    and g: "past_header t (g_id g)" "distinct (members g)" "allReady (g_streams g)"
      "\<And>x. x \<in> set (members g) \<Longrightarrow> x = i \<or>
         g_id g \<notin> rt_ready s \<and> x < length (rt_handlers s) \<and> rt_handlers s ! x = HWait (g_id g)"
    and id: "\<And>x g'. rt_groups s x = Some g' \<Longrightarrow> g_id g' = g_id g \<longleftrightarrow> x = sid"
  shows "rt_inv t"
proof -
  have h': "\<forall>r. HDial port g \<noteq> HHeader r"
    by simp
  have "group_inv t g'" if "rt_groups t x = Some g'" for x g'
  proof -
    have x: "x \<noteq> sid" "rt_groups s x = Some g'"
      using that t(1) by (auto split: if_splits)
    then have "group_inv (t\<lparr>rt_ready := rt_ready s\<rparr>) g'"
      using inv group_inv_update [OF _ i(2) _ _ h', of g' "t\<lparr>rt_ready := rt_ready s\<rparr>"] t(2)
      by (simp add: rt_inv_def)
    then show ?thesis
      using x id t(3) by (auto simp: group_inv_def past_header_def)
  qed
  moreover have "x = y" if "rt_groups t x = Some g1" "rt_groups t y = Some g2" "g_id g1 = g_id g2" for x y g1 g2
    using that inv by (auto simp: t(1) rt_inv_def split: if_splits)
  moreover have "c \<in> rt_ready t \<or> (\<exists>x gr. rt_groups t x = Some gr \<and> g_id gr = c)"
    if "j < length (rt_handlers t)" "rt_handlers t ! j = HWait c" for j c
  proof -
    have "j \<noteq> i"
      using that i(1) t(2) by auto
    then have "c \<in> rt_ready s \<or> (\<exists>x gr. rt_groups s x = Some gr \<and> g_id gr = c)"
      using that inv t(2) by (simp add: rt_inv_def)
    then show ?thesis
      using id t(1,3) by (metis fun_upd_apply insertCI)
  qed
  moreover have "\<forall>c \<in> rt_ready t. past_header t c"
    using inv past_header_update [OF _ t(2) h'] t(3) g(1) by (simp add: rt_inv_def)
  moreover have out: "mset (handed_out t) = mset (handed_out s @ members g)"
    using handed_out_update [OF i(1) t(2,4)] i(2) members_ready [OF g(3)] by simp
  have not_out: "x \<notin> set (handed_out s)" if "x \<in> set (members g)" for x
    using that g(4) [OF that] i inv by (auto simp: rt_inv_def released_def past_header_def)
  have "released t x" if "x \<in> set (handed_out t)" for x
  proof (cases "x \<in> set (handed_out s)")
    case True
    then have "released s x"
      using inv by (simp add: rt_inv_def)
    then show ?thesis
      using released_update [OF _ t(2)] t(3) by blast
  next
    case False
    then have "x \<in> set (members g)"
      using that mset_eq_setD [OF out] by simp
    then show ?thesis
      using g(4) [of x] i(1) t(2,3) by (cases "x = i") (auto simp: released_def past_header_def)
  qed
  moreover have "distinct (handed_out t)"
    using mset_eq_imp_distinct_iff [OF out] inv g(2) not_out by (auto simp: rt_inv_def)
  ultimately show ?thesis
    unfolding rt_inv_def by blast
qed

lemma set_taken_update: "set (taken (xs[k := Some x])) \<subseteq> insert x (set (taken xs))"
  by (induction xs arbitrary: k rule: taken.induct) (auto split: nat.splits)

lemma distinct_taken_update:
  "x \<notin> set (taken xs) \<Longrightarrow> distinct (taken xs) \<Longrightarrow> distinct (taken (xs[k := Some x]))"
proof (induction xs arbitrary: k rule: taken.induct)
  case (2 xs)
  then show ?case
    by (cases k) simp_all
next
  case (3 y xs)
  then show ?case
    using set_taken_update [of xs "k - 1" x] by (cases k) auto
qed simp

lemma taken_replicate [simp]: "taken (replicate n None) = []"
  by (induction n) simp_all

text \<open>A handler that closes its stream and ends.\<close>

lemma rt_inv_reject:
  assumes inv: "rt_inv s" and i: "i < length (rt_handlers s)" "rt_handlers s ! i = HHeader r"
    and t: "rt_groups t = rt_groups s" "rt_ready t = rt_ready s" "rt_dialed t = rt_dialed s"
      "rt_handlers t = (rt_handlers s)[i := HEnd]"
  shows "rt_inv t"
proof (rule rt_inv_frame [OF inv t(1,2)])
  show "mset (handed_out t) = mset (handed_out s)"
    using handed_out_update [OF i(1) t(4,3)] i(2) by simp
  show "j < length (rt_handlers t) \<and> rt_handlers t ! j = HWait g"
    if "j < length (rt_handlers s)" "rt_handlers s ! j = HWait g" for j g
    using that i(2) t(4) by (cases "j = i") simp_all
  show "j < length (rt_handlers s) \<and> rt_handlers s ! j = HWait g"
    if "j < length (rt_handlers t)" "rt_handlers t ! j = HWait g" for j g
    using that t(4) by (cases "j = i") auto
qed (use t past_header_update [of s _ t i HEnd] released_update [of s _ t i HEnd] in auto)

text \<open>The group a header finds or creates: its number is its own, it is incomplete, and its members
  wait on it.\<close>

definition group_for :: "router \<Rightarrow> nat \<Rightarrow> streamHeader \<Rightarrow> stripeGroup" where
  "group_for s i h = (case rt_groups s (sessionID h) of Some g \<Rightarrow> g | None \<Rightarrow> new_group i h)"

lemma group_for_facts:
  assumes inv: "rt_inv s" and i: "rt_handlers s ! i = HHeader r" and n: "numStripes h \<noteq> 0"
  shows "rt_groups s x = Some g' \<Longrightarrow> g_id g' = g_id (group_for s i h) \<longleftrightarrow> x = sessionID h"
    and "g_id (group_for s i h) = i \<or> past_header s (g_id (group_for s i h))"
    and "g_id (group_for s i h) \<notin> rt_ready s" and "\<not> allReady (g_streams (group_for s i h))"
    and "distinct (members (group_for s i h))"
    and "y \<in> set (members (group_for s i h)) \<Longrightarrow>
      y < length (rt_handlers s) \<and> rt_handlers s ! y = HWait (g_id (group_for s i h))"
proof -
  note defs = group_for_def new_group_def rt_inv_def group_inv_def
  have fresh: "\<not> past_header s i"
    using i by (simp add: past_header_def)
  show "g_id g' = g_id (group_for s i h) \<longleftrightarrow> x = sessionID h" if "rt_groups s x = Some g'"
  proof (cases "rt_groups s (sessionID h)")
    case None
    then have "g_id (group_for s i h) = i" "x \<noteq> sessionID h"
      using that by (auto simp: group_for_def new_group_def)
    moreover have "past_header s (g_id g')"
      using that inv by (simp add: rt_inv_def group_inv_def)
    ultimately show ?thesis
      using fresh by auto
  next
    case (Some g0)
    then show ?thesis
      using that inv by (auto simp: group_for_def rt_inv_def)
  qed
  show "g_id (group_for s i h) = i \<or> past_header s (g_id (group_for s i h))"
    "g_id (group_for s i h) \<notin> rt_ready s"
    using inv fresh by (auto simp: defs split: option.splits)
  show "\<not> allReady (g_streams (group_for s i h))"
    using inv n by (auto simp: defs unat_eq_0 split: option.splits)
  show "distinct (members (group_for s i h))"
    "y \<in> set (members (group_for s i h)) \<Longrightarrow>
      y < length (rt_handlers s) \<and> rt_handlers s ! y = HWait (g_id (group_for s i h))"
    using inv by (auto simp: defs split: option.splits)
qed

text \<open>A handler that joins its group.\<close>

lemma rt_inv_join:
  assumes inv: "rt_inv s" and i: "i < length (rt_handlers s)" "rt_handlers s ! i = HHeader r"
    and n: "numStripes h \<noteq> 0"
  shows "rt_inv (case join_group i h (rt_groups s) of
      (OutOfRange, gs) \<Rightarrow> s\<lparr>rt_handlers := (rt_handlers s)[i := HEnd], rt_shut := insert i (rt_shut s), rt_groups := gs\<rparr>
    | (Waits g, gs) \<Rightarrow> s\<lparr>rt_groups := gs, rt_handlers := (rt_handlers s)[i := HWait (g_id g)]\<rparr>
    | (Completes g, gs) \<Rightarrow> s\<lparr>rt_groups := gs, rt_ready := insert (g_id g) (rt_ready s),
        rt_handlers := (rt_handlers s)[i := HDial port g]\<rparr>)"
proof -
  let ?sid = "sessionID h"
  define g where "g = group_for s i h"
  note facts = group_for_facts [OF inv i(2) n, folded g_def]
  have past: "past_header t (g_id g)"
    if "rt_handlers t = (rt_handlers s)[i := h']" "\<forall>r. h' \<noteq> HHeader r" for t h'
    using facts(2) past_header_update [OF _ that] that i(1) by (auto simp: past_header_def)
  let ?k = "unat (stripeIdx h)"
  define g1 where "g1 = g\<lparr>g_streams := (g_streams g)[?k := Some i]\<rparr>"
  have "i \<notin> set (members g)"
    using facts(6) i(2) by fastforce
  then have mem1: "distinct (members g1)" "set (members g1) \<subseteq> insert i (set (members g))" "g_id g1 = g_id g"
    using facts(5) distinct_taken_update [of i "g_streams g" ?k] set_taken_update [of "g_streams g" ?k i]
    by (simp_all add: g1_def)
  have join: "join_group i h (rt_groups s) =
      (if length (g_streams g) \<le> ?k then (OutOfRange, (rt_groups s)(?sid \<mapsto> g))
       else if allReady (g_streams g1) then (Completes g1, (rt_groups s)(?sid := None))
       else (Waits g1, (rt_groups s)(?sid \<mapsto> g1)))"
    by (simp add: join_group_def Let_def group_for_def [symmetric] g_def [symmetric] g1_def)
  consider (out) "length (g_streams g) \<le> ?k" | (ready) "\<not> length (g_streams g) \<le> ?k" "allReady (g_streams g1)"
    | (wait) "\<not> length (g_streams g) \<le> ?k" "\<not> allReady (g_streams g1)"
    by blast
  then show ?thesis
  proof cases
    case out
    let ?t = "s\<lparr>rt_handlers := (rt_handlers s)[i := HEnd], rt_shut := insert i (rt_shut s),
      rt_groups := (rt_groups s)(?sid \<mapsto> g)\<rparr>"
    have "rt_handlers ?t ! x = HWait (g_id g)" if "x \<in> set (members g)" for x
      using facts(6) [OF that] i(2) by (cases "x = i") simp_all
    then have "group_inv ?t g"
      using past [of ?t HEnd] facts by (simp add: group_inv_def)
    then have "rt_inv ?t"
      by (intro rt_inv_put [OF inv i, of ?t ?sid g HEnd]) (use facts(1) in simp_all)
    then show ?thesis
      using join out by simp
  next
    case wait
    let ?t = "s\<lparr>rt_groups := (rt_groups s)(?sid \<mapsto> g1),
      rt_handlers := (rt_handlers s)[i := HWait (g_id g1)]\<rparr>"
    have "x < length (rt_handlers ?t) \<and> rt_handlers ?t ! x = HWait (g_id g1)" if "x \<in> set (members g1)" for x
      using facts(6) [of x] mem1(2,3) i that by (cases "x = i") auto
    then have "group_inv ?t g1"
      using past [of ?t "HWait (g_id g1)"] facts(3) wait mem1 by (simp add: group_inv_def)
    then have "rt_inv ?t"
      by (intro rt_inv_put [OF inv i, of ?t ?sid g1 "HWait (g_id g1)"]) (use facts(1) mem1(3) in simp_all)
    then show ?thesis
      using join wait by simp
  next
    case ready
    let ?t = "s\<lparr>rt_groups := (rt_groups s)(?sid := None), rt_ready := insert (g_id g1) (rt_ready s),
      rt_handlers := (rt_handlers s)[i := HDial port g1]\<rparr>"
    have "rt_inv ?t"
      by (rule rt_inv_complete [OF inv i, of ?t ?sid port g1])
        (use past [of ?t "HDial port g1"] ready facts mem1 in auto)
    then show ?thesis
      using join ready by simp
  qed
qed

lemma rt_inv_handle:
  assumes inv: "rt_inv s" and i: "i < length (rt_handlers s)" "rt_handlers s ! i = HHeader r"
  shows "rt_inv (rt_handle dials i r s)"
proof (cases "fst (readStreamHeader r)")
  case (Inl e)
  then show ?thesis
    using rt_inv_reject [OF inv i] by (simp add: rt_handle_def)
next
  case (Inr h)
  then have n: "numStripes h \<noteq> 0"
    using readStreamHeader_sound [of r h] by (cases "readStreamHeader r") (auto simp: header_ok_def)
  show ?thesis
  proof (cases "dials (tag h)")
    case None
    then show ?thesis
      using Inr rt_inv_reject [OF inv i] by (simp add: rt_handle_def)
  next
    case (Some port)
    then show ?thesis
      using Inr rt_inv_join [OF inv i n, of port] by (simp add: rt_handle_def Let_def split: joined.splits prod.splits)
  qed
qed

lemma rt_inv_step:
  assumes inv: "rt_inv s" and step: "rt_step dials a s = Some t"
  shows "rt_inv t"
proof (cases a)
  case (RAccept r)
  then have t: "t = s\<lparr>rt_handlers := rt_handlers s @ [HHeader r]\<rparr>"
    using step by (simp split: if_splits)
  have "handed_out t = handed_out s"
    by (simp add: handed_out_def t)
  then show ?thesis
    by (intro rt_inv_frame [OF inv])
      (auto simp: t past_header_def released_def nth_append split: if_splits)
next
  case (RHeader i)
  then show ?thesis
    using step inv rt_inv_handle by (auto split: if_splits handler.splits)
next
  case (RWake i)
  then obtain g where g: "i < length (rt_handlers s)" "rt_handlers s ! i = HWait g" "g \<in> rt_ready s"
    and t: "t = s\<lparr>rt_handlers := (rt_handlers s)[i := HEnd]\<rparr>"
    using step by (auto split: if_splits handler.splits)
  have "mset (handed_out t) = mset (handed_out s)"
    using handed_out_update [of i s t HEnd] g t by simp
  then show ?thesis
    using g t by (intro rt_inv_move [OF inv, of i t HEnd]) (simp_all add: released_def past_header_def)
next
  case (RDial i ok)
  then obtain port g where g: "i < length (rt_handlers s)" "rt_handlers s ! i = HDial port g"
    using step by (auto split: if_splits handler.splits)
  let ?h = "if ok then HPump g else HEnd"
  have t: "rt_groups t = rt_groups s" "rt_ready t = rt_ready s" "rt_handlers t = (rt_handlers s)[i := ?h]"
    "rt_dialed t = rt_dialed s @ [(port, group_streams g)]"
    using step RDial g by (cases ok; force simp: Let_def)+
  have "mset (handed_out t) = mset (handed_out s)"
    using handed_out_update [of i s "t\<lparr>rt_dialed := rt_dialed s\<rparr>" ?h] g t
    by (cases ok) (simp_all add: handed_out_def ac_simps)
  then show ?thesis
    using g t by (intro rt_inv_move [OF inv, of i t ?h]) (auto simp: released_def past_header_def)
next
  case (RPumped i)
  then obtain g where g: "i < length (rt_handlers s)" "rt_handlers s ! i = HPump g"
    and t: "t = s\<lparr>rt_handlers := (rt_handlers s)[i := HEnd], rt_shut := rt_shut s \<union> set (group_streams g)\<rparr>"
    using step by (auto split: if_splits handler.splits)
  have "mset (handed_out t) = mset (handed_out s)"
    using handed_out_update [of i s t HEnd] g t by simp
  then show ?thesis
    using g t by (intro rt_inv_move [OF inv, of i t HEnd]) (simp_all add: released_def past_header_def)
next
  case RStop
  then have t: "t = s\<lparr>rt_running := False\<rparr>"
    using step by (simp split: if_splits)
  then show ?thesis
    by (intro rt_inv_frame [OF inv]) (auto simp: handed_out_def past_header_def released_def)
next
  case RClose
  then have t: "t = s\<lparr>rt_closed := True\<rparr>"
    using step by simp
  then show ?thesis
    by (intro rt_inv_frame [OF inv]) (auto simp: handed_out_def past_header_def released_def)
qed

interpretation rt: machine_invariant "rt_step dials" rt_inv "\<lambda>_. True" for dials
  by unfold_locales (rule rt_inv_step)

section \<open>Properties of the router\<close>

text \<open>C5 (functional): stripes find each other. When the \<open>n\<close> stripes of a session arrive, in any
  order and interleaved with any streams of other sessions, all but the last of them wait, the
  last one completes the group, the group it completes holds the streams in the order of their
  stripe numbers, and the session's entry is gone from the table.\<close>

theorem stripes_meet:
  assumes "gs sid = None" and "ss \<noteq> []" and "length ss < 256"
    and "mset (filter (\<lambda>(s, h). sessionID h = sid) arrivals) =
      mset (map (\<lambda>k. (ss ! k, stripe_header t sid (length ss) k)) [0..<length ss])"
  shows "snd (join_all arrivals gs) sid = None \<and>
    (\<exists>ws g. joins_of sid (fst (join_all arrivals gs)) = map Waits ws @ [Completes g] \<and>
       length ws = length ss - 1 \<and> group_streams g = ss)"
proof -
  let ?mk = "\<lambda>k. (ss ! k, stripe_header t sid (length ss) k)"
  obtain js gs' where j: "join_all arrivals gs = (js, gs')"
    by (cases "join_all arrivals gs")
  obtain ks where ks: "mset ks = mset [0..<length ss]"
    "filter (\<lambda>(s, h). sessionID h = sid) arrivals = map ?mk ks"
    using mset_map_perm [OF assms(4)] by blast
  have "distinct ks" "set ks = {..<length ss} - {}"
    using mset_eq_imp_distinct_iff [OF ks(1)] mset_eq_setD [OF ks(1)] by (auto simp: atLeast0LessThan)
  moreover have "group_at t ss {} (gs sid)" "{} \<subset> {..<length ss}"
    using assms(1,2) by (auto simp: group_at_def)
  ultimately obtain ws g where g: "gs' sid = None" "joins_of sid js = map Waits ws @ [Completes g]"
    "group_streams g = ss"
    using join_all_session [OF _ assms(3) _ _ _ ks(2) j] by blast
  have "length (joins_of sid js) = length (filter (\<lambda>(s, h). sessionID h = sid) arrivals)"
    using length_joins_of [of sid arrivals gs] j by simp
  also have "\<dots> = length ss"
    using ks by (metis diff_zero length_map length_upt size_mset)
  finally show ?thesis
    using g j by auto
qed

definition two_arrivals :: "(nat \<times> streamHeader) list" where
  "two_arrivals =
     [(0, stripe_header ''http'' 7 2 1), (1, stripe_header ''ssh'' 9 1 0), (2, stripe_header ''http'' 7 2 0)]"

theorem stripes_meet_witness:
  "\<exists>ws g. joins_of 7 (fst (join_all two_arrivals Map.empty)) = map Waits ws @ [Completes g] \<and>
     length ws = 1 \<and> group_streams g = [2, 0]"
proof -
  have "mset (filter (\<lambda>(s, h). sessionID h = 7) two_arrivals) =
      mset (map (\<lambda>k. ([2, 0] ! k, stripe_header ''http'' 7 2 k)) [0..<2])"
    by (simp add: two_arrivals_def stripe_header_def upt_rec)
  then show ?thesis
    using stripes_meet [of Map.empty 7 "[2, 0]" two_arrivals "''http''"] by (simp add: numeral_2_eq_2)
qed

text \<open>C6 (invariant): no stream is ever handed to two pumps. In every reachable state the streams of
  all groups that were dialled for, or are about to be, are pairwise different, whatever headers
  the peer sent: repeated stripe numbers, repeated session ids and contradictory stripe counts
  included.\<close>

theorem streams_dialled_once:
  assumes "rt_run dials as NewAcceptRouter = Some s"
  shows "distinct (concat (map snd (rt_dialed s)) @ concat (map pending_dial (rt_handlers s)))"
  using rt.run_inv [OF assms rt_inv_init] by (simp add: rt_inv_def handed_out_def)

text \<open>Two streams that claim the same stripe of one session, then its other stripe.\<close>

definition claim :: "nat \<Rightarrow> reader" where
  "claim k = \<lparr>rbuf = header_bytes (stripe_header ''http'' 7 2 k), rend = EOF\<rparr>"

lemma read_claim: "k < 256 \<Longrightarrow> fst (readStreamHeader (claim k)) = Inr (stripe_header ''http'' 7 2 k)"
  using readStreamHeader_header_bytes [of "stripe_header ''http'' 7 2 k" "claim k" "[]"]
  by (simp add: claim_def header_ok_def maxTagLen_def stripe_header_def)

lemma claim_run:
  "\<exists>s. rt_run [''http'' \<mapsto> 80] [RAccept (claim 0), RAccept (claim 0), RAccept (claim 1), RHeader 0,
     RHeader 1, RHeader 2, RDial 2 True] NewAcceptRouter = Some s \<and> rt_dialed s = [(80, [1, 2])]"
  by (simp add: NewAcceptRouter_def rt_handle_def read_claim join_group_def new_group_def
      stripe_header_def allReady_def group_streams_def Let_def replicate_two)

theorem streams_dialled_once_witness:
  "\<exists>s :: router. rt_dialed s = [(80, [1, 2])] \<and>
     distinct (concat (map snd (rt_dialed s)) @ concat (map pending_dial (rt_handlers s)))"
proof -
  obtain s where s: "rt_run [''http'' \<mapsto> 80] [RAccept (claim 0), RAccept (claim 0), RAccept (claim 1), RHeader 0,
     RHeader 1, RHeader 2, RDial 2 True] NewAcceptRouter = Some s" "rt_dialed s = [(80, [1, 2])]"
    using claim_run by blast
  from streams_dialled_once [OF s(1)] s(2) show ?thesis
    by blast
qed

text \<open>C27 (liveness): no wake-up is lost. In every reachable state a handler that waits on its
  group's \<open>ready\<close> channel either finds it closed and can return, or its group is still in the
  table and still lacks a stripe, so that the stream that completes it will close the channel.\<close>

theorem waiters_are_released:
  assumes "rt_run dials as NewAcceptRouter = Some s" and "i < length (rt_handlers s)"
    and "rt_handlers s ! i = HWait g"
  shows "rt_step dials (RWake i) s \<noteq> None \<or>
    (\<exists>sid gr. rt_groups s sid = Some gr \<and> g_id gr = g \<and> \<not> allReady (g_streams gr))"
proof -
  have "rt_inv s"
    using rt.run_inv [OF assms(1) rt_inv_init] by simp
  then have "g \<in> rt_ready s \<or> (\<exists>sid gr. rt_groups s sid = Some gr \<and> g_id gr = g \<and> group_inv s gr)"
    using assms(2,3) unfolding rt_inv_def by blast
  then show ?thesis
    using assms(2,3) by (auto simp: group_inv_def)
qed

theorem waiters_are_released_witness:
  "\<exists>s :: router. rt_handlers s = [HWait 0] \<and>
     (rt_step [''http'' \<mapsto> 80] (RWake 0) s \<noteq> None \<or>
       (\<exists>sid gr. rt_groups s sid = Some gr \<and> g_id gr = 0 \<and> \<not> allReady (g_streams gr)))"
proof -
  have "\<exists>s. rt_run [''http'' \<mapsto> 80] [RAccept (claim 0), RHeader 0] NewAcceptRouter = Some s \<and>
      rt_handlers s = [HWait 0]"
    by (simp add: NewAcceptRouter_def rt_handle_def read_claim join_group_def new_group_def
        stripe_header_def allReady_def Let_def replicate_two)
  then obtain s where s: "rt_run [''http'' \<mapsto> 80] [RAccept (claim 0), RHeader 0] NewAcceptRouter = Some s"
    "rt_handlers s = [HWait 0]"
    by blast
  then show ?thesis
    using waiters_are_released [OF s(1), of 0 0] by (intro exI [of _ s]) (simp del: rt_step.simps)
qed

text \<open>C28 (error): a stream whose header cannot be read, whose tag is not dialled here or whose
  stripe number is out of range (of its own header when it is the first of its session, of the
  group that waits under its session id otherwise) is closed and its handler returns, nothing is
  dialled, and no group gains a stream. Groups that were in the table stay as they are; but an
  out-of-range stripe number that opens a session leaves the group it created in the table, empty.\<close>

theorem bad_streams_rejected:
  assumes "i < length (rt_handlers s)" and "rt_handlers s ! i = HHeader r"
    and "case fst (readStreamHeader r) of Inl _ \<Rightarrow> True
      | Inr h \<Rightarrow> dials (tag h) = None \<or> (case rt_groups s (sessionID h) of
               None \<Rightarrow> unat (numStripes h) \<le> unat (stripeIdx h)
             | Some g \<Rightarrow> length (g_streams g) \<le> unat (stripeIdx h))"
  shows "\<exists>t. rt_step dials (RHeader i) s = Some t \<and> rt_handlers t ! i = HEnd \<and>
    rt_shut t = insert i (rt_shut s) \<and> rt_dialed t = rt_dialed s \<and>
    rt_groups t =
      (case fst (readStreamHeader r) of Inl _ \<Rightarrow> rt_groups s
       | Inr h \<Rightarrow> if dials (tag h) = None then rt_groups s
                 else if rt_groups s (sessionID h) \<noteq> None then rt_groups s
                 else (rt_groups s)(sessionID h \<mapsto> new_group i h))"
  using assms
  by (auto simp: rt_handle_def join_group_def new_group_def Let_def split: sum.splits option.splits)

theorem bad_streams_rejected_witness:
  "\<exists>t. rt_step [''http'' \<mapsto> 80] (RHeader 0) (NewAcceptRouter\<lparr>rt_handlers := [HHeader (claim 5)]\<rparr>) = Some t \<and>
     rt_groups t 7 \<noteq> None"
proof -
  let ?s = "NewAcceptRouter\<lparr>rt_handlers := [HHeader (claim 5)]\<rparr>"
  have "fst (readStreamHeader (claim 5)) = Inr (stripe_header ''http'' 7 2 5)"
    by (simp add: read_claim)
  then show ?thesis
    using bad_streams_rejected [of 0 ?s "claim 5" "[''http'' \<mapsto> 80]"]
    by (auto simp: NewAcceptRouter_def stripe_header_def)
qed

end
