(* ===== verification/Listener.thy ===== *)
theory Listener
  imports Wire
begin

text \<open>
  The listening side of the forwarder (\<open>TCPListener\<close> of \<open>internal/forward/forward.go\<close>): \<open>Start\<close>
  binds a TCP socket per spec, \<open>acceptLoop\<close> hands the connections of a socket to \<open>handle\<close>, which
  opens the connection's tagged streams, and \<open>Close\<close> closes the sockets of the listener's table.
  What the operating system answers to a bind and the session to \<open>OpenStream\<close> are parameters.
\<close>

section \<open>Binding and closing\<close>

record listenSpec =
  ls_name :: string
  ls_localPort :: int
  ls_remotePort :: int

text \<open>
  Sockets are numbered in the order in which they were bound; \<open>tl_listeners\<close> is the map
  \<open>listeners\<close> of the source, \<open>tl_loops\<close> the accept loops that were started.
\<close>

record socket =
  sk_port :: nat
  sk_open :: bool

record tcp_listener =
  tl_sockets :: "socket list"
  tl_listeners :: "string \<rightharpoonup> nat"
  tl_loops :: "(string \<times> nat) list"
  tl_closed :: bool
  tl_bytesIn :: u64
  tl_bytesOut :: u64

definition NewTCPListener :: tcp_listener where
  "NewTCPListener =
     \<lparr>tl_sockets = [], tl_listeners = Map.empty, tl_loops = [], tl_closed = False,
      tl_bytesIn = 0, tl_bytesOut = 0\<rparr>"

text \<open>
  The network's answer to the bind request number \<open>k\<close> for a port: the port bound, or an error.
\<close>

type_synonym net = "nat \<Rightarrow> int \<Rightarrow> nat option"

datatype start_error = ResolveError int | ListenError int

text \<open>\<open>net.ResolveTCPAddr\<close> of \<open>127.0.0.1:port\<close> rejects what is not a port number.\<close>

definition valid_port :: "int \<Rightarrow> bool" where
  "valid_port p \<longleftrightarrow> 0 \<le> p \<and> p \<le> 65535"

definition close_socket :: "socket list \<Rightarrow> nat \<Rightarrow> socket list" where
  "close_socket ss i = (if i < length ss then ss[i := (ss ! i)\<lparr>sk_open := False\<rparr>] else ss)"

text \<open>
  \<open>Close\<close> is idempotent by its \<open>CompareAndSwap\<close>; it ranges over the map, in the order in which
  Go happens to visit the keys.
\<close>

type_synonym order = "(string \<rightharpoonup> nat) \<Rightarrow> string list"

definition tl_close :: "order \<Rightarrow> tcp_listener \<Rightarrow> tcp_listener" where
  "tl_close ord l =
     (if tl_closed l then l
      else l\<lparr>tl_closed := True,
            tl_sockets := foldl close_socket (tl_sockets l)
              (List.map_filter (tl_listeners l) (ord (tl_listeners l)))\<rparr>)"

definition range_order :: "string list \<Rightarrow> order \<Rightarrow> bool" where
  "range_order names ord \<longleftrightarrow> (\<forall>m. dom m \<subseteq> set names \<longrightarrow> visits (ord m) m)"

definition bind_spec :: "net \<Rightarrow> listenSpec \<Rightarrow> tcp_listener \<Rightarrow> start_error + tcp_listener" where
  "bind_spec net spec l =
     (if \<not> valid_port (ls_localPort spec) then Inl (ResolveError (ls_localPort spec))
      else case net (length (tl_sockets l)) (ls_localPort spec) of
        None \<Rightarrow> Inl (ListenError (ls_localPort spec))
      | Some p \<Rightarrow>
          let i = length (tl_sockets l) in
          Inr (l\<lparr>tl_sockets := tl_sockets l @ [\<lparr>sk_port = p, sk_open = True\<rparr>],
                tl_listeners := (tl_listeners l)(ls_name spec \<mapsto> i),
                tl_loops := tl_loops l @ [(ls_name spec, i)]\<rparr>))"

fun tl_start :: "order \<Rightarrow> net \<Rightarrow> listenSpec list \<Rightarrow> tcp_listener \<Rightarrow> start_error option \<times> tcp_listener" where
  "tl_start ord net [] l = (None, l)"
| "tl_start ord net (spec # specs) l =
     (case bind_spec net spec l of
        Inl e \<Rightarrow> (Some e, tl_close ord l)
      | Inr l1 \<Rightarrow> tl_start ord net specs l1)"

definition BoundPorts :: "tcp_listener \<Rightarrow> string \<rightharpoonup> nat" where
  "BoundPorts l = (\<lambda>n. map_option (\<lambda>i. sk_port (tl_sockets l ! i)) (tl_listeners l n))"

definition tl_stats :: "tcp_listener \<Rightarrow> u64 \<times> u64" where
  "tl_stats l = (tl_bytesIn l, tl_bytesOut l)"

text \<open>The results of \<open>Accept\<close> on one socket: the connections handed to \<open>handle\<close>.\<close>

fun acceptLoop :: "(io_error + 'conn) list \<Rightarrow> 'conn list" where
  "acceptLoop [] = []"
| "acceptLoop (Inl e # rs) = []"
| "acceptLoop (Inr c # rs) = c # acceptLoop rs"

section \<open>Opening the streams of a connection\<close>

text \<open>\<open>rand.Uint64()\<close>, with 0 kept for unstriped streams.\<close>

definition session_id :: "u64 \<Rightarrow> u64" where
  "session_id r = (if r = 0 then 1 else r)"

text \<open>
  How \<open>handle\<close> leaves its streams: pumping on all of them, or closed, those it had opened so far.
\<close>

datatype handled = Pumping "writer list" | Aborted "writer list" "nat set"

text \<open>
  \<open>opens\<close> are the results of the calls of \<open>OpenStream\<close>; \<open>streams\<close> those opened and tagged so
  far. Streams are numbered in the order in which they are opened.
\<close>

fun open_stripes :: "nat \<Rightarrow> string \<Rightarrow> u64 \<Rightarrow> (io_error + writer) list \<Rightarrow> writer list \<Rightarrow> handled" where
  "open_stripes n name sid opens streams =
     (if n \<le> length streams then Pumping streams
      else case opens of
        [] \<Rightarrow> Aborted streams {..<length streams}
      | Inl e # rest \<Rightarrow> Aborted streams {..<length streams}
      | Inr s # rest \<Rightarrow>
          (case writeStreamHeader s \<lparr>tag = name, sessionID = sid, stripeIdx = of_nat (length streams),
                                     numStripes = of_nat n\<rparr> of
             (Some e, s1) \<Rightarrow> Aborted (streams @ [s1]) (insert (length streams) {..<length streams})
           | (None, s1) \<Rightarrow> open_stripes n name sid rest (streams @ [s1])))"

definition tl_handle :: "string \<Rightarrow> u64 \<Rightarrow> (io_error + writer) list \<Rightarrow> handled" where
  "tl_handle name r opens = open_stripes listenStripes name (session_id r) opens []"

section \<open>What the listener keeps true\<close>

definition tl_inv :: "tcp_listener \<Rightarrow> bool" where
  "tl_inv l \<longleftrightarrow>
     (\<forall>n i. tl_listeners l n = Some i \<longrightarrow> i < length (tl_sockets l)) \<and>
     (\<forall>i < length (tl_sockets l). sk_open (tl_sockets l ! i) \<longrightarrow> i \<in> ran (tl_listeners l) \<and> \<not> tl_closed l)"

lemma close_socket_nth:
  "j < length ss \<Longrightarrow> close_socket ss i ! j = (if j = i then (ss ! j)\<lparr>sk_open := False\<rparr> else ss ! j)"
  by (auto simp: close_socket_def nth_list_update)

lemma length_close_socket [simp]: "length (close_socket ss i) = length ss"
  by (simp add: close_socket_def)

lemma close_sockets:
  "length (foldl close_socket ss ks) = length ss \<and>
   (\<forall>j < length ss. sk_open (foldl close_socket ss ks ! j) \<longleftrightarrow> sk_open (ss ! j) \<and> j \<notin> set ks)"
proof (induction ks arbitrary: ss)
  case (Cons i ks)
  then show ?case
    by (auto simp: close_socket_nth)
qed simp

lemma tl_listeners_close [simp]: "tl_listeners (tl_close ord l) = tl_listeners l"
  by (simp add: tl_close_def)

lemma tl_close_closes:
  assumes "tl_inv l" and "visits (ord (tl_listeners l)) (tl_listeners l)"
  shows "\<forall>s \<in> set (tl_sockets (tl_close ord l)). \<not> sk_open s"
proof (cases "tl_closed l")
  case True
  then show ?thesis
    using assms(1) by (auto simp: tl_close_def tl_inv_def in_set_conv_nth)
next
  case False
  let ?is = "List.map_filter (tl_listeners l) (ord (tl_listeners l))"
  note c = close_sockets [of "tl_sockets l" ?is]
  have "\<not> sk_open (foldl close_socket (tl_sockets l) ?is ! j)" if "j < length (tl_sockets l)" for j
    using that c assms(1) set_map_filter_visits [OF assms(2)] by (auto simp: tl_inv_def)
  then show ?thesis
    using False c by (simp add: tl_close_def all_set_conv_all_nth)
qed

lemma bind_spec_inv:
  assumes "tl_inv l" and "bind_spec net spec l = Inr l1" and "ls_name spec \<notin> dom (tl_listeners l)"
    and "\<not> tl_closed l"
  shows "tl_inv l1 \<and> \<not> tl_closed l1 \<and> dom (tl_listeners l1) = insert (ls_name spec) (dom (tl_listeners l))"
proof -
  obtain p where l1: "l1 = l\<lparr>tl_sockets := tl_sockets l @ [\<lparr>sk_port = p, sk_open = True\<rparr>],
      tl_listeners := (tl_listeners l)(ls_name spec \<mapsto> length (tl_sockets l)),
      tl_loops := tl_loops l @ [(ls_name spec, length (tl_sockets l))]\<rparr>"
    using assms(2) by (auto simp: bind_spec_def Let_def split: if_splits option.splits)
  have "ran (tl_listeners l1) = insert (length (tl_sockets l)) (ran (tl_listeners l))"
    using assms(3) by (auto simp: l1 dom_def)
  then show ?thesis
    using assms(1,4) by (auto simp: l1 tl_inv_def nth_append less_Suc_eq)
qed

text \<open>A successful start: one socket per spec, in order.\<close>

lemma tl_start_ok:
  assumes "tl_start ord net specs l = (None, l')"
  shows "length (tl_sockets l') = length (tl_sockets l) + length specs \<and>
    take (length (tl_sockets l)) (tl_sockets l') = tl_sockets l \<and>
    (\<forall>k < length specs. sk_open (tl_sockets l' ! (length (tl_sockets l) + k)) \<and>
       net (length (tl_sockets l) + k) (ls_localPort (specs ! k)) =
         Some (sk_port (tl_sockets l' ! (length (tl_sockets l) + k)))) \<and>
    (\<forall>n. n \<notin> set (map ls_name specs) \<longrightarrow> tl_listeners l' n = tl_listeners l n) \<and>
    (distinct (map ls_name specs) \<longrightarrow>
       (\<forall>k < length specs. tl_listeners l' (ls_name (specs ! k)) = Some (length (tl_sockets l) + k)))"
  using assms
proof (induction specs arbitrary: l)
  case Nil
  then show ?case
    by simp
next
  case (Cons spec specs)
  obtain p where p: "net (length (tl_sockets l)) (ls_localPort spec) = Some p" and
    b: "bind_spec net spec l = Inr (l\<lparr>tl_sockets := tl_sockets l @ [\<lparr>sk_port = p, sk_open = True\<rparr>],
      tl_listeners := (tl_listeners l)(ls_name spec \<mapsto> length (tl_sockets l)),
      tl_loops := tl_loops l @ [(ls_name spec, length (tl_sockets l))]\<rparr>)"
    using Cons.prems by (auto simp: bind_spec_def Let_def split: if_splits option.splits)
  let ?n = "length (tl_sockets l)"
  let ?l1 = "l\<lparr>tl_sockets := tl_sockets l @ [\<lparr>sk_port = p, sk_open = True\<rparr>],
      tl_listeners := (tl_listeners l)(ls_name spec \<mapsto> ?n), tl_loops := tl_loops l @ [(ls_name spec, ?n)]\<rparr>"
  have "tl_start ord net specs ?l1 = (None, l')"
    using Cons.prems b by simp
  note IH = Cons.IH [OF this]
  have first: "tl_sockets l' ! ?n = \<lparr>sk_port = p, sk_open = True\<rparr>" "take ?n (tl_sockets l') = tl_sockets l"
  proof -
    have t: "take (Suc ?n) (tl_sockets l') = tl_sockets l @ [\<lparr>sk_port = p, sk_open = True\<rparr>]"
      using IH by simp
    have "tl_sockets l' ! ?n = take (Suc ?n) (tl_sockets l') ! ?n"
      by simp
    then show "tl_sockets l' ! ?n = \<lparr>sk_port = p, sk_open = True\<rparr>"
      using t by simp
    have "take ?n (tl_sockets l') = take ?n (take (Suc ?n) (tl_sockets l'))"
      by simp
    then show "take ?n (tl_sockets l') = tl_sockets l"
      using t by simp
  qed
  show ?case
    using IH first p by (simp add: less_Suc_eq_0_disj all_conj_distrib) fastforce
qed

lemma drop_eq_Cons_iff: "y # ys = drop n xs \<longleftrightarrow> n < length xs \<and> xs ! n = y \<and> ys = drop (Suc n) xs"
  by (metis Cons_nth_drop_Suc drop_all list.distinct(1) list.inject not_less)

lemma not_closed_start: "tl_start ord net specs l = (None, l') \<Longrightarrow> tl_closed l' = tl_closed l"
  by (induction specs arbitrary: l)
    (fastforce simp: bind_spec_def Let_def split: if_splits option.splits sum.splits)+

text \<open>The table holds, for each name, the last socket bound under it.\<close>

lemma tl_start_listeners:
  assumes "tl_start ord net specs l = (None, l')" and "tl_listeners l' n = Some i"
  shows "n \<notin> set (map ls_name specs) \<and> tl_listeners l n = Some i \<or>
    (\<exists>k < length specs. i = length (tl_sockets l) + k \<and> ls_name (specs ! k) = n \<and>
       (\<forall>k'. k < k' \<longrightarrow> k' < length specs \<longrightarrow> ls_name (specs ! k') \<noteq> n))"
  using assms
proof (induction specs arbitrary: l)
  case (Cons spec specs)
  obtain l1 where b: "bind_spec net spec l = Inr l1" and s: "tl_start ord net specs l1 = (None, l')"
    using Cons.prems(1) by (auto split: sum.splits)
  have l1: "length (tl_sockets l1) = Suc (length (tl_sockets l))"
    "tl_listeners l1 = (tl_listeners l)(ls_name spec \<mapsto> length (tl_sockets l))"
    using b by (auto simp: bind_spec_def Let_def split: if_splits option.splits)
  from Cons.IH [OF s Cons.prems(2)] show ?case
  proof
    assume n: "n \<notin> set (map ls_name specs) \<and> tl_listeners l1 n = Some i"
    have "ls_name (specs ! k) \<noteq> n" if "k < length specs" for k
      using n that by auto
    then show ?thesis
      using n l1 by (auto simp: nth_Cons' split: if_splits)
  next
    assume "\<exists>k < length specs. i = length (tl_sockets l1) + k \<and> ls_name (specs ! k) = n \<and>
        (\<forall>k'. k < k' \<longrightarrow> k' < length specs \<longrightarrow> ls_name (specs ! k') \<noteq> n)"
    then obtain k where k: "k < length specs" "i = length (tl_sockets l1) + k" "ls_name (specs ! k) = n"
      "\<forall>k'. k < k' \<longrightarrow> k' < length specs \<longrightarrow> ls_name (specs ! k') \<noteq> n"
      by blast
    then show ?thesis
      using l1 by (intro disjI2 exI [of _ "Suc k"]) (auto simp: nth_Cons')
  qed
qed simp

lemma tl_inv_new: "tl_inv NewTCPListener"
  by (simp add: tl_inv_def NewTCPListener_def)

lemma tl_start_inv:
  assumes "tl_start ord net specs l = (e, l')" and "tl_inv l" and "\<not> tl_closed l"
    and "distinct (map ls_name specs)" and "dom (tl_listeners l) \<inter> set (map ls_name specs) = {}"
    and "range_order names ord" and "dom (tl_listeners l) \<union> set (map ls_name specs) \<subseteq> set names"
  shows "dom (tl_listeners l') \<subseteq> set names \<and>
    (case e of None \<Rightarrow> tl_inv l' \<and> \<not> tl_closed l'
     | Some _ \<Rightarrow> \<forall>s \<in> set (tl_sockets l'). \<not> sk_open s)"
  using assms
proof (induction specs arbitrary: l)
  case (Cons spec specs)
  show ?case
  proof (cases "bind_spec net spec l")
    case (Inl x)
    have "visits (ord (tl_listeners l)) (tl_listeners l)"
      using Cons.prems(6,7) by (simp add: range_order_def)
    from tl_close_closes [where ord = ord, OF Cons.prems(2) this] show ?thesis
      using Cons.prems(1,7) Inl by auto
  next
    case (Inr l1)
    have "ls_name spec \<notin> dom (tl_listeners l)"
      using Cons.prems(5) by auto
    from bind_spec_inv [OF Cons.prems(2) Inr this Cons.prems(3)] show ?thesis
      using Cons.IH [of l1] Cons.prems Inr by auto
  qed
qed simp

section \<open>Properties of the listener\<close>

text \<open>When \<open>Start\<close> succeeds every spec has an open socket, on the port the
  operating system gave for the spec's local port, with an accept loop under the spec's name; with
  different names \<open>BoundPorts\<close> is the table of exactly these ports.\<close>

lemma start_binds_all:
  assumes "tl_start ord net specs NewTCPListener = (None, l)"
  shows "length (tl_sockets l) = length specs \<and>
    (\<forall>k < length specs. sk_open (tl_sockets l ! k) \<and>
       net k (ls_localPort (specs ! k)) = Some (sk_port (tl_sockets l ! k))) \<and>
    (distinct (map ls_name specs) \<longrightarrow>
       dom (BoundPorts l) = set (map ls_name specs) \<and>
       (\<forall>k < length specs. BoundPorts l (ls_name (specs ! k)) = net k (ls_localPort (specs ! k))))"
proof -
  have l0: "length (tl_sockets NewTCPListener) = 0" "tl_listeners NewTCPListener = Map.empty"
    by (simp_all add: NewTCPListener_def)
  note s = tl_start_ok [OF assms, unfolded l0]
  have "dom (tl_listeners l) = set (map ls_name specs)"
    if "\<forall>k < length specs. tl_listeners l (ls_name (specs ! k)) = Some k"
    using that s by (auto simp: in_set_conv_nth dom_def)
  then show ?thesis
    using s by (auto simp: BoundPorts_def dom_def)
qed

definition two_specs :: "listenSpec list" where
  "two_specs = [\<lparr>ls_name = ''http'', ls_localPort = 0, ls_remotePort = 80\<rparr>,
                \<lparr>ls_name = ''ssh'', ls_localPort = 2222, ls_remotePort = 22\<rparr>]"

definition two_order :: order where
  "two_order m = filter (\<lambda>n. m n \<noteq> None) [''http'', ''ssh'']"

definition free_ports :: net where
  "free_ports k p = (if p = 0 then Some (40000 + k) else Some (nat p))"

lemma two_order_ok: "range_order [''http'', ''ssh''] two_order"
  by (auto simp: range_order_def visits_def two_order_def)

lemma two_specs_start:
  "\<exists>l. tl_start two_order free_ports two_specs NewTCPListener = (None, l)"
  by (simp add: two_specs_def bind_spec_def valid_port_def free_ports_def Let_def)

text \<open>A \<open>Start\<close> that fails leaves nothing behind: whichever spec could not be resolved
  or bound, every socket bound before it is closed when \<open>Start\<close> returns the error (for specs with
  different names, as the configuration requires).\<close>

lemma failed_start_closes:
  assumes "tl_start ord net specs NewTCPListener = (Some e, l)"
    and "distinct (map ls_name specs)" and "range_order (map ls_name specs) ord"
  shows "\<forall>s \<in> set (tl_sockets l). \<not> sk_open s"
  using tl_start_inv [OF assms(1) tl_inv_new _ assms(2) _ assms(3)]
  by (simp add: NewTCPListener_def)

definition busy_net :: net where
  "busy_net k p = (if p = 2222 then None else Some 40000)"

text \<open>A socket that \<open>Close\<close> reaches is in the table, and the table keeps one socket of a name.\<close>

lemma closed_in_table:
  assumes "tl_start ord net specs NewTCPListener = (None, l)" and "range_order (map ls_name specs) ord"
    and "\<forall>s \<in> set (tl_sockets (tl_close ord l)). \<not> sk_open s" and "i < length specs"
  shows "i \<in> ran (tl_listeners l)"
proof -
  let ?ks = "List.map_filter (tl_listeners l) (ord (tl_listeners l))"
  have l0: "length (tl_sockets NewTCPListener) = 0" "tl_listeners NewTCPListener = Map.empty"
    by (simp_all add: NewTCPListener_def)
  have "dom (tl_listeners l) \<subseteq> set (map ls_name specs)"
    using tl_start_listeners [OF assms(1), unfolded l0] by fastforce
  then have "visits (ord (tl_listeners l)) (tl_listeners l)"
    using assms(2) by (simp add: range_order_def)
  note keys = set_map_filter_visits [OF this]
  have i: "sk_open (tl_sockets l ! i)" "i < length (tl_sockets l)" "\<not> tl_closed l"
    using tl_start_ok [OF assms(1), unfolded l0] assms(4) not_closed_start [OF assms(1)]
    by (simp_all add: NewTCPListener_def)
  then have "\<not> sk_open (foldl close_socket (tl_sockets l) ?ks ! i)"
    using assms(3) close_sockets [of "tl_sockets l" ?ks] by (simp add: tl_close_def all_set_conv_all_nth)
  then show ?thesis
    using i close_sockets [of "tl_sockets l" ?ks] keys by simp
qed

text \<open>C26 (safety): \<open>Close\<close> after a successful \<open>Start\<close> closes every socket exactly when the specs
  have different names: the table keeps one socket per name, so a repeated name leaves the earlier
  socket open and its accept loop running.\<close>

theorem close_closes_iff_distinct:
  assumes "tl_start ord net specs NewTCPListener = (None, l)"
    and "range_order (map ls_name specs) ord"
  shows "(\<forall>s \<in> set (tl_sockets (tl_close ord l)). \<not> sk_open s) \<longleftrightarrow> distinct (map ls_name specs)"
proof
  assume "distinct (map ls_name specs)"
  then have l: "tl_inv l" "dom (tl_listeners l) \<subseteq> set (map ls_name specs)"
    using tl_start_inv [OF assms(1) tl_inv_new _ _ _ assms(2)] by (simp_all add: NewTCPListener_def)
  then show "\<forall>s \<in> set (tl_sockets (tl_close ord l)). \<not> sk_open s"
    using tl_close_closes [where ord = ord, OF l(1)] assms(2) by (simp add: range_order_def)
next
  assume closed: "\<forall>s \<in> set (tl_sockets (tl_close ord l)). \<not> sk_open s"
  have l0: "length (tl_sockets NewTCPListener) = 0" "tl_listeners NewTCPListener = Map.empty"
    by (simp_all add: NewTCPListener_def)
  have "ls_name (specs ! j) \<noteq> ls_name (specs ! i)" if i: "i < length specs" and j: "i < j" "j < length specs" for i j
  proof -
    obtain n where "tl_listeners l n = Some i"
      using closed_in_table [OF assms closed i] by (auto simp: ran_def)
    from tl_start_listeners [OF assms(1) this, unfolded l0] show ?thesis
      using j by auto
  qed
  then show "distinct (map ls_name specs)"
    by (auto simp: distinct_conv_nth) (metis nat_neq_iff)
qed

theorem close_closes_iff_distinct_witness:
  "\<exists>l. tl_start two_order free_ports two_specs NewTCPListener = (None, l) \<and>
     (\<forall>s \<in> set (tl_sockets (tl_close two_order l)). \<not> sk_open s)"
proof -
  obtain l where l: "tl_start two_order free_ports two_specs NewTCPListener = (None, l)"
    using two_specs_start by blast
  have "distinct (map ls_name two_specs)" "range_order (map ls_name two_specs) two_order"
    using two_order_ok by (simp_all add: two_specs_def)
  then show ?thesis
    using close_closes_iff_distinct [OF l] l by blast
qed

text \<open>The streams opened so far carry their headers, in order.\<close>

definition tagged :: "nat \<Rightarrow> string \<Rightarrow> u64 \<Rightarrow> (io_error + writer) list \<Rightarrow> writer list \<Rightarrow> bool" where
  "tagged n name sid opens streams \<longleftrightarrow>
     (\<forall>k < length streams. \<exists>w h. opens ! k = Inr w \<and> header_ok h \<and> wout (streams ! k) = wout w @ header_bytes h \<and>
        h = \<lparr>tag = name, sessionID = sid, stripeIdx = of_nat k, numStripes = of_nat n\<rparr>)"

lemma tagged_snoc:
  assumes "tagged n name sid opens streams" and "opens ! length streams = Inr w"
    and "writeStreamHeader w \<lparr>tag = name, sessionID = sid, stripeIdx = of_nat (length streams), numStripes = of_nat n\<rparr> =
      (None, w')" and "(of_nat n :: u8) \<noteq> 0"
  shows "tagged n name sid opens (streams @ [w'])"
proof -
  let ?h = "\<lparr>tag = name, sessionID = sid, stripeIdx = of_nat (length streams), numStripes = of_nat n\<rparr>"
  have "header_ok ?h" "wout w' = wout w @ header_bytes ?h"
    using writeStreamHeader_NoneD [OF assms(3)] assms(4) by (simp_all add: header_ok_def)
  then show ?thesis
    using assms(1,2) by (auto simp: tagged_def nth_append less_Suc_eq)
qed

lemma open_stripes_from:
  assumes "(of_nat n :: u8) \<noteq> 0" and "rest = drop (length streams) opens" and "length streams \<le> n"
    and "tagged n name sid opens streams"
  shows "case open_stripes n name sid rest streams of
      Pumping ss \<Rightarrow> length ss = n \<and> tagged n name sid opens ss
    | Aborted ss cl \<Rightarrow> cl = {..<length ss}"
  using assms
proof (induction n name sid rest streams rule: open_stripes.induct)
  case (1 n name sid rest streams)
  show ?case
  proof (cases "n \<le> length streams \<or> (\<nexists>w rest'. rest = Inr w # rest')")
    case True
    then consider "n = length streams" | "\<not> n \<le> length streams" "rest = []"
      | e rest' where "\<not> n \<le> length streams" "rest = Inl e # rest'"
      using "1.prems"(3) by (cases rest; cases "hd rest") auto
    then show ?thesis
      using "1.prems"(4) by cases simp_all
  next
    case False
    then obtain w rest' where rest: "rest = Inr w # rest'"
      by blast
    let ?h = "\<lparr>tag = name, sessionID = sid, stripeIdx = of_nat (length streams), numStripes = of_nat n\<rparr>"
    obtain e w' where e: "writeStreamHeader w ?h = (e, w')"
      by (cases "writeStreamHeader w ?h")
    have drop: "opens ! length streams = Inr w" "rest' = drop (Suc (length streams)) opens"
      using rest "1.prems"(2) drop_eq_Cons_iff [of "Inr w" rest' "length streams" opens] by simp_all
    show ?thesis
    proof (cases e)
      case (Some x)
      then show ?thesis
        using False rest e by (simp add: lessThan_Suc)
    next
      case None
      then have "tagged n name sid opens (streams @ [w'])"
        using tagged_snoc [OF "1.prems"(4) drop(1)] e "1.prems"(1) by simp
      then show ?thesis
        using "1.IH" [of "Inr w" rest' w e w'] False rest e None "1.prems" drop(2) by simp
    qed
  qed
qed

text \<open>C25 (functional): \<open>handle\<close> either pumps on all its streams, stream \<open>k\<close> carrying exactly the
  header with number \<open>k\<close> of \<open>n\<close> (which the other side can read), or it pumps on none and has
  closed every stream it opened; and a session id is never the reserved 0.\<close>

theorem handle_all_or_nothing:
  assumes "0 < n" and "n < 256"
  shows "session_id r \<noteq> 0 \<and>
    (case open_stripes n name (session_id r) opens [] of
       Pumping ss \<Rightarrow> length ss = n \<and>
         (\<forall>k < n. \<exists>w h. opens ! k = Inr w \<and> header_ok h \<and> wout (ss ! k) = wout w @ header_bytes h \<and>
            h = \<lparr>tag = name, sessionID = session_id r, stripeIdx = of_nat k, numStripes = of_nat n\<rparr>)
     | Aborted ss cl \<Rightarrow> cl = {..<length ss})"
proof -
  have "(of_nat n :: u8) \<noteq> 0"
    using assms by (auto dest: arg_cong [of _ _ unat] simp: word_simps)
  then have "case open_stripes n name (session_id r) opens [] of
      Pumping ss \<Rightarrow> length ss = n \<and> tagged n name (session_id r) opens ss
    | Aborted ss cl \<Rightarrow> cl = {..<length ss}"
    by (intro open_stripes_from) (simp_all add: tagged_def)
  moreover have "session_id r \<noteq> 0"
    by (simp add: session_id_def)
  ultimately show ?thesis
    by (cases "open_stripes n name (session_id r) opens []") (simp_all add: tagged_def del: open_stripes.simps)
qed

theorem handle_all_or_nothing_witness:
  "\<exists>w. open_stripes 1 ''http'' (session_id 0) [Inr sample_writer] [] = Pumping [w] \<and>
     wout w = header_bytes \<lparr>tag = ''http'', sessionID = 1, stripeIdx = 0, numStripes = 1\<rparr>"
proof -
  have "\<exists>w. open_stripes 1 ''http'' (session_id 0) [Inr sample_writer] [] = Pumping [w]"
    by (simp add: writeStreamHeader_def maxTagLen_def io_simps sample_writer_def)
  then show ?thesis
    using handle_all_or_nothing [where n = 1 and r = 0 and name = "''http''" and opens = "[Inr sample_writer]"]
    by (auto simp: session_id_def sample_writer_def)
qed

end
