(* ===== verification/Config.thy ===== *)
theory Config
  imports Prelude "HOL-Library.Char_ord"
begin

text \<open>
  The configuration file (\<open>internal/config/config.go\<close>): its types, \<open>Other\<close>, \<open>applyDefaults\<close>,
  \<open>validate\<close> and \<open>Load\<close>. Environment expansion (\<open>os.ExpandEnv\<close>) is modelled; reading the file,
  the environment and the JSON decoder are parameters of \<open>Load\<close>. The order in which Go ranges
  over the map of peers is a parameter of \<open>validate\<close>.
\<close>

section \<open>Types\<close>

record cfgListen =
  cl_localPort :: int
  cl_remotePort :: int
  cl_name :: string

record cfgDial =
  cd_localPort :: int
  cd_name :: string

record cfgPeer =
  pe_listen :: "cfgListen list"
  pe_dial :: "cfgDial list"

record turnServer =
  turn_uri :: string
  turn_user :: string
  turn_pass :: string

record iceConfig =
  ic_stun :: "string list"
  ic_turn :: "turnServer list"

record signalingConfig =
  sg_url :: string
  sg_sharedSecret :: string

record config =
  cfg_sessionID :: string
  cfg_signaling :: signalingConfig
  cfg_ice :: iceConfig
  cfg_peers :: "string \<rightharpoonup> cfgPeer"

definition RolePeerA :: string where
  "RolePeerA = ''peer-a''"

definition RolePeerB :: string where
  "RolePeerB = ''peer-b''"

lemma roles_differ [simp]: "RolePeerA \<noteq> RolePeerB" "RolePeerB \<noteq> RolePeerA"
  by (simp_all add: RolePeerA_def RolePeerB_def)

definition Other :: "string \<Rightarrow> string" where
  "Other role = (if role = RolePeerA then RolePeerB else RolePeerA)"

section \<open>Environment expansion\<close>

text \<open>
  \<open>os.Expand\<close>: \<open>$name\<close> and \<open>${name}\<close> are replaced by the mapping's value; bad syntax is eaten, a
  dollar sign that no name follows stays. \<open>getShellName\<close> returns the name and how many
  characters after the dollar sign belong to it.
\<close>

definition isShellSpecialVar :: "char \<Rightarrow> bool" where
  "isShellSpecialVar c \<longleftrightarrow> c \<in> set ''*#$@!?-0123456789''"

definition between :: "char \<Rightarrow> char \<Rightarrow> char \<Rightarrow> bool" where
  "between lo hi c \<longleftrightarrow> lo \<le> c \<and> c \<le> hi"

definition isAlphaNum :: "char \<Rightarrow> bool" where
  "isAlphaNum c \<longleftrightarrow> c = CHR ''_'' \<or> between CHR ''0'' CHR ''9'' c \<or>
     between CHR ''a'' CHR ''z'' c \<or> between CHR ''A'' CHR ''Z'' c"

definition getShellName :: "string \<Rightarrow> string \<times> nat" where
  "getShellName s =
     (case s of
        [] \<Rightarrow> ([], 0)
      | c # cs \<Rightarrow>
          if c = CHR ''{'' then
            (if length cs > 1 \<and> isShellSpecialVar (cs ! 0) \<and> cs ! 1 = CHR ''}'' then (take 1 cs, 3)
             else
               let name = takeWhile (\<lambda>x. x \<noteq> CHR ''}'') cs in
               if length name = length cs then ([], 1)
               else if name = [] then ([], 2)
               else (name, length name + 2))
          else if isShellSpecialVar c then ([c], 1)
          else (let name = takeWhile isAlphaNum s in (name, length name)))"

function os_Expand :: "(string \<Rightarrow> string) \<Rightarrow> string \<Rightarrow> string" where
  "os_Expand env [] = []"
| "os_Expand env (c # cs) =
     (if c = CHR ''$'' \<and> cs \<noteq> [] then
        (case getShellName cs of (name, w) \<Rightarrow>
           (if name = [] \<and> w > 0 then [] else if name = [] then [c] else env name) @
           os_Expand env (drop w cs))
      else c # os_Expand env cs)"
  by pat_completeness auto
termination
  by (relation "measure (\<lambda>(env, s). length s)") auto

section \<open>Defaults and validation\<close>

definition defaultSTUN :: "string list" where
  "defaultSTUN =
     [''stun.cloudflare.com:3478'', ''stun.l.google.com:19302'', ''stun.nextcloud.com:443'']"

definition applyDefaults :: "config \<Rightarrow> config" where
  "applyDefaults cfg =
     (if length (ic_stun (cfg_ice cfg)) = 0
      then cfg\<lparr>cfg_ice := (cfg_ice cfg)\<lparr>ic_stun := defaultSTUN\<rparr>\<rparr>
      else cfg)"

datatype config_error =
    SessionIDRequired
  | SignalingURLRequired
  | UnknownRole string
  | PeerMissing string
  | EmptyListenName string
  | EmptyDialName string
  | DuplicateName string string

text \<open>One pass over the entries of a peer with the set \<open>seen\<close> of names.\<close>

fun check_names :: "(string \<Rightarrow> config_error) \<Rightarrow> string \<Rightarrow> string list \<Rightarrow> string set \<Rightarrow> config_error + string set" where
  "check_names bad role [] seen = Inr seen"
| "check_names bad role (n # ns) seen =
     (if n = [] then Inl (bad role)
      else if n \<in> seen then Inl (DuplicateName role n)
      else check_names bad role ns (insert n seen))"

definition check_peer :: "string \<Rightarrow> cfgPeer \<Rightarrow> config_error option" where
  "check_peer role p =
     (case check_names EmptyListenName role (map cl_name (pe_listen p)) {} of
        Inl e \<Rightarrow> Some e
      | Inr seen \<Rightarrow>
          case check_names EmptyDialName role (map cd_name (pe_dial p)) seen of
            Inl e \<Rightarrow> Some e
          | Inr _ \<Rightarrow> None)"

text \<open>The first error of a check over the keys of a map, in the order of the range.\<close>

fun first_error :: "('k \<Rightarrow> 'e option) \<Rightarrow> 'k list \<Rightarrow> 'e option" where
  "first_error f [] = None"
| "first_error f (k # ks) = (case f k of Some e \<Rightarrow> Some e | None \<Rightarrow> first_error f ks)"

text \<open>\<open>ks\<close> and \<open>ks'\<close> are the orders of the two ranges over \<open>cfg.Peers\<close>.\<close>

definition validate :: "string list \<Rightarrow> string list \<Rightarrow> config \<Rightarrow> config_error option" where
  "validate ks ks' cfg =
     (if cfg_sessionID cfg = [] then Some SessionIDRequired
      else if sg_url (cfg_signaling cfg) = [] then Some SignalingURLRequired
      else case first_error (\<lambda>role. if role \<noteq> RolePeerA \<and> role \<noteq> RolePeerB
                                    then Some (UnknownRole role) else None) ks of
        Some e \<Rightarrow> Some e
      | None \<Rightarrow>
          if cfg_peers cfg RolePeerA = None then Some (PeerMissing RolePeerA)
          else if cfg_peers cfg RolePeerB = None then Some (PeerMissing RolePeerB)
          else first_error (\<lambda>role. check_peer role (the (cfg_peers cfg role))) ks')"

datatype load_error = ReadConfig nat | ParseConfig nat | Invalid config_error

definition Load ::
    "(string \<Rightarrow> nat + string) \<Rightarrow> (string \<Rightarrow> string) \<Rightarrow> (string \<Rightarrow> nat + config) \<Rightarrow>
     (config \<Rightarrow> string list \<times> string list) \<Rightarrow> string \<Rightarrow> load_error + config" where
  "Load readFile env unmarshal orders path =
     (case readFile path of
        Inl e \<Rightarrow> Inl (ReadConfig e)
      | Inr raw \<Rightarrow>
          case unmarshal (os_Expand env raw) of
            Inl e \<Rightarrow> Inl (ParseConfig e)
          | Inr cfg0 \<Rightarrow>
              let cfg = applyDefaults cfg0 in
              case orders cfg of (ks, ks') \<Rightarrow>
                case validate ks ks' cfg of
                  Some e \<Rightarrow> Inl (Invalid e)
                | None \<Rightarrow> Inr cfg)"

section \<open>What a valid configuration is\<close>

definition peer_names :: "cfgPeer \<Rightarrow> string list" where
  "peer_names p = map cl_name (pe_listen p) @ map cd_name (pe_dial p)"

definition valid_config :: "config \<Rightarrow> bool" where
  "valid_config cfg \<longleftrightarrow>
     cfg_sessionID cfg \<noteq> [] \<and> sg_url (cfg_signaling cfg) \<noteq> [] \<and>
     dom (cfg_peers cfg) = {RolePeerA, RolePeerB} \<and>
     (\<forall>p \<in> ran (cfg_peers cfg). distinct (peer_names p) \<and> [] \<notin> set (peer_names p))"

lemma check_names_ok:
  "check_names bad role ns seen = Inr seen' \<longleftrightarrow>
     [] \<notin> set ns \<and> distinct ns \<and> set ns \<inter> seen = {} \<and> seen' = seen \<union> set ns"
  by (induction ns arbitrary: seen) auto

lemma check_peer_ok: "check_peer role p = None \<longleftrightarrow> distinct (peer_names p) \<and> [] \<notin> set (peer_names p)"
proof -
  let ?l = "check_names EmptyListenName role (map cl_name (pe_listen p)) {}"
  show ?thesis
  proof (cases ?l)
    case (Inl e)
    then have "\<not> ([] \<notin> set (map cl_name (pe_listen p)) \<and> distinct (map cl_name (pe_listen p)))"
      using check_names_ok [of EmptyListenName role "map cl_name (pe_listen p)" "{}"] by auto
    then show ?thesis
      using Inl by (auto simp: check_peer_def peer_names_def)
  next
    case (Inr seen)
    then have l: "[] \<notin> set (map cl_name (pe_listen p))" "distinct (map cl_name (pe_listen p))"
      "seen = set (map cl_name (pe_listen p))"
      using check_names_ok [of EmptyListenName role "map cl_name (pe_listen p)" "{}" seen] by auto
    have "check_peer role p = None \<longleftrightarrow> (\<exists>s. check_names EmptyDialName role (map cd_name (pe_dial p)) seen = Inr s)"
      using Inr by (auto simp: check_peer_def split: sum.splits)
    also have "\<dots> \<longleftrightarrow> distinct (peer_names p) \<and> [] \<notin> set (peer_names p)"
      unfolding check_names_ok peer_names_def using l by auto
    finally show ?thesis .
  qed
qed

lemma first_error_None: "first_error f ks = None \<longleftrightarrow> (\<forall>k \<in> set ks. f k = None)"
  by (induction ks) (auto split: option.splits)

lemma first_error_SomeD: "first_error f ks = Some e \<Longrightarrow> \<exists>k \<in> set ks. f k = Some e"
  by (induction ks) (auto split: option.splits)

lemma validate_valid:
  assumes "visits ks (cfg_peers cfg)" and "visits ks' (cfg_peers cfg)"
  shows "validate ks ks' cfg = None \<longleftrightarrow> valid_config cfg"
proof -
  let ?m = "cfg_peers cfg"
  let ?roles = "first_error (\<lambda>role. if role \<noteq> RolePeerA \<and> role \<noteq> RolePeerB then Some (UnknownRole role) else None) ks"
  let ?names = "first_error (\<lambda>role. check_peer role (the (?m role))) ks'"
  have roles: "?roles = None \<longleftrightarrow> dom ?m \<subseteq> {RolePeerA, RolePeerB}"
    using assms(1) by (auto simp: first_error_None visits_def)
  have "?names = None \<longleftrightarrow> (\<forall>role \<in> dom ?m. check_peer role (the (?m role)) = None)"
    using assms(2) by (simp add: first_error_None visits_def)
  also have "\<dots> \<longleftrightarrow> (\<forall>p \<in> ran ?m. distinct (peer_names p) \<and> [] \<notin> set (peer_names p))"
    unfolding check_peer_ok ran_def dom_def by fastforce
  finally have names: "?names = None \<longleftrightarrow> \<dots>" .
  have "dom ?m = {RolePeerA, RolePeerB} \<longleftrightarrow>
      dom ?m \<subseteq> {RolePeerA, RolePeerB} \<and> ?m RolePeerA \<noteq> None \<and> ?m RolePeerB \<noteq> None"
    unfolding domIff [symmetric] by blast
  then have "valid_config cfg \<longleftrightarrow> cfg_sessionID cfg \<noteq> [] \<and> sg_url (cfg_signaling cfg) \<noteq> [] \<and>
      ?roles = None \<and> ?m RolePeerA \<noteq> None \<and> ?m RolePeerB \<noteq> None \<and> ?names = None"
    unfolding valid_config_def roles names by blast
  then show ?thesis
    by (cases ?roles) (simp_all add: validate_def)
qed

lemma expand_plain: "CHR ''$'' \<notin> set pre \<Longrightarrow> os_Expand env (pre @ s) = pre @ os_Expand env s"
  by (induction pre) auto

lemma getShellName_braced:
  assumes "name \<noteq> []" and "CHR ''}'' \<notin> set name"
  shows "getShellName (CHR ''{'' # name @ CHR ''}'' # post) = (name, length name + 2)"
proof -
  have "takeWhile (\<lambda>x. x \<noteq> CHR ''}'') (name @ CHR ''}'' # post) = name"
    using assms(2) by (subst takeWhile_append2) auto
  moreover obtain c cs where name: "name = c # cs"
    using assms(1) by (cases name) simp_all
  ultimately show ?thesis
  proof (cases cs)
    case Nil
    then show ?thesis
      using name assms(2) by (simp add: getShellName_def)
  next
    case (Cons d ds)
    then have "(name @ CHR ''}'' # post) ! 1 \<noteq> CHR ''}''"
      using name assms(2) by auto
    then show ?thesis
      using \<open>takeWhile _ _ = name\<close> name by (simp add: getShellName_def)
  qed
qed

section \<open>Properties of the configuration\<close>

text \<open>C23 (functional): in whatever orders Go ranges over the peers, \<open>validate\<close> accepts exactly the
  configurations with a session id, a signaling URL, the two roles \<open>peer-a\<close> and \<open>peer-b\<close> and no
  others, and stream names that are non-empty and different within each peer, \<open>listen\<close> and \<open>dial\<close>
  taken together. So acceptance does not depend on the order, although the error reported may. In
  particular a configuration that has only the peer's own half, which the README allows, is rejected.\<close>

theorem validate_iff:
  assumes "visits ks (cfg_peers cfg)" and "visits ks' (cfg_peers cfg)"
  shows "validate ks ks' cfg = None \<longleftrightarrow>
    cfg_sessionID cfg \<noteq> [] \<and> sg_url (cfg_signaling cfg) \<noteq> [] \<and>
    dom (cfg_peers cfg) = {RolePeerA, RolePeerB} \<and>
    (\<forall>role p. cfg_peers cfg role = Some p \<longrightarrow>
       distinct (map cl_name (pe_listen p) @ map cd_name (pe_dial p)) \<and>
       [] \<notin> set (map cl_name (pe_listen p) @ map cd_name (pe_dial p)))"
  unfolding validate_valid [OF assms] valid_config_def peer_names_def ran_def by blast

definition sample_peer :: "string \<Rightarrow> string \<Rightarrow> cfgPeer" where
  "sample_peer l d =
     \<lparr>pe_listen = [\<lparr>cl_localPort = 8080, cl_remotePort = 80, cl_name = l\<rparr>],
      pe_dial = [\<lparr>cd_localPort = 22, cd_name = d\<rparr>]\<rparr>"

definition sample_config :: config where
  "sample_config =
     \<lparr>cfg_sessionID = ''s'',
      cfg_signaling = \<lparr>sg_url = ''http://h'', sg_sharedSecret = []\<rparr>,
      cfg_ice = \<lparr>ic_stun = [], ic_turn = []\<rparr>,
      cfg_peers = [RolePeerA \<mapsto> sample_peer ''http'' ''ssh'', RolePeerB \<mapsto> sample_peer ''ssh'' ''ssh'']\<rparr>"

lemma sample_config_visits:
  "visits [RolePeerA, RolePeerB] (cfg_peers sample_config)"
  "visits [RolePeerB, RolePeerA] (cfg_peers sample_config)"
  by (auto simp: visits_def sample_config_def)

theorem validate_iff_witness:
  "validate [RolePeerA, RolePeerB] [RolePeerB, RolePeerA] sample_config \<noteq> None"
proof
  assume "validate [RolePeerA, RolePeerB] [RolePeerB, RolePeerA] sample_config = None"
  then have "cfg_peers sample_config RolePeerB = Some p \<Longrightarrow>
      distinct (map cl_name (pe_listen p) @ map cd_name (pe_dial p))" for p
    using validate_iff [OF sample_config_visits] by blast
  from this [of "sample_peer ''ssh'' ''ssh''"] show False
    by (simp add: sample_config_def sample_peer_def)
qed

text \<open>What \<open>Load\<close> returns is the decoded file with the default STUN servers filled
  in when it names none, and nothing else changed; it is valid, and it always has a STUN server.\<close>

lemma load_valid:
  assumes "Load readFile env unmarshal orders path = Inr cfg"
    and "visits (fst (orders cfg)) (cfg_peers cfg)" and "visits (snd (orders cfg)) (cfg_peers cfg)"
  shows "valid_config cfg \<and> ic_stun (cfg_ice cfg) \<noteq> [] \<and>
    (\<exists>raw cfg0. readFile path = Inr raw \<and> unmarshal (os_Expand env raw) = Inr cfg0 \<and>
       cfg = cfg0\<lparr>cfg_ice := (cfg_ice cfg0)\<lparr>ic_stun :=
         (if ic_stun (cfg_ice cfg0) = [] then defaultSTUN else ic_stun (cfg_ice cfg0))\<rparr>\<rparr>)"
proof -
  obtain raw cfg0 where r: "readFile path = Inr raw" "unmarshal (os_Expand env raw) = Inr cfg0"
    and c: "cfg = applyDefaults cfg0" "validate (fst (orders cfg)) (snd (orders cfg)) cfg = None"
    using assms(1) by (auto simp: Load_def Let_def split: sum.splits option.splits prod.splits)
  have "valid_config cfg"
    using validate_valid [OF assms(2,3)] c(2) by simp
  moreover have "cfg = cfg0\<lparr>cfg_ice := (cfg_ice cfg0)\<lparr>ic_stun :=
      (if ic_stun (cfg_ice cfg0) = [] then defaultSTUN else ic_stun (cfg_ice cfg0))\<rparr>\<rparr>"
    using c(1) by (simp add: applyDefaults_def)
  ultimately show ?thesis
    using r c(1) by (auto simp: applyDefaults_def defaultSTUN_def)
qed

definition good_config :: config where
  "good_config = sample_config\<lparr>cfg_peers := [RolePeerA \<mapsto> sample_peer ''http'' ''ssh'',
     RolePeerB \<mapsto> sample_peer ''ssh'' ''http'']\<rparr>"

lemma good_config_peers: "visits [RolePeerA, RolePeerB] (cfg_peers good_config)"
  by (auto simp: visits_def good_config_def)

text \<open>A braced reference to an environment variable in the file is replaced by its
  value, text in which no dollar sign occurs is left as it is, and what follows is expanded in
  turn (the value itself is not expanded again).\<close>

lemma expand_braced:
  assumes "CHR ''$'' \<notin> set pre" and "name \<noteq> []" and "CHR ''}'' \<notin> set name"
  shows "os_Expand env (pre @ ''${'' @ name @ ''}'' @ post) = pre @ env name @ os_Expand env post"
  using expand_plain [OF assms(1)] getShellName_braced [OF assms(2,3), of post] assms(2)
  by simp

end
