(* ===== verification/Signaling.thy ===== *)
theory Signaling
  imports Prelude
begin

text \<open>
  The signaling server (\<open>internal/signaling/server.go\<close>, \<open>types.go\<close>): an in-memory rendezvous for
  offers and answers behind an HTTP handler. The critical sections of the handlers are the store's
  operations, and what the peers rely on is stated as an interface (\<open>rendezvous\<close>) that the store
  interprets; the handlers, the middleware and the routing are one function from a request and a
  server to a response and a server.
\<close>

section \<open>The store\<close>

record offer =
  o_ufrag :: string
  o_pwd :: string
  o_candidates :: "string list"
  o_gen :: string

type_synonym answer = offer

record server =
  sv_secret :: string
  sv_offers :: "string \<rightharpoonup> offer"
  sv_answers :: "string \<rightharpoonup> answer"

definition NewServer :: "string \<Rightarrow> server" where
  "NewServer secret = \<lparr>sv_secret = secret, sv_offers = Map.empty, sv_answers = Map.empty\<rparr>"

definition offer_key :: "string \<Rightarrow> string \<Rightarrow> string" where
  "offer_key sess role = sess @ ''|'' @ role"

definition putOffer :: "string \<Rightarrow> string \<Rightarrow> offer \<Rightarrow> server \<Rightarrow> server" where
  "putOffer sess role off s =
     s\<lparr>sv_offers := (sv_offers s)(offer_key sess role \<mapsto> off),
       sv_answers := (sv_answers s)(sess := None)\<rparr>"

definition lookupOffer :: "string \<Rightarrow> string \<Rightarrow> server \<Rightarrow> offer option" where
  "lookupOffer sess role s = sv_offers s (offer_key sess role)"

definition putAnswer :: "string \<Rightarrow> answer \<Rightarrow> server \<Rightarrow> server" where
  "putAnswer sess ans s = s\<lparr>sv_answers := (sv_answers s)(sess \<mapsto> ans)\<rparr>"

definition lookupAnswer :: "string \<Rightarrow> server \<Rightarrow> answer option" where
  "lookupAnswer sess s = sv_answers s sess"

definition HasPrefix :: "string \<Rightarrow> string \<Rightarrow> bool" where
  "HasPrefix s p \<longleftrightarrow> take (length p) s = p"

definition Clear :: "string \<Rightarrow> server \<Rightarrow> server" where
  "Clear sess s =
     s\<lparr>sv_offers := (\<lambda>k. if HasPrefix k (sess @ ''|'') then None else sv_offers s k),
       sv_answers := (sv_answers s)(sess := None)\<rparr>"

section \<open>The interface the peers rely on\<close>

text \<open>
  A rendezvous stores offers by session and role and answers by session. What is read was the last
  thing posted, a new offer takes the session's answer away, and well-named sessions do not
  disturb each other.
\<close>

locale rendezvous =
  fixes post_offer :: "'sid \<Rightarrow> 'role \<Rightarrow> 'o \<Rightarrow> 's \<Rightarrow> 's"
    and get_offer :: "'sid \<Rightarrow> 'role \<Rightarrow> 's \<Rightarrow> 'o option"
    and post_answer :: "'sid \<Rightarrow> 'a \<Rightarrow> 's \<Rightarrow> 's"
    and get_answer :: "'sid \<Rightarrow> 's \<Rightarrow> 'a option"
    and named :: "'sid \<Rightarrow> bool"
  assumes offer_offer: "named i \<Longrightarrow> named j \<Longrightarrow> get_offer i r (post_offer j q x s) =
      (if i = j \<and> r = q then Some x else get_offer i r s)"
    and answer_offer: "get_answer i (post_offer j q x s) = (if i = j then None else get_answer i s)"
    and offer_answer: "get_offer i r (post_answer j y s) = get_offer i r s"
    and answer_answer: "get_answer i (post_answer j y s) = (if i = j then Some y else get_answer i s)"
begin

lemmas reads = offer_offer answer_offer offer_answer answer_answer

lemma latest_offer: "named i \<Longrightarrow> get_offer i r (post_offer i r x s) = Some x"
  by (simp add: reads)

lemma offer_withdraws_answer: "get_answer i (post_offer i q x s) = None"
  by (simp add: reads)

text \<open>The posts of other sessions, in any number and order, are not seen.\<close>

lemma sessions_separate:
  assumes "named i" and "\<forall>f \<in> set fs. \<exists>j. named j \<and> j \<noteq> i \<and>
      ((\<exists>q x. f = post_offer j q x) \<or> (\<exists>y. f = post_answer j y))"
  shows "get_offer i r (fold id fs s) = get_offer i r s \<and> get_answer i (fold id fs s) = get_answer i s"
  using assms(2)
proof (induction fs arbitrary: s)
  case (Cons f fs)
  then obtain j where "named j" "j \<noteq> i" "(\<exists>q x. f = post_offer j q x) \<or> (\<exists>y. f = post_answer j y)"
    by auto
  then have "get_offer i r (f s) = get_offer i r s" "get_answer i (f s) = get_answer i s"
    using assms(1) by (auto simp: reads)
  then show ?case
    using Cons.IH [of "f s"] Cons.prems by simp
qed simp

end

text \<open>Keys are built with a bar: the store is a rendezvous for session ids without one.\<close>

definition no_bar :: "string \<Rightarrow> bool" where
  "no_bar sess \<longleftrightarrow> CHR ''|'' \<notin> set sess"

lemma offer_key_inject:
  "no_bar i \<Longrightarrow> no_bar j \<Longrightarrow> offer_key i r = offer_key j q \<longleftrightarrow> i = j \<and> r = q"
proof (induction i arbitrary: j)
  case Nil
  then show ?case
    by (cases j) (auto simp: offer_key_def no_bar_def)
next
  case (Cons c i)
  then show ?case
    by (cases j) (auto simp: offer_key_def no_bar_def)
qed

interpretation sv: rendezvous putOffer lookupOffer putAnswer lookupAnswer no_bar
  by unfold_locales
    (auto simp: putOffer_def lookupOffer_def putAnswer_def lookupAnswer_def offer_key_inject)

section \<open>The HTTP handlers\<close>

text \<open>
  A request after the HTTP library has parsed it: method, path, the secret header (empty when
  absent, as \<open>Header.Get\<close> returns), the query's values and the body as the JSON decoder leaves it
  in the handler's struct (absent fields are zero values), or the decoder's error message.
\<close>

record json_body =
  jb_session :: string
  jb_role :: string
  jb_offer :: offer
  jb_answer :: answer

record request =
  rq_method :: string
  rq_path :: string
  rq_secret :: string
  rq_session :: string
  rq_role :: string
  rq_body :: "string + json_body"

datatype payload = NoBody | Text string | Json offer

record response =
  rp_status :: nat
  rp_body :: payload

definition http_error :: "nat \<Rightarrow> string \<Rightarrow> response" where
  "http_error code msg = \<lparr>rp_status = code, rp_body = Text msg\<rparr>"

definition not_found :: response where
  "not_found = http_error 404 ''404 page not found''"

definition no_content :: response where
  "no_content = \<lparr>rp_status = 204, rp_body = NoBody\<rparr>"

definition writeJSON :: "offer \<Rightarrow> response" where
  "writeJSON v = \<lparr>rp_status = 200, rp_body = Json v\<rparr>"

definition handleOffer :: "request \<Rightarrow> server \<Rightarrow> response \<times> server" where
  "handleOffer r s =
     (if rq_method r = ''POST'' then
        (case rq_body r of
           Inl err \<Rightarrow> (http_error 400 err, s)
         | Inr b \<Rightarrow>
             if jb_session b = [] \<or> jb_role b = []
             then (http_error 400 ''session_id and role required'', s)
             else (no_content, putOffer (jb_session b) (jb_role b) (jb_offer b) s))
      else if rq_method r = ''GET'' then
        (if rq_session r = [] \<or> rq_role r = []
         then (http_error 400 ''session_id and role required'', s)
         else case lookupOffer (rq_session r) (rq_role r) s of
                None \<Rightarrow> (not_found, s)
              | Some off \<Rightarrow> (writeJSON off, s))
      else (http_error 405 ''method not allowed'', s))"

definition handleAnswer :: "request \<Rightarrow> server \<Rightarrow> response \<times> server" where
  "handleAnswer r s =
     (if rq_method r = ''POST'' then
        (case rq_body r of
           Inl err \<Rightarrow> (http_error 400 err, s)
         | Inr b \<Rightarrow>
             if jb_session b = [] then (http_error 400 ''session_id required'', s)
             else (no_content, putAnswer (jb_session b) (jb_answer b) s))
      else if rq_method r = ''GET'' then
        (if rq_session r = [] then (http_error 400 ''session_id required'', s)
         else case lookupAnswer (rq_session r) s of
                None \<Rightarrow> (not_found, s)
              | Some ans \<Rightarrow> (writeJSON ans, s))
      else (http_error 405 ''method not allowed'', s))"

text \<open>\<open>http.ServeMux\<close> on clean paths: the two exact patterns, the subtree, and nothing else.\<close>

definition mux :: "request \<Rightarrow> server \<Rightarrow> response \<times> server" where
  "mux r s =
     (if rq_path r = ''/punch/offer'' then handleOffer r s
      else if rq_path r = ''/punch/answer'' then handleAnswer r s
      else (not_found, s))"

definition authMiddleware ::
    "(request \<Rightarrow> server \<Rightarrow> response \<times> server) \<Rightarrow> request \<Rightarrow> server \<Rightarrow> response \<times> server" where
  "authMiddleware h r s =
     (if sv_secret s \<noteq> [] \<and> rq_secret r \<noteq> sv_secret s
      then (http_error 401 ''unauthorized'', s)
      else h r s)"

definition Handler :: "request \<Rightarrow> server \<Rightarrow> response \<times> server" where
  "Handler = authMiddleware mux"

text \<open>The session a request is about: that of its body when it posts, of its query otherwise.\<close>

definition request_session :: "request \<Rightarrow> string" where
  "request_session r =
     (if rq_method r = ''POST'' then (case rq_body r of Inl _ \<Rightarrow> [] | Inr b \<Rightarrow> jb_session b)
      else rq_session r)"

fun serve :: "request list \<Rightarrow> server \<Rightarrow> response list \<times> server" where
  "serve [] s = ([], s)"
| "serve (r # rs) s =
     (case Handler r s of (p, s1) \<Rightarrow> case serve rs s1 of (ps, s2) \<Rightarrow> (p # ps, s2))"

lemma serve_Cons: "serve (r # rs) s =
    (fst (Handler r s) # fst (serve rs (snd (Handler r s))), snd (serve rs (snd (Handler r s))))"
  by (simp split: prod.split)

declare serve.simps(2) [simp del]

lemma put_secret [simp]:
  "sv_secret (putOffer sess role off s) = sv_secret s" "sv_secret (putAnswer sess ans s) = sv_secret s"
  by (simp_all add: putOffer_def putAnswer_def)

text \<open>What a handled request can have done: nothing, or one acknowledged POST.\<close>

definition one_post :: "request \<Rightarrow> server \<Rightarrow> response \<times> server \<Rightarrow> bool" where
  "one_post r s ps \<longleftrightarrow>
     (snd ps = s \<and> rp_status (fst ps) \<in> {200, 204, 400, 401, 404, 405}) \<or>
     rq_method r = ''POST'' \<and> request_session r \<noteq> [] \<and> rp_status (fst ps) = 204 \<and>
     ((\<exists>role off. snd ps = putOffer (request_session r) role off s) \<or>
      (\<exists>ans. snd ps = putAnswer (request_session r) ans s))"

lemma one_post_same: "rp_status p \<in> {200, 204, 400, 401, 404, 405} \<Longrightarrow> one_post r s (p, s)"
  by (simp add: one_post_def)

lemma statuses [simp]:
  "rp_status (http_error c m) = c" "rp_status not_found = 404" "rp_status no_content = 204"
  "rp_status (writeJSON v) = 200"
  by (simp_all add: http_error_def not_found_def no_content_def writeJSON_def)

lemma handleOffer_one_post: "one_post r s (handleOffer r s)"
proof (cases "rq_method r = ''POST''")
  case True
  show ?thesis
  proof (cases "rq_body r")
    case (Inr b)
    have "request_session r = jb_session b"
      unfolding request_session_def if_P [OF True] Inr by simp
    then show ?thesis
      unfolding handleOffer_def if_P [OF True] Inr using True
      by (cases "jb_session b = [] \<or> jb_role b = []") (auto simp: one_post_def)
  qed (simp add: handleOffer_def True one_post_same)
next
  case False
  then show ?thesis
    unfolding handleOffer_def if_not_P [OF False]
    by (auto intro!: one_post_same split: option.split)
qed

lemma handleAnswer_one_post: "one_post r s (handleAnswer r s)"
proof (cases "rq_method r = ''POST''")
  case True
  show ?thesis
  proof (cases "rq_body r")
    case (Inr b)
    have "request_session r = jb_session b"
      unfolding request_session_def if_P [OF True] Inr by simp
    then show ?thesis
      unfolding handleAnswer_def if_P [OF True] Inr using True
      by (cases "jb_session b = []") (auto simp: one_post_def)
  qed (simp add: handleAnswer_def True one_post_same)
next
  case False
  then show ?thesis
    unfolding handleAnswer_def if_not_P [OF False]
    by (auto intro!: one_post_same split: option.split)
qed

lemma Handler_one_post: "one_post r s (Handler r s)"
proof -
  have "one_post r s (mux r s)"
    unfolding mux_def by (simp add: handleOffer_one_post handleAnswer_one_post one_post_same)
  then show ?thesis
    unfolding Handler_def authMiddleware_def by (simp add: one_post_same)
qed

lemma Handler_secret: "sv_secret (snd (Handler r s)) = sv_secret s"
  using Handler_one_post [of r s] by (auto simp: one_post_def)

lemma Handler_same:
  assumes "no_bar sess" and "no_bar (request_session r)" and "request_session r \<noteq> sess"
  shows "lookupOffer sess role (snd (Handler r s)) = lookupOffer sess role s \<and>
    lookupAnswer sess (snd (Handler r s)) = lookupAnswer sess s"
  using Handler_one_post [of r s] assms by (auto simp: one_post_def sv.reads)

lemma serve_same:
  assumes "no_bar sess" and "\<forall>r \<in> set rs. no_bar (request_session r) \<and> request_session r \<noteq> sess"
  shows "lookupOffer sess role (snd (serve rs s)) = lookupOffer sess role s \<and>
    lookupAnswer sess (snd (serve rs s)) = lookupAnswer sess s \<and>
    sv_secret (snd (serve rs s)) = sv_secret s"
  using assms(2)
proof (induction rs arbitrary: s)
  case (Cons r rs)
  then show ?case
    using Handler_same [OF assms(1), of r role s] Handler_secret [of r s] Cons.IH [of "snd (Handler r s)"]
    by (simp add: serve_Cons)
qed simp

text \<open>The requests a peer makes, with the server's secret.\<close>

definition offerPOST :: "string \<Rightarrow> string \<Rightarrow> string \<Rightarrow> offer \<Rightarrow> json_body \<Rightarrow> request" where
  "offerPOST secret sess role off rest =
     \<lparr>rq_method = ''POST'', rq_path = ''/punch/offer'', rq_secret = secret, rq_session = [], rq_role = [],
      rq_body = Inr (rest\<lparr>jb_session := sess, jb_role := role, jb_offer := off\<rparr>)\<rparr>"

definition offerGET :: "string \<Rightarrow> string \<Rightarrow> string \<Rightarrow> request" where
  "offerGET secret sess role =
     \<lparr>rq_method = ''GET'', rq_path = ''/punch/offer'', rq_secret = secret, rq_session = sess,
      rq_role = role, rq_body = Inl ''EOF''\<rparr>"

definition answerPOST :: "string \<Rightarrow> string \<Rightarrow> answer \<Rightarrow> json_body \<Rightarrow> request" where
  "answerPOST secret sess ans rest =
     \<lparr>rq_method = ''POST'', rq_path = ''/punch/answer'', rq_secret = secret, rq_session = [], rq_role = [],
      rq_body = Inr (rest\<lparr>jb_session := sess, jb_answer := ans\<rparr>)\<rparr>"

definition answerGET :: "string \<Rightarrow> string \<Rightarrow> request" where
  "answerGET secret sess =
     \<lparr>rq_method = ''GET'', rq_path = ''/punch/answer'', rq_secret = secret, rq_session = sess,
      rq_role = [], rq_body = Inl ''EOF''\<rparr>"

lemmas request_defs = offerPOST_def offerGET_def answerPOST_def answerGET_def
lemmas handler_defs = Handler_def authMiddleware_def mux_def handleOffer_def handleAnswer_def

lemma Handler_offerPOST:
  "secret = sv_secret s \<Longrightarrow> sess \<noteq> [] \<Longrightarrow> role \<noteq> [] \<Longrightarrow>
     Handler (offerPOST secret sess role off rest) s = (no_content, putOffer sess role off s)"
  by (simp add: handler_defs request_defs)

lemma Handler_answerPOST:
  "secret = sv_secret s \<Longrightarrow> sess \<noteq> [] \<Longrightarrow>
     Handler (answerPOST secret sess ans rest) s = (no_content, putAnswer sess ans s)"
  by (simp add: handler_defs request_defs)

lemma Handler_offerGET:
  "secret = sv_secret s \<Longrightarrow> sess \<noteq> [] \<Longrightarrow> role \<noteq> [] \<Longrightarrow>
     Handler (offerGET secret sess role) s =
       (case lookupOffer sess role s of None \<Rightarrow> not_found | Some off \<Rightarrow> writeJSON off, s)"
  by (simp add: handler_defs request_defs split: option.split)

lemma Handler_answerGET:
  "secret = sv_secret s \<Longrightarrow> sess \<noteq> [] \<Longrightarrow>
     Handler (answerGET secret sess) s =
       (case lookupAnswer sess s of None \<Rightarrow> not_found | Some ans \<Rightarrow> writeJSON ans, s)"
  by (simp add: handler_defs request_defs split: option.split)

section \<open>Properties of the server\<close>

text \<open>C21 (roundtrip): an offer that was posted is what the peer reads, and the session's old answer
  is gone, and an answer posted then is what the first peer reads, whatever any clients do in
  between with other sessions. (Session ids without a vertical bar; requests with the secret.)\<close>

theorem server_rendezvous:
  assumes "sess \<noteq> []" and "no_bar sess" and "role \<noteq> []" and "secret = sv_secret s"
    and "\<forall>r \<in> set rs. no_bar (request_session r) \<and> request_session r \<noteq> sess"
    and "\<forall>r \<in> set rs'. no_bar (request_session r) \<and> request_session r \<noteq> sess"
    and "s1 = snd (serve (offerPOST secret sess role off b # rs) s)"
    and "s2 = snd (serve (answerPOST secret sess ans b' # rs') s1)"
  shows "fst (Handler (offerGET secret sess role) s1) = writeJSON off \<and>
    rp_status (fst (Handler (answerGET secret sess) s1)) = 404 \<and>
    fst (Handler (offerGET secret sess role) s2) = writeJSON off \<and>
    fst (Handler (answerGET secret sess) s2) = writeJSON ans"
proof -
  let ?t = "putOffer sess role off s"
  have s1: "lookupOffer sess role s1 = Some off" "lookupAnswer sess s1 = None" "sv_secret s1 = secret"
    using serve_same [OF assms(2,5), of role ?t] assms(1-4)
    by (simp_all add: assms(7) serve_Cons Handler_offerPOST sv.reads)
  let ?u = "putAnswer sess ans s1"
  have "lookupOffer sess role s2 = Some off" "lookupAnswer sess s2 = Some ans" "sv_secret s2 = secret"
    using serve_same [OF assms(2,6), of role ?u] assms(1-4) s1
    by (simp_all add: assms(8) serve_Cons Handler_answerPOST sv.reads)
  then show ?thesis
    using s1 assms(1,3)
    by (simp add: Handler_offerGET Handler_answerGET not_found_def http_error_def)
qed

definition sample_offer :: "string \<Rightarrow> offer" where
  "sample_offer g = \<lparr>o_ufrag = ''u'', o_pwd = ''p'', o_candidates = [], o_gen = g\<rparr>"

definition no_body :: json_body where
  "no_body = \<lparr>jb_session = [], jb_role = [], jb_offer = sample_offer [], jb_answer = sample_offer []\<rparr>"

theorem server_rendezvous_witness:
  "\<exists>s. fst (Handler (answerGET ''k'' ''s1'') s) = writeJSON (sample_offer ''a'') \<and>
     fst (Handler (offerGET ''k'' ''s1'' ''peer-a'') s) = writeJSON (sample_offer ''o'')"
proof -
  let ?rs = "[offerPOST ''k'' ''s2'' ''peer-a'' (sample_offer ''x'') no_body, answerGET [] ''s3'']"
  have "\<forall>r \<in> set ?rs. no_bar (request_session r) \<and> request_session r \<noteq> ''s1''"
    by (simp add: request_defs request_session_def no_bar_def no_body_def)
  then show ?thesis
    using server_rendezvous [of "''s1''" "''peer-a''" "''k''" "NewServer ''k''" ?rs ?rs _ "sample_offer ''o''"
        no_body _ "sample_offer ''a''" no_body]
    by (auto simp: no_bar_def NewServer_def)
qed

text \<open>C22 (safety): with a secret configured, clients that do not know it learn and change nothing:
  any number of requests with another secret are all answered 401, with the same body whatever the
  server holds, and leave it as it was.\<close>

theorem outsiders_locked_out:
  assumes "sv_secret s \<noteq> []" and "\<forall>r \<in> set rs. rq_secret r \<noteq> sv_secret s"
  shows "serve rs s = (replicate (length rs) (http_error 401 ''unauthorized''), s)"
  using assms(2)
proof (induction rs)
  case (Cons r rs)
  then have "Handler r s = (http_error 401 ''unauthorized'', s)"
    using assms(1) by (simp add: Handler_def authMiddleware_def)
  then show ?case
    using Cons by (simp add: serve_Cons)
qed simp

theorem outsiders_locked_out_witness:
  "serve [answerGET [] ''s1'', offerPOST ''guess'' ''s1'' ''peer-a'' (sample_offer ''x'') no_body] (NewServer ''k'') =
     (replicate 2 (http_error 401 ''unauthorized''), NewServer ''k'')"
  using outsiders_locked_out [of "NewServer ''k''"
      "[answerGET [] ''s1'', offerPOST ''guess'' ''s1'' ''peer-a'' (sample_offer ''x'') no_body]"]
  by (simp add: NewServer_def request_defs numeral_2_eq_2)



text \<open>\<open>Clear\<close> drops the offers and the answer of its session and nothing of any
  session that has no vertical bar in its id. A session whose id continues the cleared one after
  a bar loses its offers all the same, and keeps its answer.\<close>

lemma clear_session:
  assumes "no_bar sess"
  shows "lookupOffer sess role (Clear sess s) = None \<and> lookupAnswer sess (Clear sess s) = None \<and>
    (\<forall>other r. no_bar other \<longrightarrow> other \<noteq> sess \<longrightarrow>
       lookupOffer other r (Clear sess s) = lookupOffer other r s \<and>
       lookupAnswer other (Clear sess s) = lookupAnswer other s) \<and>
    (\<forall>x r. lookupOffer (sess @ ''|'' @ x) r (Clear sess s) = None \<and>
       lookupAnswer (sess @ ''|'' @ x) (Clear sess s) = lookupAnswer (sess @ ''|'' @ x) s)"
proof -
  have "HasPrefix (offer_key other r) (sess @ ''|'') \<longleftrightarrow> other = sess" if "no_bar other" for other r
  proof -
    have "HasPrefix (offer_key other r) (sess @ ''|'') \<longleftrightarrow>
        (\<exists>q. offer_key other r = offer_key sess q)"
      unfolding HasPrefix_def offer_key_def
      by (metis append.assoc append_eq_conv_conj append_take_drop_id)
    then show ?thesis
      using offer_key_inject [OF that assms] by blast
  qed
  then show ?thesis
    using assms
    by (auto simp: Clear_def lookupOffer_def lookupAnswer_def) (simp_all add: HasPrefix_def offer_key_def)
qed

end
