(* ===== verification/SigClient.thy ===== *)
theory SigClient
  imports Signaling
begin

text \<open>
  The signaling client (\<open>internal/signaling/client.go\<close>): the normalisation of its base URL, the
  mapping of HTTP results to Go errors in \<open>do\<close>, the four calls, and the polling loops. The
  network is a parameter: a function from a URL and a request to a result and a changed world.
\<close>

section \<open>The client and its requests\<close>

definition TrimRight :: "char \<Rightarrow> string \<Rightarrow> string" where
  "TrimRight c s = rev (dropWhile (\<lambda>x. x = c) (rev s))"

definition HasSuffix :: "string \<Rightarrow> string \<Rightarrow> bool" where
  "HasSuffix s q \<longleftrightarrow> length q \<le> length s \<and> drop (length s - length q) s = q"

record client =
  ct_base :: string
  ct_secret :: string

definition NewClient :: "string \<Rightarrow> string \<Rightarrow> client" where
  "NewClient baseURL secret =
     (let base = TrimRight (CHR ''/'') baseURL in
      \<lparr>ct_base = (if \<not> HasSuffix base ''/punch'' then base @ ''/punch'' else base),
       ct_secret = secret\<rparr>)"

text \<open>
  The errors of \<open>do\<close>: the request could not be made, 404, 401, another status (with what the
  message is built from), or a body that does not decode.
\<close>

datatype client_error =
    RequestFailed nat
  | ErrNotFound
  | Unauthorized payload
  | BadStatus string string nat payload
  | DecodeFailed payload

type_synonym 'w network = "string \<Rightarrow> request \<Rightarrow> 'w \<Rightarrow> (nat + response) \<times> 'w"

text \<open>\<open>url.Values.Encode\<close> on values given in the order of their keys.\<close>

definition unreserved :: string where
  "unreserved = ''-.0123456789ABCDEFGHIJKLMNOPQRSTUVWXYZ_abcdefghijklmnopqrstuvwxyz~''"

definition percent :: "char \<Rightarrow> string" where
  "percent c =
     (let d = ''0123456789ABCDEF''; n = of_char c :: nat in [CHR ''%'', d ! (n div 16), d ! (n mod 16)])"

definition QueryEscape :: "string \<Rightarrow> string" where
  "QueryEscape s =
     concat (map (\<lambda>c. if c \<in> set unreserved then [c] else if c = CHR '' '' then ''+'' else percent c) s)"

fun Encode :: "(string \<times> string) list \<Rightarrow> string" where
  "Encode [] = []"
| "Encode [(k, v)] = QueryEscape k @ ''='' @ QueryEscape v"
| "Encode ((k, v) # kvs) = QueryEscape k @ ''='' @ QueryEscape v @ ''&'' @ Encode kvs"

text \<open>
  \<open>do\<close> on a path and a query string; \<open>out\<close> says whether the caller wants the decoded body, \<open>None\<close>
  leaves it as it was. The values of the query reach the network as parsed, in the request; the
  string is what the error message quotes.
\<close>

definition client_do ::
    "client \<Rightarrow> 'w network \<Rightarrow> string \<Rightarrow> string \<Rightarrow> request \<Rightarrow> bool \<Rightarrow> 'w \<Rightarrow> (client_error + offer option) \<times> 'w" where
  "client_do c net path query r out w =
     (case net (ct_base c @ path) (r\<lparr>rq_secret := ct_secret c\<rparr>) w of
        (Inl e, w1) \<Rightarrow> (Inl (RequestFailed e), w1)
      | (Inr p, w1) \<Rightarrow>
          if rp_status p = 200 \<or> rp_status p = 204 then
            (if out \<and> rp_status p = 200 then
               (case rp_body p of
                  Json v \<Rightarrow> (Inr (Some v), w1)
                | b \<Rightarrow> (Inl (DecodeFailed b), w1))
             else (Inr None, w1))
          else if rp_status p = 404 then (Inl ErrNotFound, w1)
          else if rp_status p = 401 then (Inl (Unauthorized (rp_body p)), w1)
          else (Inl (BadStatus (rq_method r) (path @ query) (rp_status p) (rp_body p)), w1))"

definition zero_offer :: offer where
  "zero_offer = \<lparr>o_ufrag = [], o_pwd = [], o_candidates = [], o_gen = []\<rparr>"

definition zero_body :: json_body where
  "zero_body = \<lparr>jb_session = [], jb_role = [], jb_offer = zero_offer, jb_answer = zero_offer\<rparr>"

definition post_request :: "json_body \<Rightarrow> request" where
  "post_request b =
     \<lparr>rq_method = ''POST'', rq_path = [], rq_secret = [], rq_session = [], rq_role = [], rq_body = Inr b\<rparr>"

definition get_request :: "string \<Rightarrow> string \<Rightarrow> request" where
  "get_request sess role =
     \<lparr>rq_method = ''GET'', rq_path = [], rq_secret = [], rq_session = sess, rq_role = role,
      rq_body = Inl ''EOF''\<rparr>"

text \<open>The result variable of a GET starts as the zero offer and is returned whatever happened.\<close>

definition PostOffer ::
    "client \<Rightarrow> 'w network \<Rightarrow> string \<Rightarrow> string \<Rightarrow> offer \<Rightarrow> 'w \<Rightarrow> client_error option \<times> 'w" where
  "PostOffer c net sess role off w =
     (case client_do c net ''/offer'' []
             (post_request (zero_body\<lparr>jb_session := sess, jb_role := role, jb_offer := off\<rparr>)) False w of
        (Inl e, w1) \<Rightarrow> (Some e, w1)
      | (Inr _, w1) \<Rightarrow> (None, w1))"

definition GetOffer ::
    "client \<Rightarrow> 'w network \<Rightarrow> string \<Rightarrow> string \<Rightarrow> 'w \<Rightarrow> (client_error + offer) \<times> 'w" where
  "GetOffer c net sess role w =
     (case client_do c net ''/offer'' (''?'' @ Encode [(''role'', role), (''session_id'', sess)])
             (get_request sess role) True w of
        (Inl e, w1) \<Rightarrow> (Inl e, w1)
      | (Inr None, w1) \<Rightarrow> (Inr zero_offer, w1)
      | (Inr (Some v), w1) \<Rightarrow> (Inr v, w1))"

definition PostAnswer ::
    "client \<Rightarrow> 'w network \<Rightarrow> string \<Rightarrow> answer \<Rightarrow> 'w \<Rightarrow> client_error option \<times> 'w" where
  "PostAnswer c net sess ans w =
     (case client_do c net ''/answer'' []
             (post_request (zero_body\<lparr>jb_session := sess, jb_answer := ans\<rparr>)) False w of
        (Inl e, w1) \<Rightarrow> (Some e, w1)
      | (Inr _, w1) \<Rightarrow> (None, w1))"

definition GetAnswer ::
    "client \<Rightarrow> 'w network \<Rightarrow> string \<Rightarrow> 'w \<Rightarrow> (client_error + answer) \<times> 'w" where
  "GetAnswer c net sess w =
     (case client_do c net ''/answer'' (''?'' @ Encode [(''session_id'', sess)])
             (get_request sess []) True w of
        (Inl e, w1) \<Rightarrow> (Inl e, w1)
      | (Inr None, w1) \<Rightarrow> (Inr zero_offer, w1)
      | (Inr (Some v), w1) \<Rightarrow> (Inr v, w1))"

section \<open>Polling\<close>

text \<open>
  A polling loop is run on the results of its successive GETs; when they are used up the context
  is done.
\<close>

datatype await_error = CtxDone | PollFailed client_error

fun AwaitOffer :: "(client_error + offer) list \<Rightarrow> await_error + offer" where
  "AwaitOffer [] = Inl CtxDone"
| "AwaitOffer (Inr off # ps) = Inr off"
| "AwaitOffer (Inl e # ps) = (if e = ErrNotFound then AwaitOffer ps else Inl (PollFailed e))"

fun AwaitAnswerMatching :: "string \<Rightarrow> (client_error + answer) list \<Rightarrow> await_error + answer" where
  "AwaitAnswerMatching wantGen [] = Inl CtxDone"
| "AwaitAnswerMatching wantGen (Inr a # ps) =
     (if wantGen = [] \<or> o_gen a = wantGen then Inr a else AwaitAnswerMatching wantGen ps)"
| "AwaitAnswerMatching wantGen (Inl e # ps) =
     (if e = ErrNotFound then AwaitAnswerMatching wantGen ps else Inl (PollFailed e))"

definition AwaitAnswer :: "(client_error + answer) list \<Rightarrow> await_error + answer" where
  "AwaitAnswer ps = AwaitAnswerMatching [] ps"

lemma AwaitAnswer_AwaitOffer: "AwaitAnswer ps = AwaitOffer ps"
  unfolding AwaitAnswer_def by (induction ps rule: AwaitOffer.induct) simp_all

section \<open>A server at the other end\<close>

text \<open>A network that takes requests for one host to the server's handler.\<close>

definition serve_at :: "string \<Rightarrow> server network" where
  "serve_at host url r s =
     (if HasPrefix url host then
        (case Handler (r\<lparr>rq_path := drop (length host) url\<rparr>) s of (p, s1) \<Rightarrow> (Inr p, s1))
      else (Inl 0, s))"

lemma serve_at_host [simp]:
  "serve_at host (host @ path) r s =
     (case Handler (r\<lparr>rq_path := path\<rparr>) s of (p, s1) \<Rightarrow> (Inr p, s1))"
  by (simp add: serve_at_def HasPrefix_def)

lemma TrimRight_slashes:
  "s \<noteq> [] \<Longrightarrow> last s \<noteq> c \<Longrightarrow> TrimRight c (s @ replicate k c) = s"
  by (cases s rule: rev_cases) (simp_all add: TrimRight_def dropWhile_append)

lemma NewClient_base:
  assumes "host \<noteq> []" and "last host \<noteq> CHR ''/''" and "\<not> HasSuffix host ''/punch''"
    and "url = host @ replicate k (CHR ''/'') \<or> url = host @ ''/punch'' @ replicate k (CHR ''/'')"
  shows "ct_base (NewClient url secret) = host @ ''/punch'' \<and> ct_secret (NewClient url secret) = secret"
  using assms(4)
proof
  assume "url = host @ replicate k (CHR ''/'')"
  then show ?thesis
    using assms(1-3) TrimRight_slashes [of host "CHR ''/''" k] by (simp add: NewClient_def Let_def)
next
  assume "url = host @ ''/punch'' @ replicate k (CHR ''/'')"
  then have "TrimRight (CHR ''/'') url = host @ ''/punch''"
    using TrimRight_slashes [of "host @ ''/punch''" "CHR ''/''" k] by simp
  moreover have "HasSuffix (host @ ''/punch'') ''/punch''"
    by (simp add: HasSuffix_def)
  ultimately show ?thesis
    by (simp add: NewClient_def Let_def)
qed

section \<open>Properties of the client\<close>

text \<open>C37 (roundtrip): a client made from the server's address, with or without the \<open>/punch\<close> path and
  with any number of trailing slashes, and with the server's secret, reaches the server: what it
  posts it reads back, a missing answer is reported as not found, and no call fails.\<close>

theorem client_reaches_server:
  assumes "host \<noteq> []" and "last host \<noteq> CHR ''/''" and "\<not> HasSuffix host ''/punch''"
    and "url = host @ replicate k (CHR ''/'') \<or> url = host @ ''/punch'' @ replicate k (CHR ''/'')"
    and "sess \<noteq> []" and "no_bar sess" and "role \<noteq> []"
    and "c = NewClient url (sv_secret s)" and "net = serve_at host"
    and "s1 = snd (PostOffer c net sess role off s)" and "s2 = snd (PostAnswer c net sess ans s1)"
  shows "fst (PostOffer c net sess role off s) = None \<and>
    fst (GetOffer c net sess role s1) = Inr off \<and> fst (GetAnswer c net sess s1) = Inl ErrNotFound \<and>
    fst (PostAnswer c net sess ans s1) = None \<and>
    fst (GetAnswer c net sess s2) = Inr ans \<and> fst (GetOffer c net sess role s2) = Inr off"
proof -
  have c: "ct_base c = host @ ''/punch''" "ct_secret c = sv_secret s"
    using NewClient_base [OF assms(1-4)] assms(8) by simp_all
  have po: "PostOffer c net sess role off t = (None, putOffer sess role off t)" if "sv_secret t = sv_secret s" for t
    using c assms(5,7,9) that
    by (simp add: PostOffer_def client_do_def handler_defs post_request_def zero_body_def)
  have pa: "PostAnswer c net sess ans t = (None, putAnswer sess ans t)" if "sv_secret t = sv_secret s" for t
    using c assms(5,9) that
    by (simp add: PostAnswer_def client_do_def handler_defs post_request_def zero_body_def)
  have go: "fst (GetOffer c net sess role t) =
      (case lookupOffer sess role t of None \<Rightarrow> Inl ErrNotFound | Some x \<Rightarrow> Inr x)"
    if "sv_secret t = sv_secret s" for t
    using c assms(5,7,9) that
    by (simp add: GetOffer_def client_do_def handler_defs get_request_def writeJSON_def split: option.split)
  have ga: "fst (GetAnswer c net sess t) =
      (case lookupAnswer sess t of None \<Rightarrow> Inl ErrNotFound | Some x \<Rightarrow> Inr x)"
    if "sv_secret t = sv_secret s" for t
    using c assms(5,9) that
    by (simp add: GetAnswer_def client_do_def handler_defs get_request_def writeJSON_def split: option.split)
  show ?thesis
    using assms(6,10,11) by (simp add: po pa go ga sv.reads)
qed

theorem client_reaches_server_witness:
  "fst (GetOffer (NewClient ''http://h:1/punch//'' ''k'') (serve_at ''http://h:1'') ''s1'' ''peer-a''
     (snd (PostOffer (NewClient ''http://h:1/punch//'' ''k'') (serve_at ''http://h:1'') ''s1'' ''peer-a''
        (sample_offer ''g'') (NewServer ''k'')))) = Inr (sample_offer ''g'')"
  using client_reaches_server [of "''http://h:1''" "''http://h:1/punch//''" 2 "''s1''" "''peer-a''"
      "NewClient ''http://h:1/punch//'' ''k''" "NewServer ''k''"]
  by (simp add: no_bar_def NewServer_def HasSuffix_def numeral_2_eq_2)

text \<open>The polling loop's result is decided by the first poll that is neither
  \<open>ErrNotFound\<close> nor, when a nonce is wanted, an answer with another nonce: if that poll is an
  answer the loop returns it, if it is another error the loop fails with it, and without such a
  poll it ends with the context. So a stale answer never ends the wait.\<close>

lemma await_first_decisive:
  "AwaitAnswerMatching g ps =
     (case dropWhile (\<lambda>p. case p of Inl e \<Rightarrow> e = ErrNotFound | Inr b \<Rightarrow> g \<noteq> [] \<and> o_gen b \<noteq> g) ps of
        [] \<Rightarrow> Inl CtxDone
      | Inr a # _ \<Rightarrow> Inr a
      | Inl e # _ \<Rightarrow> Inl (PollFailed e))"
  by (induction g ps rule: AwaitAnswerMatching.induct) auto

end
