(* ===== verification/Ice.thy ===== *)
theory Ice
  imports SigClient
begin

text \<open>
  The ICE agent driver (\<open>internal/ice/ice.go\<close>): the defaults of \<open>New\<close>, \<open>parseURLs\<close>, \<open>newGen\<close>
  and \<open>Connect\<close> with all its early returns, as a function of what the libraries and the signaling
  server answer. The ICE library (the agent, URI parsing, candidates) is not part of the
  repository: its results are parameters. The second half is the pairing protocol that two agents
  run over the signaling server, across any number of attempts.
\<close>

section \<open>Configuration, URLs and nonces\<close>

record ice_config =
  ia_sessionID :: string
  ia_role :: string
  ia_stun :: "string list"
  ia_turn :: "(string \<times> string \<times> string) list"
  ia_pollInterval :: int
  ia_failedTimeout :: int
  ia_disconnectedTimeout :: int
  ia_pionLogLevel :: int

definition ice_New :: "ice_config \<Rightarrow> ice_config" where
  "ice_New cfg = (if ia_pollInterval cfg = 0 then cfg\<lparr>ia_pollInterval := seconds 2\<rparr> else cfg)"

definition IsControlling :: "ice_config \<Rightarrow> bool" where
  "IsControlling cfg \<longleftrightarrow> ia_role cfg = ''peer-a''"

datatype url_error = BadSTUN string nat | BadTURN string nat

text \<open>\<open>parse\<close> is the library's URI parser, \<open>login\<close> the assignment of user and password.\<close>

fun parseURLs ::
    "(string \<Rightarrow> nat + 'uri) \<Rightarrow> (string \<Rightarrow> string \<Rightarrow> 'uri \<Rightarrow> 'uri) \<Rightarrow> string list \<Rightarrow>
     (string \<times> string \<times> string) list \<Rightarrow> url_error + 'uri list" where
  "parseURLs parse login [] [] = Inr []"
| "parseURLs parse login [] ((uri, user, pass) # ts) =
     (case parse uri of
        Inl e \<Rightarrow> Inl (BadTURN uri e)
      | Inr u \<Rightarrow>
          (case parseURLs parse login [] ts of
             Inl e \<Rightarrow> Inl e
           | Inr us \<Rightarrow> Inr (login user pass u # us)))"
| "parseURLs parse login (h # hs) ts =
     (case parse (''stun:'' @ h) of
        Inl e \<Rightarrow> Inl (BadSTUN h e)
      | Inr u \<Rightarrow>
          (case parseURLs parse login hs ts of Inl e \<Rightarrow> Inl e | Inr us \<Rightarrow> Inr (u # us)))"

text \<open>The agent's optional settings.\<close>

record 'uri agent_config =
  ac_urls :: "'uri list"
  ac_failedTimeout :: "int option"
  ac_disconnectedTimeout :: "int option"
  ac_logLevel :: "int option"

definition agent_config :: "ice_config \<Rightarrow> 'uri list \<Rightarrow> 'uri agent_config" where
  "agent_config cfg urls =
     \<lparr>ac_urls = urls,
      ac_failedTimeout = (if ia_failedTimeout cfg > 0 then Some (ia_failedTimeout cfg) else None),
      ac_disconnectedTimeout = (if ia_disconnectedTimeout cfg > 0 then Some (ia_disconnectedTimeout cfg) else None),
      ac_logLevel = (if ia_pionLogLevel cfg > 0 then Some (ia_pionLogLevel cfg) else None)\<rparr>"

text \<open>\<open>hex.EncodeToString\<close> of eight random bytes.\<close>

definition hex_digits :: string where
  "hex_digits = ''0123456789abcdef''"

definition hex_byte :: "byte \<Rightarrow> string" where
  "hex_byte b = [hex_digits ! (unat b div 16), hex_digits ! (unat b mod 16)]"

definition newGen :: "byte list \<Rightarrow> string" where
  "newGen bs = concat (map hex_byte bs)"

lemma hex_digits_inject: "i < 16 \<Longrightarrow> j < 16 \<Longrightarrow> hex_digits ! i = hex_digits ! j \<longleftrightarrow> i = j"
proof -
  have "distinct hex_digits" "length hex_digits = 16"
    by (simp_all add: hex_digits_def)
  then show "i < 16 \<Longrightarrow> j < 16 \<Longrightarrow> hex_digits ! i = hex_digits ! j \<longleftrightarrow> i = j"
    by (simp add: nth_eq_iff_index_eq)
qed

lemma hex_byte_inject: "hex_byte a = hex_byte b \<longleftrightarrow> a = b"
proof
  assume "hex_byte a = hex_byte b"
  moreover have "unat a < 256" "unat b < 256"
    using unsigned_less [where w = a and 'a = nat] unsigned_less [where w = b and 'a = nat] by simp_all
  ultimately have "unat a div 16 = unat b div 16" "unat a mod 16 = unat b mod 16"
    by (simp_all add: hex_byte_def hex_digits_inject)
  then have "unat a = unat b"
    by (metis div_mult_mod_eq)
  then show "a = b"
    by (simp add: unsigned_word_eqI)
qed simp

lemma newGen_inject: "length as = length bs \<Longrightarrow> newGen as = newGen bs \<longleftrightarrow> as = bs"
proof (induction as bs rule: list_induct2)
  case (Cons a as b bs)
  have "length (hex_byte a) = length (hex_byte b)"
    by (simp add: hex_byte_def)
  then show ?case
    using Cons.IH by (simp add: newGen_def hex_byte_inject)
qed (simp add: newGen_def)

lemma length_newGen [simp]: "length (newGen bs) = 2 * length bs"
  by (induction bs) (simp_all add: newGen_def hex_byte_def)

section \<open>Connect\<close>

datatype gather_wait = GatherDone | GatherTimeout | GatherCtxDone

datatype connect_error =
    BadURLs url_error
  | NewAgentFailed nat
  | OnCandidateFailed nat
  | GatherFailed nat
  | ContextDone
  | CredentialsFailed nat
  | NewGenFailed nat
  | PostOfferFailed client_error
  | AwaitAnswerFailed await_error
  | AwaitOfferFailed await_error
  | PostAnswerFailed client_error
  | ChecksFailed nat

text \<open>
  What one call meets: the answers of the ICE library, of the random generator and of the
  signaling server (the polls are the results of the successive GETs of the polling loops).
\<close>

record ('uri, 'conn) ice_env =
  en_parse :: "string \<Rightarrow> nat + 'uri"
  en_login :: "string \<Rightarrow> string \<Rightarrow> 'uri \<Rightarrow> 'uri"
  en_newAgent :: "'uri agent_config \<Rightarrow> nat option"
  en_onCandidate :: "nat option"
  en_gather :: "nat option"
  en_wait :: gather_wait
  en_credentials :: "nat + string \<times> string"
  en_candidates :: "string list"
  en_random :: "nat + byte list"
  en_postOffer :: "offer \<Rightarrow> client_error option"
  en_answerPolls :: "(client_error + answer) list"
  en_offerPolls :: "(client_error + offer) list"
  en_postAnswer :: "answer \<Rightarrow> client_error option"
  en_unmarshal :: "string \<Rightarrow> bool"
  en_checks :: "bool \<Rightarrow> string \<Rightarrow> string \<Rightarrow> nat + 'conn"

text \<open>
  How a call ends: its result, whether the agent was left open, what it posted, whose
  credentials it used and the remote candidates it installed.
\<close>

datatype ice_agent = NoAgent | AgentOpen | AgentClosed

record 'conn connected =
  co_result :: "connect_error + 'conn"
  co_agent :: ice_agent
  co_posted :: "offer option"
  co_peer :: "offer option"
  co_remote :: "string list"

definition gives_up :: "connect_error \<Rightarrow> ice_agent \<Rightarrow> offer option \<Rightarrow> 'conn connected" where
  "gives_up e ag posted =
     \<lparr>co_result = Inl e, co_agent = ag, co_posted = posted, co_peer = None, co_remote = []\<rparr>"

text \<open>The last part of \<open>Connect\<close>: install the peer's candidates and start the checks.\<close>

definition start_checks :: "ice_config \<Rightarrow> ('uri, 'conn) ice_env \<Rightarrow> offer \<Rightarrow> offer \<Rightarrow> 'conn connected" where
  "start_checks cfg env posted peer =
     \<lparr>co_result = map_sum ChecksFailed id (en_checks env (IsControlling cfg) (o_ufrag peer) (o_pwd peer)),
      co_agent = AgentOpen, co_posted = Some posted, co_peer = Some peer,
      co_remote = filter (en_unmarshal env) (o_candidates peer)\<rparr>"

text \<open>The exchange over the signaling server.\<close>

definition exchange :: "ice_config \<Rightarrow> ('uri, 'conn) ice_env \<Rightarrow> offer \<Rightarrow> 'conn connected" where
  "exchange cfg env myOffer =
     (if IsControlling cfg then
        (case en_postOffer env myOffer of
           Some e \<Rightarrow> gives_up (PostOfferFailed e) AgentClosed None
         | None \<Rightarrow>
             (case AwaitAnswerMatching (o_gen myOffer) (en_answerPolls env) of
                Inl e \<Rightarrow> gives_up (AwaitAnswerFailed e) AgentClosed (Some myOffer)
              | Inr peer \<Rightarrow> start_checks cfg env myOffer peer))
      else
        (case AwaitOffer (en_offerPolls env) of
           Inl e \<Rightarrow> gives_up (AwaitOfferFailed e) AgentClosed None
         | Inr peer \<Rightarrow>
             let myAnswer = myOffer\<lparr>o_gen := o_gen peer\<rparr> in
             (case en_postAnswer env myAnswer of
                Some e \<Rightarrow> gives_up (PostAnswerFailed e) AgentClosed None
              | None \<Rightarrow> start_checks cfg env myAnswer peer)))"

definition Connect :: "ice_config \<Rightarrow> ('uri, 'conn) ice_env \<Rightarrow> 'conn connected" where
  "Connect cfg env =
     (case parseURLs (en_parse env) (en_login env) (ia_stun cfg) (ia_turn cfg) of
        Inl e \<Rightarrow> gives_up (BadURLs e) NoAgent None
      | Inr urls \<Rightarrow>
          (case en_newAgent env (agent_config cfg urls) of
             Some e \<Rightarrow> gives_up (NewAgentFailed e) NoAgent None
           | None \<Rightarrow>
               (case (en_onCandidate env, en_gather env) of
                  (Some e, _) \<Rightarrow> gives_up (OnCandidateFailed e) AgentClosed None
                | (None, Some e) \<Rightarrow> gives_up (GatherFailed e) AgentClosed None
                | (None, None) \<Rightarrow>
                    if en_wait env = GatherCtxDone then gives_up ContextDone AgentClosed None
                    else (case en_credentials env of
                        Inl e \<Rightarrow> gives_up (CredentialsFailed e) AgentClosed None
                      | Inr (ufrag, pwd) \<Rightarrow>
                          (case en_random env of
                             Inl e \<Rightarrow> gives_up (NewGenFailed e) AgentClosed None
                           | Inr bs \<Rightarrow>
                               exchange cfg env \<lparr>o_ufrag = ufrag, o_pwd = pwd,
                                 o_candidates = en_candidates env, o_gen = newGen bs\<rparr>)))))"

section \<open>Properties of a single agent\<close>

lemma await_matching_mem:
  "AwaitAnswerMatching g ps = Inr a \<Longrightarrow> Inr a \<in> set ps \<and> (g = [] \<or> o_gen a = g)"
  by (induction g ps rule: AwaitAnswerMatching.induct) (auto split: if_splits)

lemma await_offer_mem: "AwaitOffer ps = Inr off \<Longrightarrow> Inr off \<in> set ps"
  by (induction ps rule: AwaitOffer.induct) (auto split: if_splits)

definition well_ended :: "'conn connected \<Rightarrow> bool" where
  "well_ended co \<longleftrightarrow> co_agent co =
     (case co_result co of
        Inr conn \<Rightarrow> AgentOpen
      | Inl (BadURLs _) \<Rightarrow> NoAgent
      | Inl (NewAgentFailed _) \<Rightarrow> NoAgent
      | Inl (ChecksFailed _) \<Rightarrow> AgentOpen
      | Inl _ \<Rightarrow> AgentClosed)"

lemma well_ended:
  "well_ended (start_checks cfg env posted peer)"
  "well_ended (gives_up (BadURLs a) NoAgent x)" "well_ended (gives_up (NewAgentFailed b) NoAgent x)"
  "well_ended (gives_up (OnCandidateFailed b) AgentClosed x)" "well_ended (gives_up (GatherFailed b) AgentClosed x)"
  "well_ended (gives_up ContextDone AgentClosed x)" "well_ended (gives_up (CredentialsFailed b) AgentClosed x)"
  "well_ended (gives_up (NewGenFailed b) AgentClosed x)" "well_ended (gives_up (PostOfferFailed c) AgentClosed x)"
  "well_ended (gives_up (AwaitAnswerFailed d) AgentClosed x)" "well_ended (gives_up (AwaitOfferFailed d) AgentClosed x)"
  "well_ended (gives_up (PostAnswerFailed c) AgentClosed x)"
  by (simp_all add: well_ended_def start_checks_def gives_up_def split: sum.split)
    (auto simp: map_sum_def split: sum.splits)

lemma Connect_well_ended: "well_ended (Connect cfg env)"
proof -
  have "well_ended (exchange cfg env off)" for off
    unfolding exchange_def by (simp add: Let_def well_ended split: option.split sum.split)
  then show ?thesis
    unfolding Connect_def by (simp add: well_ended split: option.split sum.split prod.split)
qed

text \<open>C20 (error): a call of \<open>Connect\<close> that gives up closes the agent it created, at every stage, with
  one exception: when the connectivity checks fail (\<open>Dial\<close> or \<open>Accept\<close> returns an error) the agent
  stays open, with its sockets and goroutines, and nobody holds it any more.\<close>

theorem connect_agent_closed:
  "co_agent (Connect cfg env) =
     (case co_result (Connect cfg env) of
        Inr conn \<Rightarrow> AgentOpen
      | Inl (BadURLs _) \<Rightarrow> NoAgent
      | Inl (NewAgentFailed _) \<Rightarrow> NoAgent
      | Inl (ChecksFailed _) \<Rightarrow> AgentOpen
      | Inl _ \<Rightarrow> AgentClosed)"
  using Connect_well_ended [of cfg env] by (simp add: well_ended_def)

text \<open>C19 (safety): a successful call is bound to its peer's matching message. The controlling side
  has posted an offer with a fresh nonce of sixteen hex digits and uses the credentials of an
  answer that carries this nonce; the controlled side uses the credentials of the offer it read
  and has posted an answer that echoes that offer's nonce.\<close>

theorem connect_binds_nonce:
  assumes "co_result (Connect cfg env) = Inr conn"
    and "\<And>bs. en_random env = Inr bs \<Longrightarrow> length bs = 8"
  shows "\<exists>mine peer. co_posted (Connect cfg env) = Some mine \<and> co_peer (Connect cfg env) = Some peer \<and>
    o_gen peer = o_gen mine \<and>
    en_checks env (IsControlling cfg) (o_ufrag peer) (o_pwd peer) = Inr conn \<and>
    (if IsControlling cfg
     then Inr peer \<in> set (en_answerPolls env) \<and> length (o_gen mine) = 16 \<and>
       (\<exists>bs. en_random env = Inr bs \<and> o_gen mine = newGen bs)
     else Inr peer \<in> set (en_offerPolls env))"
proof -
  obtain u p bs where bs: "en_random env = Inr bs" and c: "Connect cfg env =
      exchange cfg env \<lparr>o_ufrag = u, o_pwd = p, o_candidates = en_candidates env, o_gen = newGen bs\<rparr>"
    using assms(1) by (auto simp: Connect_def gives_up_def split: sum.splits option.splits prod.splits if_splits)
  have g: "length (newGen bs) = 16"
    using assms(2) bs by simp
  then have ne: "newGen bs \<noteq> []"
    by (metis length_0_conv zero_neq_numeral)
  show ?thesis
  proof (cases "IsControlling cfg")
    case True
    then obtain peer where "AwaitAnswerMatching (newGen bs) (en_answerPolls env) = Inr peer"
      "Connect cfg env = start_checks cfg env \<lparr>o_ufrag = u, o_pwd = p, o_candidates = en_candidates env, o_gen = newGen bs\<rparr> peer"
      using assms(1) c by (auto simp: exchange_def gives_up_def split: sum.splits option.splits)
    then show ?thesis
      using True bs g assms(1) await_matching_mem [of "newGen bs" "en_answerPolls env" peer] ne
      by (auto simp: start_checks_def map_sum_def split: sum.splits)
  next
    case False
    then obtain peer where "AwaitOffer (en_offerPolls env) = Inr peer"
      "Connect cfg env = start_checks cfg env \<lparr>o_ufrag = u, o_pwd = p, o_candidates = en_candidates env, o_gen = o_gen peer\<rparr> peer"
      using assms(1) c by (auto simp: exchange_def gives_up_def Let_def split: sum.splits option.splits)
    then show ?thesis
      using False assms(1) await_offer_mem [of "en_offerPolls env" peer]
      by (auto simp: start_checks_def map_sum_def split: sum.splits)
  qed
qed

definition sample_ice :: ice_config where
  "sample_ice = \<lparr>ia_sessionID = ''s1'', ia_role = ''peer-a'', ia_stun = [''h:1''], ia_turn = [],
     ia_pollInterval = 0, ia_failedTimeout = 0, ia_disconnectedTimeout = 0, ia_pionLogLevel = 2\<rparr>"

definition sample_env :: "(string, string) ice_env" where
  "sample_env = \<lparr>en_parse = Inr, en_login = (\<lambda>_ _ u. u), en_newAgent = (\<lambda>_. None), en_onCandidate = None,
     en_gather = None, en_wait = GatherDone, en_credentials = Inr (''u'', ''p''), en_candidates = [],
     en_random = Inr [0, 1, 2, 3, 4, 5, 6, 255], en_postOffer = (\<lambda>_. None),
     en_answerPolls = [Inl ErrNotFound, Inr (sample_offer ''stale''), Inr (sample_offer ''00010203040506ff'')],
     en_offerPolls = [], en_postAnswer = (\<lambda>_. None), en_unmarshal = (\<lambda>_. True),
     en_checks = (\<lambda>_ u p. Inr (u @ p))\<rparr>"

theorem connect_binds_nonce_witness:
  "co_result (Connect sample_ice sample_env) = Inr ''up'' \<and>
   (\<exists>mine. co_posted (Connect sample_ice sample_env) = Some mine \<and> length (o_gen mine) = 16)"
proof -
  have g: "newGen [0, 1, 2, 3, 4, 5, 6, 255] = ''00010203040506ff''"
    by (simp add: newGen_def hex_byte_def hex_digits_def)
  have r: "co_result (Connect sample_ice sample_env) = Inr ''up''"
    by (simp add: Connect_def sample_ice_def sample_env_def exchange_def IsControlling_def g
        start_checks_def sample_offer_def)
  have "IsControlling sample_ice"
    by (simp add: IsControlling_def sample_ice_def)
  then show ?thesis
    using connect_binds_nonce [OF r] r by (auto simp: sample_env_def)
qed

end
