(* ===== verification/Pairing.thy ===== *)
theory Pairing
  imports Ice Machine
begin

text \<open>
  The pairing protocol of \<open>Connect\<close> (\<open>internal/ice/ice.go\<close>) run by two peers over one signaling
  server (\<open>internal/signaling\<close>): any number of connection attempts of either peer, interleaved in any
  order, with restarts of the server, \<open>Clear\<close>, and other sessions' traffic. The nonce \<open>Gen\<close> ties
  an answer to the offer it was made for; the agreement theorem is what \<open>types.go\<close> promises of it.
\<close>

section \<open>Attempts and steps\<close>

text \<open>
  An attempt of the controlling peer is the offer it posted and the answer it accepted; an attempt
  of the controlled peer is the offer it read and the answer it posted.
\<close>

record a_attempt =
  aa_offer :: offer
  aa_accepted :: "answer option"

record b_attempt =
  ba_read :: offer
  ba_posted :: "answer option"

record pairing =
  pr_server :: server
  pr_as :: "a_attempt list"
  pr_bs :: "b_attempt list"

definition pairing_init :: "string \<Rightarrow> pairing" where
  "pairing_init secret = \<lparr>pr_server = NewServer secret, pr_as = [], pr_bs = []\<rparr>"

text \<open>One poll of the server.\<close>

definition poll :: "offer option \<Rightarrow> (client_error + offer) list" where
  "poll found = [case found of None \<Rightarrow> Inl ErrNotFound | Some x \<Rightarrow> Inr x]"

datatype pr_act =
    APost offer
  | AAccept nat
  | BRead
  | BPost nat string string "string list"
  | Restart
  | Cleared
  | Elsewhere request

text \<open>
  The steps for the session \<open>sess\<close>: the calls of \<open>exchange\<close>, in the order the code makes them. An
  offer's nonce comes from \<open>newGen\<close>; the step is possible when no earlier attempt drew the same
  eight bytes.
\<close>

fun pr_step :: "string \<Rightarrow> pr_act \<Rightarrow> pairing \<Rightarrow> pairing option" where
  "pr_step sess (APost off) s =
     (if o_gen off \<noteq> [] \<and> o_gen off \<notin> (o_gen \<circ> aa_offer) ` set (pr_as s) then
        Some (s\<lparr>pr_server := putOffer sess ''peer-a'' off (pr_server s),
               pr_as := pr_as s @ [\<lparr>aa_offer = off, aa_accepted = None\<rparr>]\<rparr>)
      else None)"
| "pr_step sess (AAccept i) s =
     (if i < length (pr_as s) \<and> aa_accepted (pr_as s ! i) = None then
        (case AwaitAnswerMatching (o_gen (aa_offer (pr_as s ! i))) (poll (lookupAnswer sess (pr_server s))) of
           Inl e \<Rightarrow> None
         | Inr a \<Rightarrow> Some (s\<lparr>pr_as := (pr_as s)[i := (pr_as s ! i)\<lparr>aa_accepted := Some a\<rparr>]\<rparr>))
      else None)"
| "pr_step sess BRead s =
     (case AwaitOffer (poll (lookupOffer sess ''peer-a'' (pr_server s))) of
        Inl e \<Rightarrow> None
      | Inr off \<Rightarrow> Some (s\<lparr>pr_bs := pr_bs s @ [\<lparr>ba_read = off, ba_posted = None\<rparr>]\<rparr>))"
| "pr_step sess (BPost j u p cs) s =
     (if j < length (pr_bs s) \<and> ba_posted (pr_bs s ! j) = None then
        let a = \<lparr>o_ufrag = u, o_pwd = p, o_candidates = cs, o_gen = o_gen (ba_read (pr_bs s ! j))\<rparr> in
        Some (s\<lparr>pr_server := putAnswer sess a (pr_server s),
               pr_bs := (pr_bs s)[j := (pr_bs s ! j)\<lparr>ba_posted := Some a\<rparr>]\<rparr>)
      else None)"
| "pr_step sess Restart s = Some (s\<lparr>pr_server := NewServer (sv_secret (pr_server s))\<rparr>)"
| "pr_step sess Cleared s = Some (s\<lparr>pr_server := Clear sess (pr_server s)\<rparr>)"
| "pr_step sess (Elsewhere r) s =
     (if no_bar (request_session r) \<and> request_session r \<noteq> sess
      then Some (s\<lparr>pr_server := snd (Handler r (pr_server s))\<rparr>) else None)"

abbreviation pr_run :: "string \<Rightarrow> pr_act list \<Rightarrow> pairing \<Rightarrow> pairing option" where
  "pr_run sess \<equiv> run (pr_step sess)"

inductive paired :: "string \<Rightarrow> string \<Rightarrow> pairing \<Rightarrow> bool" for secret sess where
  begin_pairing: "paired secret sess (pairing_init secret)"
| next_step: "paired secret sess s \<Longrightarrow> pr_step sess a s = Some t \<Longrightarrow> paired secret sess t"

inductive_cases pairedE: "paired secret sess s"

section \<open>Invariant\<close>

definition offered :: "pairing \<Rightarrow> offer set" where
  "offered s = aa_offer ` set (pr_as s)"

definition answered :: "pairing \<Rightarrow> answer \<Rightarrow> bool" where
  "answered s a \<longleftrightarrow> (\<exists>b \<in> set (pr_bs s). ba_posted b = Some a \<and> o_gen a = o_gen (ba_read b))"

definition pr_inv :: "string \<Rightarrow> pairing \<Rightarrow> bool" where
  "pr_inv sess s \<longleftrightarrow>
     (\<forall>x. lookupOffer sess ''peer-a'' (pr_server s) = Some x \<longrightarrow> x \<in> offered s) \<and>
     (\<forall>x. lookupAnswer sess (pr_server s) = Some x \<longrightarrow> answered s x) \<and>
     (\<forall>b \<in> set (pr_bs s). ba_read b \<in> offered s) \<and>
     distinct (map (o_gen \<circ> aa_offer) (pr_as s)) \<and>
     (\<forall>a \<in> set (pr_as s). o_gen (aa_offer a) \<noteq> [] \<and>
        (\<forall>x. aa_accepted a = Some x \<longrightarrow> answered s x \<and> o_gen x = o_gen (aa_offer a)))"

lemma pr_inv_init: "pr_inv sess (pairing_init secret)"
  by (simp add: pr_inv_def pairing_init_def NewServer_def lookupOffer_def lookupAnswer_def)

lemma await_poll: "AwaitAnswerMatching g (poll found) = Inr a \<longleftrightarrow> found = Some a \<and> (g = [] \<or> o_gen a = g)"
  by (cases found) (auto simp: poll_def)

lemma await_offer_poll: "AwaitOffer (poll found) = Inr off \<longleftrightarrow> found = Some off"
  by (cases found) (simp_all add: poll_def)

text \<open>A step that only takes things away from the server.\<close>

lemma pr_inv_server:
  assumes "pr_inv sess s" and "\<And>x. lookupOffer sess ''peer-a'' v = Some x \<Longrightarrow> lookupOffer sess ''peer-a'' (pr_server s) = Some x"
    and "\<And>x. lookupAnswer sess v = Some x \<Longrightarrow> lookupAnswer sess (pr_server s) = Some x"
  shows "pr_inv sess (s\<lparr>pr_server := v\<rparr>)"
proof -
  have "offered (s\<lparr>pr_server := v\<rparr>) = offered s" "answered (s\<lparr>pr_server := v\<rparr>) = answered s"
    by (simp_all add: offered_def answered_def fun_eq_iff)
  then show ?thesis
    using assms by (simp add: pr_inv_def)
qed

lemma offers_same: "map aa_offer xs = map aa_offer ys \<Longrightarrow> aa_offer ` set xs = aa_offer ` set ys"
  by (metis list.set_map)

lemma pr_inv_post:
  assumes inv: "pr_inv sess s" and bar: "no_bar sess" and step: "pr_step sess (APost off) s = Some t"
  shows "pr_inv sess t"
proof -
  have new: "o_gen off \<noteq> []" "o_gen off \<notin> (o_gen \<circ> aa_offer) ` set (pr_as s)"
    and t: "t = s\<lparr>pr_server := putOffer sess ''peer-a'' off (pr_server s),
               pr_as := pr_as s @ [\<lparr>aa_offer = off, aa_accepted = None\<rparr>]\<rparr>"
    using step by (auto split: if_splits)
  have "offered t = insert off (offered s)" "answered t = answered s" "pr_bs t = pr_bs s"
    by (simp_all add: t offered_def answered_def fun_eq_iff)
  then show ?thesis
    using inv bar new unfolding pr_inv_def by (auto simp: t sv.reads)
qed

lemma pr_inv_accept:
  assumes inv: "pr_inv sess s" and step: "pr_step sess (AAccept i) s = Some t"
  shows "pr_inv sess t"
proof -
  obtain x where i: "i < length (pr_as s)" "lookupAnswer sess (pr_server s) = Some x"
    and g: "o_gen (aa_offer (pr_as s ! i)) = [] \<or> o_gen x = o_gen (aa_offer (pr_as s ! i))"
    and t: "t = s\<lparr>pr_as := (pr_as s)[i := (pr_as s ! i)\<lparr>aa_accepted := Some x\<rparr>]\<rparr>"
    using step by (auto simp: await_poll split: if_splits sum.splits)
  have same: "map aa_offer (pr_as t) = map aa_offer (pr_as s)"
    using i(1) by (simp add: t map_update) (metis list_update_id map_update)
  then have "offered t = offered s"
    unfolding offered_def by (rule offers_same)
  moreover have "map (o_gen \<circ> aa_offer) (pr_as t) = map (o_gen \<circ> aa_offer) (pr_as s)"
    using arg_cong [OF same, of "map o_gen"] by simp
  moreover have "answered t = answered s" "pr_server t = pr_server s" "pr_bs t = pr_bs s"
    by (simp_all add: t answered_def fun_eq_iff)
  moreover have "o_gen (aa_offer b) \<noteq> [] \<and>
      (\<forall>x. aa_accepted b = Some x \<longrightarrow> answered s x \<and> o_gen x = o_gen (aa_offer b))"
    if "b \<in> set (pr_as t)" for b
  proof -
    have old: "pr_as s ! i \<in> set (pr_as s)"
      using i(1) by simp
    have "b \<in> set (pr_as s) \<or> b = (pr_as s ! i)\<lparr>aa_accepted := Some x\<rparr>"
      using that set_update_subset_insert [of "pr_as s" i] by (auto simp: t)
    then show ?thesis
      using inv i(2) g old by (auto simp: pr_inv_def)
  qed
  ultimately show ?thesis
    using inv by (simp add: pr_inv_def)
qed

lemma pr_inv_read:
  assumes inv: "pr_inv sess s" and step: "pr_step sess BRead s = Some t"
  shows "pr_inv sess t"
proof -
  obtain off where "lookupOffer sess ''peer-a'' (pr_server s) = Some off"
    and t: "t = s\<lparr>pr_bs := pr_bs s @ [\<lparr>ba_read = off, ba_posted = None\<rparr>]\<rparr>"
    using step by (auto simp: await_offer_poll split: sum.splits)
  then have "off \<in> offered s" "offered t = offered s" "answered s x \<Longrightarrow> answered t x" for x
    using inv by (auto simp: pr_inv_def offered_def answered_def)
  then show ?thesis
    using inv by (auto simp: pr_inv_def t)
qed

lemma pr_inv_answer:
  assumes inv: "pr_inv sess s" and step: "pr_step sess (BPost j u p cs) s = Some t"
  shows "pr_inv sess t"
proof -
  let ?b = "pr_bs s ! j"
  let ?a = "\<lparr>o_ufrag = u, o_pwd = p, o_candidates = cs, o_gen = o_gen (ba_read ?b)\<rparr>"
  have j: "j < length (pr_bs s)" "ba_posted ?b = None"
    and t: "t = s\<lparr>pr_server := putAnswer sess ?a (pr_server s), pr_bs := (pr_bs s)[j := ?b\<lparr>ba_posted := Some ?a\<rparr>]\<rparr>"
    using step by (auto simp: Let_def split: if_splits)
  have b: "?b \<in> set (pr_bs s)" "?b\<lparr>ba_posted := Some ?a\<rparr> \<in> set (pr_bs t)"
    using j(1) by (simp_all add: t set_update_memI)
  have new: "answered t ?a"
    unfolding answered_def by (rule bexI [OF _ b(2)]) simp
  have old: "answered t x" if "answered s x" for x
  proof -
    obtain c where c: "c \<in> set (pr_bs s)" "ba_posted c = Some x" "o_gen x = o_gen (ba_read c)"
      using \<open>answered s x\<close> by (auto simp: answered_def)
    then obtain k where "k < length (pr_bs s)" "pr_bs s ! k = c"
      by (auto simp: in_set_conv_nth)
    then have "c \<in> set (pr_bs t)"
      using c(2) j by (auto simp: t in_set_conv_nth nth_list_update intro!: exI [of _ k])
    then show ?thesis
      using c by (auto simp: answered_def)
  qed
  have "ba_read c \<in> offered s" if "c \<in> set (pr_bs t)" for c
  proof -
    have "c \<in> set (pr_bs s) \<or> c = ?b\<lparr>ba_posted := Some ?a\<rparr>"
      using that set_update_subset_insert [of "pr_bs s" j] by (auto simp: t)
    then show ?thesis
      using inv b(1) by (auto simp: pr_inv_def)
  qed
  moreover have "offered t = offered s" "pr_as t = pr_as s"
    by (simp_all add: t offered_def)
  ultimately show ?thesis
    using inv new old by (auto simp: pr_inv_def t sv.reads)
qed

lemma pr_inv_step:
  assumes inv: "pr_inv sess s" and bar: "no_bar sess" and step: "pr_step sess a s = Some t"
  shows "pr_inv sess t"
proof (cases a)
  case (APost off)
  then show ?thesis
    using pr_inv_post [OF inv bar] step by blast
next
  case (AAccept i)
  then show ?thesis
    using pr_inv_accept [OF inv] step by blast
next
  case BRead
  then show ?thesis
    using pr_inv_read [OF inv] step by blast
next
  case (BPost j u p cs)
  then show ?thesis
    using pr_inv_answer [OF inv] step by blast
next
  case Restart
  then show ?thesis
    using step pr_inv_server [OF inv, of "NewServer (sv_secret (pr_server s))"]
    by (simp add: NewServer_def lookupOffer_def lookupAnswer_def)
next
  case Cleared
  have "pr_inv sess (s\<lparr>pr_server := Clear sess (pr_server s)\<rparr>)"
    by (rule pr_inv_server [OF inv]) (auto simp: Clear_def lookupOffer_def lookupAnswer_def split: if_splits)
  then show ?thesis
    using step Cleared by simp
next
  case (Elsewhere r)
  then show ?thesis
    using step pr_inv_server [OF inv, of "snd (Handler r (pr_server s))"]
      Handler_same [OF bar, of r "''peer-a''" "pr_server s"]
    by (auto split: if_splits)
qed

lemma paired_inv: "paired secret sess s \<Longrightarrow> no_bar sess \<Longrightarrow> pr_inv sess s"
  by (induction rule: paired.induct) (blast intro: pr_inv_init pr_inv_step)+

interpretation pr: machine_invariant "pr_step sess" "paired secret sess" "\<lambda>_. True" for secret sess
  by unfold_locales (rule next_step)

section \<open>Properties of the protocol\<close>

text \<open>C4 (safety): agreement. Whenever an attempt of the controlling peer has accepted an answer, some
  attempt of the controlled peer posted exactly that answer after reading exactly the offer of this
  attempt: both sides run the checks with each other's current credentials. Stale answers, stale
  offers, restarts of the server and repeated attempts of both sides cannot mix two attempts up,
  as long as no two attempts drew the same nonce.\<close>

theorem pairing_agreement:
  assumes "paired secret sess s" and "no_bar sess"
    and "a \<in> set (pr_as s)" and "aa_accepted a = Some x"
  shows "\<exists>b \<in> set (pr_bs s). ba_posted b = Some x \<and> ba_read b = aa_offer a"
proof -
  have inv: "pr_inv sess s"
    using paired_inv assms(1,2) by blast
  then obtain b where b: "b \<in> set (pr_bs s)" "ba_posted b = Some x" "o_gen x = o_gen (ba_read b)"
    and g: "o_gen x = o_gen (aa_offer a)"
    using assms(3,4) by (fastforce simp: pr_inv_def answered_def)
  obtain c where c: "c \<in> set (pr_as s)" "ba_read b = aa_offer c"
    using inv b(1) by (auto simp: pr_inv_def offered_def)
  have "inj_on (o_gen \<circ> aa_offer) (set (pr_as s))"
    using inv by (simp add: pr_inv_def distinct_map)
  then have "c = a"
    by (rule inj_onD) (use c b(3) g assms(3) in simp_all)
  then show ?thesis
    using b c by blast
qed

text \<open>The controlled peer reads a first offer, the controlling peer starts over, and the late answer
  to the first offer is in the server when the second attempt polls.\<close>

definition race :: "pr_act list" where
  "race = [APost (sample_offer ''g1''), BRead, APost (sample_offer ''g2''), BPost 0 ''u'' ''p'' [],
     BRead, BPost 1 ''v'' ''q'' [], AAccept 1]"

theorem pairing_agreement_witness:
  "\<exists>s. pr_run ''s1'' race (pairing_init ''k'') = Some s \<and>
     (\<exists>b \<in> set (pr_bs s). ba_posted b = aa_accepted (pr_as s ! 1) \<and> ba_read b = sample_offer ''g2'')"
proof -
  have k: "offer_key ''s1'' ''peer-a'' = ''s1|peer-a''"
    by (simp add: offer_key_def)
  have "\<exists>s x. pr_run ''s1'' race (pairing_init ''k'') = Some s \<and> pr_as s ! 1 \<in> set (pr_as s) \<and>
      aa_accepted (pr_as s ! 1) = Some x \<and> aa_offer (pr_as s ! 1) = sample_offer ''g2''"
    by (simp add: race_def pairing_init_def NewServer_def sample_offer_def poll_def lookupOffer_def
        lookupAnswer_def putOffer_def putAnswer_def k Let_def)
  then obtain s x where s: "pr_run ''s1'' race (pairing_init ''k'') = Some s" "pr_as s ! 1 \<in> set (pr_as s)"
    "aa_accepted (pr_as s ! 1) = Some x" "aa_offer (pr_as s ! 1) = sample_offer ''g2''"
    by blast
  have "paired ''k'' ''s1'' s"
    using pr.run_inv [OF s(1) begin_pairing] by simp
  from pairing_agreement [OF this _ s(2,3)] show ?thesis
    using s by (auto simp: no_bar_def)
qed

end
