(* ===== verification/PacketConn.thy ===== *)
theory PacketConn
  imports Prelude
begin

text \<open>
  \<open>PacketConnAdapter\<close> (\<open>internal/ice/ice.go\<close>, lines 267-292): the ICE library's stream-like
  connection as a packet connection with a fixed remote address, on which QUIC is laid. The
  library's connection is a parameter: its state and the operations on it.
\<close>

section \<open>The adapter\<close>

text \<open>A read returns what fits the buffer, and maybe an error; a write a count, and maybe an error.\<close>

record 'c ice_conn =
  ic_Read :: "nat \<Rightarrow> 'c \<Rightarrow> (byte list \<times> nat option) \<times> 'c"
  ic_Write :: "byte list \<Rightarrow> 'c \<Rightarrow> (nat \<times> nat option) \<times> 'c"
  ic_Close :: "'c \<Rightarrow> nat option \<times> 'c"
  ic_SetDeadline :: "int \<Rightarrow> 'c \<Rightarrow> nat option \<times> 'c"
  ic_SetReadDeadline :: "int \<Rightarrow> 'c \<Rightarrow> nat option \<times> 'c"
  ic_SetWriteDeadline :: "int \<Rightarrow> 'c \<Rightarrow> nat option \<times> 'c"
  ic_LocalAddr :: "'c \<Rightarrow> string"
  ic_RemoteAddr :: "'c \<Rightarrow> string"

record 'c packet_conn =
  pk_conn :: 'c
  pk_remote :: string

definition NewPacketConn :: "'c ice_conn \<Rightarrow> 'c \<Rightarrow> 'c packet_conn" where
  "NewPacketConn lib c = \<lparr>pk_conn = c, pk_remote = ic_RemoteAddr lib c\<rparr>"

definition pk_ReadFrom ::
    "'c ice_conn \<Rightarrow> nat \<Rightarrow> 'c packet_conn \<Rightarrow> (byte list \<times> string \<times> nat option) \<times> 'c packet_conn" where
  "pk_ReadFrom lib n p =
     (case ic_Read lib n (pk_conn p) of ((b, e), c) \<Rightarrow> ((b, pk_remote p, e), p\<lparr>pk_conn := c\<rparr>))"

definition pk_WriteTo ::
    "'c ice_conn \<Rightarrow> byte list \<Rightarrow> string \<Rightarrow> 'c packet_conn \<Rightarrow> (nat \<times> nat option) \<times> 'c packet_conn" where
  "pk_WriteTo lib b addr p = (case ic_Write lib b (pk_conn p) of (r, c) \<Rightarrow> (r, p\<lparr>pk_conn := c\<rparr>))"

definition pk_forward ::
    "('c \<Rightarrow> nat option \<times> 'c) \<Rightarrow> 'c packet_conn \<Rightarrow> nat option \<times> 'c packet_conn" where
  "pk_forward f p = (case f (pk_conn p) of (e, c) \<Rightarrow> (e, p\<lparr>pk_conn := c\<rparr>))"

definition pk_LocalAddr :: "'c ice_conn \<Rightarrow> 'c packet_conn \<Rightarrow> string" where
  "pk_LocalAddr lib p = ic_LocalAddr lib (pk_conn p)"

definition pk_RemoteAddr :: "'c packet_conn \<Rightarrow> string" where
  "pk_RemoteAddr p = pk_remote p"

text \<open>The calls that have an effect, and what they return.\<close>

datatype pk_operation =
    CallReadFrom nat
  | CallWriteTo "byte list" string
  | CallClose
  | CallSetDeadline int
  | CallSetReadDeadline int
  | CallSetWriteDeadline int

datatype pk_return =
    GotPacket "byte list" string "nat option"
  | Wrote nat "nat option"
  | Answered "nat option"

fun pk_call :: "'c ice_conn \<Rightarrow> pk_operation \<Rightarrow> 'c packet_conn \<Rightarrow> pk_return \<times> 'c packet_conn" where
  "pk_call lib (CallReadFrom n) p =
     (case pk_ReadFrom lib n p of ((b, a, e), q) \<Rightarrow> (GotPacket b a e, q))"
| "pk_call lib (CallWriteTo b a) p = (case pk_WriteTo lib b a p of ((k, e), q) \<Rightarrow> (Wrote k e, q))"
| "pk_call lib CallClose p = map_prod Answered id (pk_forward (ic_Close lib) p)"
| "pk_call lib (CallSetDeadline t) p = map_prod Answered id (pk_forward (ic_SetDeadline lib t) p)"
| "pk_call lib (CallSetReadDeadline t) p = map_prod Answered id (pk_forward (ic_SetReadDeadline lib t) p)"
| "pk_call lib (CallSetWriteDeadline t) p = map_prod Answered id (pk_forward (ic_SetWriteDeadline lib t) p)"

fun pk_calls :: "'c ice_conn \<Rightarrow> pk_operation list \<Rightarrow> 'c packet_conn \<Rightarrow> pk_return list \<times> 'c packet_conn" where
  "pk_calls lib [] p = ([], p)"
| "pk_calls lib (x # xs) p =
     (case pk_call lib x p of (r, q) \<Rightarrow> (case pk_calls lib xs q of (rs, q1) \<Rightarrow> (r # rs, q1)))"

section \<open>The connection it stands for\<close>

text \<open>
  The abstract contract: a connection to one peer, whose address is that of the creation. The
  adapter's calls are the library's, in the same order and with the same results; every packet
  comes from the one peer, even if the library's remote address changes, and the address given
  to a write is ignored.
\<close>

fun peer_call :: "'c ice_conn \<Rightarrow> string \<Rightarrow> pk_operation \<Rightarrow> 'c \<Rightarrow> pk_return \<times> 'c" where
  "peer_call lib peer (CallReadFrom n) c = (case ic_Read lib n c of ((b, e), d) \<Rightarrow> (GotPacket b peer e, d))"
| "peer_call lib peer (CallWriteTo b a) c = (case ic_Write lib b c of ((k, e), d) \<Rightarrow> (Wrote k e, d))"
| "peer_call lib peer CallClose c = map_prod Answered id (ic_Close lib c)"
| "peer_call lib peer (CallSetDeadline t) c = map_prod Answered id (ic_SetDeadline lib t c)"
| "peer_call lib peer (CallSetReadDeadline t) c = map_prod Answered id (ic_SetReadDeadline lib t c)"
| "peer_call lib peer (CallSetWriteDeadline t) c = map_prod Answered id (ic_SetWriteDeadline lib t c)"

fun peer_calls :: "'c ice_conn \<Rightarrow> string \<Rightarrow> pk_operation list \<Rightarrow> 'c \<Rightarrow> pk_return list \<times> 'c" where
  "peer_calls lib peer [] c = ([], c)"
| "peer_calls lib peer (x # xs) c =
     (case peer_call lib peer x c of (r, d) \<Rightarrow> (case peer_calls lib peer xs d of (rs, d1) \<Rightarrow> (r # rs, d1)))"

lemma pk_call_refines:
  "pk_call lib x p =
     (case peer_call lib (pk_remote p) x (pk_conn p) of (r, d) \<Rightarrow> (r, p\<lparr>pk_conn := d\<rparr>))"
  by (cases x) (simp_all add: pk_ReadFrom_def pk_WriteTo_def pk_forward_def split: prod.split)

lemma pk_calls_refine:
  "pk_calls lib xs p =
     (case peer_calls lib (pk_remote p) xs (pk_conn p) of (rs, d) \<Rightarrow> (rs, p\<lparr>pk_conn := d\<rparr>))"
proof (induction xs arbitrary: p)
  case (Cons x xs)
  obtain r d where "peer_call lib (pk_remote p) x (pk_conn p) = (r, d)"
    by fastforce
  then show ?case
    using Cons.IH [of "p\<lparr>pk_conn := d\<rparr>"] by (simp add: pk_call_refines split: prod.split)
qed simp

lemma peer_call_from: "peer_call lib peer x c = (GotPacket b a e, d) \<Longrightarrow> a = peer"
  by (cases x) (auto simp: map_prod_def split: prod.splits)

lemma peer_calls_from:
  "GotPacket b a e \<in> set (fst (peer_calls lib peer xs c)) \<Longrightarrow> a = peer"
proof (induction xs arbitrary: c)
  case (Cons x xs)
  obtain r d where r: "peer_call lib peer x c = (r, d)"
    by fastforce
  then have "r = GotPacket b a e \<or> GotPacket b a e \<in> set (fst (peer_calls lib peer xs d))"
    using Cons.prems by (auto split: prod.splits)
  then show ?case
    using Cons.IH [of d] r by (auto dest: peer_call_from)
qed simp

text \<open>Reading back the remote address, after any calls, gives the one QUIC was told to dial.\<close>

lemma remote_fixed:
  assumes "pk_calls lib xs (NewPacketConn lib c) = (rs, p)"
  shows "pk_RemoteAddr p = ic_RemoteAddr lib c" "GotPacket b a e \<in> set rs \<Longrightarrow> a = pk_RemoteAddr p"
proof -
  obtain d where d: "peer_calls lib (ic_RemoteAddr lib c) xs c = (rs, d)" "pk_remote p = ic_RemoteAddr lib c"
    using assms by (auto simp: pk_calls_refine NewPacketConn_def split: prod.splits)
  then show "pk_RemoteAddr p = ic_RemoteAddr lib c"
    by (simp add: pk_RemoteAddr_def)
  show "a = pk_RemoteAddr p" if "GotPacket b a e \<in> set rs"
    using peer_calls_from [of b a e lib "ic_RemoteAddr lib c" xs c] d that by (simp add: pk_RemoteAddr_def)
qed

end
