(* ===== verification/Tls.thy ===== *)
theory Tls
  imports Prelude
begin

text \<open>
  The QUIC and TLS settings of the transport (\<open>internal/transport/transport.go\<close>, lines 22 and
  129-202): \<open>quicConfig\<close>, the self-signed certificate with every error return, and the two TLS
  configurations. The cryptographic library is a parameter; keys, certificates and their encodings
  are byte lists. Durations and times are nanoseconds.
\<close>

section \<open>QUIC\<close>

definition alpn :: string where
  "alpn = ''nl-punch/1''"

record quic_config =
  qc_KeepAlivePeriod :: int
  qc_MaxIdleTimeout :: int
  qc_InitialStreamReceiveWindow :: u64
  qc_MaxStreamReceiveWindow :: u64
  qc_InitialConnectionReceiveWindow :: u64
  qc_MaxConnectionReceiveWindow :: u64
  qc_MaxIncomingStreams :: int
  qc_MaxIncomingUniStreams :: int
  qc_EnableDatagrams :: bool

definition quicConfig :: quic_config where
  "quicConfig =
     \<lparr>qc_KeepAlivePeriod = seconds 1,
      qc_MaxIdleTimeout = seconds (5 * 60),
      qc_InitialStreamReceiveWindow = 4 * 1024 * 1024,
      qc_MaxStreamReceiveWindow = 16 * 1024 * 1024,
      qc_InitialConnectionReceiveWindow = 8 * 1024 * 1024,
      qc_MaxConnectionReceiveWindow = 64 * 1024 * 1024,
      qc_MaxIncomingStreams = 1024,
      qc_MaxIncomingUniStreams = 1024,
      qc_EnableDatagrams = False\<rparr>"

section \<open>Certificate\<close>

datatype key_usage = DigitalSignature | KeyEncipherment

datatype ext_key_usage = ServerAuth | ClientAuth

record cert_template =
  ct_SerialNumber :: int
  ct_CommonName :: string
  ct_NotBefore :: int
  ct_NotAfter :: int
  ct_KeyUsage :: "key_usage set"
  ct_ExtKeyUsage :: "ext_key_usage list"
  ct_IPAddresses :: "nat list list"

datatype cert_error = KeyFailed nat | CreateFailed nat | MarshalFailed nat | KeyPairFailed nat

text \<open>
  What the library answers: \<open>ecdsa.GenerateKey\<close>, \<open>x509.CreateCertificate\<close> (the template signs
  itself), \<open>x509.MarshalECPrivateKey\<close>, \<open>pem.EncodeToMemory\<close>, \<open>tls.X509KeyPair\<close>.
\<close>

record crypto =
  cr_generateKey :: "nat + byte list"
  cr_createCertificate :: "cert_template \<Rightarrow> byte list \<Rightarrow> nat + byte list"
  cr_marshalKey :: "byte list \<Rightarrow> nat + byte list"
  cr_pem :: "string \<Rightarrow> byte list \<Rightarrow> byte list"
  cr_keyPair :: "byte list \<Rightarrow> byte list \<Rightarrow> nat + byte list"

text \<open>The clock is read twice, for the two ends of the validity.\<close>

definition cert_template :: "int \<Rightarrow> int \<Rightarrow> cert_template" where
  "cert_template now1 now2 =
     \<lparr>ct_SerialNumber = 1,
      ct_CommonName = ''nl-punch'',
      ct_NotBefore = now1 + -1 * seconds (60 * 60),
      ct_NotAfter = now2 + 24 * seconds (60 * 60),
      ct_KeyUsage = {DigitalSignature, KeyEncipherment},
      ct_ExtKeyUsage = [ServerAuth, ClientAuth],
      ct_IPAddresses = [[127, 0, 0, 1]]\<rparr>"

definition generateSelfSignedCert :: "crypto \<Rightarrow> int \<Rightarrow> int \<Rightarrow> cert_error + byte list" where
  "generateSelfSignedCert lib now1 now2 =
     (case cr_generateKey lib of
        Inl e \<Rightarrow> Inl (KeyFailed e)
      | Inr key \<Rightarrow>
          (case cr_createCertificate lib (cert_template now1 now2) key of
             Inl e \<Rightarrow> Inl (CreateFailed e)
           | Inr der \<Rightarrow>
               (case cr_marshalKey lib key of
                  Inl e \<Rightarrow> Inl (MarshalFailed e)
                | Inr keyDER \<Rightarrow>
                    map_sum KeyPairFailed id
                      (cr_keyPair lib (cr_pem lib ''CERTIFICATE'' der) (cr_pem lib ''EC PRIVATE KEY'' keyDER)))))"

section \<open>TLS\<close>

definition VersionTLS13 :: nat where
  "VersionTLS13 = 0x0304"

record tls_config =
  tc_Certificates :: "byte list list"
  tc_NextProtos :: "string list"
  tc_MinVersion :: nat
  tc_InsecureSkipVerify :: bool

definition serverTLSConfig :: "crypto \<Rightarrow> int \<Rightarrow> int \<Rightarrow> cert_error + tls_config" where
  "serverTLSConfig lib now1 now2 =
     (case generateSelfSignedCert lib now1 now2 of
        Inl e \<Rightarrow> Inl e
      | Inr cert \<Rightarrow>
          Inr \<lparr>tc_Certificates = [cert], tc_NextProtos = [alpn], tc_MinVersion = VersionTLS13,
            tc_InsecureSkipVerify = False\<rparr>)"

definition clientTLSConfig :: tls_config where
  "clientTLSConfig =
     \<lparr>tc_Certificates = [], tc_NextProtos = [alpn], tc_MinVersion = VersionTLS13,
      tc_InsecureSkipVerify = True\<rparr>"

section \<open>Lemmas\<close>

text \<open>
  Whatever the library does, the configurations of the two ends fit: they offer one protocol in
  common, the same least version, the server has exactly one certificate and the client does not
  verify it.
\<close>

lemma tls_ends_fit:
  assumes "serverTLSConfig lib now1 now2 = Inr srv"
  shows "tc_NextProtos srv = tc_NextProtos clientTLSConfig" "tc_NextProtos srv \<noteq> []"
    "tc_MinVersion srv = tc_MinVersion clientTLSConfig" "length (tc_Certificates srv) = 1"
    "tc_InsecureSkipVerify clientTLSConfig"
  using assms by (auto simp: serverTLSConfig_def clientTLSConfig_def split: sum.splits)

text \<open>The certificate is valid, from an hour before it is made, for a whole day of sessions.\<close>

lemma cert_valid_for_a_day:
  assumes "now1 \<le> t" and "t \<le> now2 + seconds (24 * 60 * 60)"
  shows "ct_NotBefore (cert_template now1 now2) \<le> t - seconds (60 * 60)"
    "t \<le> ct_NotAfter (cert_template now1 now2)"
  using assms by (simp_all add: cert_template_def seconds_def)

text \<open>The windows can grow and never wrap; a keep-alive is due well before an idle time-out.\<close>

lemma quic_windows:
  "qc_InitialStreamReceiveWindow quicConfig \<le> qc_MaxStreamReceiveWindow quicConfig"
  "qc_InitialConnectionReceiveWindow quicConfig \<le> qc_MaxConnectionReceiveWindow quicConfig"
  "qc_MaxStreamReceiveWindow quicConfig \<le> qc_MaxConnectionReceiveWindow quicConfig"
  "2 * qc_KeepAlivePeriod quicConfig \<le> qc_MaxIdleTimeout quicConfig"
  by (simp_all add: quicConfig_def seconds_def)

end
