(* ===== verification/PacketQueue.thy ===== *)
theory PacketQueue
  imports Machine "HOL-Library.Sublist"
begin

text \<open>
  The packet queue under quic-go (\<open>bufferedPacketConn\<close> of \<open>internal/transport/transport.go\<close>, lines
  54-127): the goroutine \<open>drain\<close> with its one read buffer, the bounded channel, and \<open>ReadFrom\<close>.
  Slices are addresses in a store, so that what is copied and what is shared can be told apart.
\<close>

section \<open>The queue\<close>

definition queueCap :: nat where
  "queueCap = 4096"

definition drainBuf :: nat where
  "drainBuf = 64 * 1024"

text \<open>Go's \<open>copy\<close>: the shorter of the two lengths is overwritten.\<close>

definition go_copy :: "byte list \<Rightarrow> byte list \<Rightarrow> byte list" where
  "go_copy dst src = take (length dst) src @ drop (length src) dst"

text \<open>A queued packet holds the address of its slice. Address 0 is the buffer of \<open>drain\<close>.\<close>

record packet =
  pa_data :: nat
  pa_addr :: string

text \<open>
  Where \<open>drain\<close> stands: about to read, about to copy the \<open>n\<close> bytes it read, about to send, or
  returned.
\<close>

datatype drain_at = DRead | DCopy nat string | DSend packet | DStopped

text \<open>
  \<open>pq_received\<close> records what the connection below delivered, \<open>pq_delivered\<close> what the calls of
  \<open>ReadFrom\<close> returned, with the size of the buffer they were called with, and \<open>pq_dropped\<close> counts.
\<close>

record packets =
  pq_mem :: "byte list list"
  pq_at :: drain_at
  pq_queue :: "packet list"
  pq_done :: bool
  pq_received :: "(byte list \<times> string) list"
  pq_dropped :: nat
  pq_delivered :: "(nat \<times> byte list \<times> string) list"

definition newBufferedPacketConn :: packets where
  "newBufferedPacketConn =
     \<lparr>pq_mem = [replicate drainBuf 0], pq_at = DRead, pq_queue = [], pq_done = False,
      pq_received = [], pq_dropped = 0, pq_delivered = []\<rparr>"

text \<open>
  The steps: the read below returns a datagram (cut to the buffer) or an error; \<open>drain\<close> copies it
  to a slice of its own, and sends it without blocking; \<open>ReadFrom\<close> takes the first packet, or is
  told that the connection is closed, which may happen although packets are left.
\<close>

datatype pq_act = Arrives "byte list" string | ReadFails | CopyPacket | SendPacket | ReadFrom nat | ReadClosed

fun pq_step :: "pq_act \<Rightarrow> packets \<Rightarrow> packets option" where
  "pq_step (Arrives p a) s =
     (if pq_at s = DRead then
        let buf = pq_mem s ! 0 in
        Some (s\<lparr>pq_mem := (pq_mem s)[0 := go_copy buf p],
                pq_at := DCopy (min (length buf) (length p)) a,
                pq_received := pq_received s @ [(take (length buf) p, a)]\<rparr>)
      else None)"
| "pq_step ReadFails s =
     (if pq_at s = DRead then Some (s\<lparr>pq_done := True, pq_at := DStopped\<rparr>) else None)"
| "pq_step CopyPacket s =
     (case pq_at s of
        DCopy n a \<Rightarrow>
          let data = go_copy (replicate n 0) (take n (pq_mem s ! 0)) in
          Some (s\<lparr>pq_mem := pq_mem s @ [data],
                  pq_at := DSend \<lparr>pa_data = length (pq_mem s), pa_addr = a\<rparr>\<rparr>)
      | _ \<Rightarrow> None)"
| "pq_step SendPacket s =
     (case pq_at s of
        DSend p \<Rightarrow>
          Some (if length (pq_queue s) < queueCap
                then s\<lparr>pq_queue := pq_queue s @ [p], pq_at := DRead\<rparr>
                else s\<lparr>pq_dropped := pq_dropped s + 1, pq_at := DRead\<rparr>)
      | _ \<Rightarrow> None)"
| "pq_step (ReadFrom k) s =
     (case pq_queue s of
        [] \<Rightarrow> None
      | p # ps \<Rightarrow>
          Some (s\<lparr>pq_queue := ps,
                  pq_delivered := pq_delivered s @ [(k, take k (pq_mem s ! pa_data p), pa_addr p)]\<rparr>))"
| "pq_step ReadClosed s = (if pq_done s then Some s else None)"

abbreviation pq_run :: "pq_act list \<Rightarrow> packets \<Rightarrow> packets option" where
  "pq_run \<equiv> run pq_step"

section \<open>Lemmas\<close>

lemma length_go_copy [simp]: "length (go_copy dst src) = length dst"
  by (simp add: go_copy_def)

lemma take_go_copy: "take (min (length dst) (length src)) (go_copy dst src) = take (length dst) src"
  by (simp add: go_copy_def min_def)

lemma go_copy_fresh: "length src = n \<Longrightarrow> go_copy (replicate n x) src = src"
  by (simp add: go_copy_def)

text \<open>What a packet stands for in the store, and what \<open>drain\<close> has read but not sent.\<close>

definition contents :: "byte list list \<Rightarrow> packet \<Rightarrow> byte list \<times> string" where
  "contents m p = (m ! pa_data p, pa_addr p)"

definition in_hand :: "packets \<Rightarrow> (byte list \<times> string) list" where
  "in_hand s =
     (case pq_at s of
        DCopy n a \<Rightarrow> [(take n (pq_mem s ! 0), a)]
      | DSend p \<Rightarrow> [contents (pq_mem s) p]
      | _ \<Rightarrow> [])"

text \<open>An address of a packet is neither the shared buffer nor unallocated.\<close>

definition owned :: "packets \<Rightarrow> packet \<Rightarrow> bool" where
  "owned s p \<longleftrightarrow> 0 < pa_data p \<and> pa_data p < length (pq_mem s)"

definition cut_to :: "nat \<times> byte list \<times> string \<Rightarrow> byte list \<times> string \<Rightarrow> bool" where
  "cut_to r d \<longleftrightarrow> (case r of (k, b, a) \<Rightarrow> b = take k (fst d) \<and> a = snd d)"

definition pq_shape :: "packets \<Rightarrow> bool" where
  "pq_shape s \<longleftrightarrow>
     pq_mem s \<noteq> [] \<and> length (pq_mem s ! 0) = drainBuf \<and> length (pq_queue s) \<le> queueCap \<and>
     (\<forall>p \<in> set (pq_queue s). owned s p) \<and>
     (case pq_at s of DCopy n a \<Rightarrow> n \<le> drainBuf | DSend p \<Rightarrow> owned s p | _ \<Rightarrow> True) \<and>
     (pq_done s \<longleftrightarrow> pq_at s = DStopped)"

definition pq_history :: "packets \<Rightarrow> (byte list \<times> string) list \<Rightarrow> bool" where
  "pq_history s ds \<longleftrightarrow>
     list_all2 cut_to (pq_delivered s) ds \<and>
     subseq (ds @ map (contents (pq_mem s)) (pq_queue s) @ in_hand s) (pq_received s) \<and>
     length (pq_received s) = length ds + length (pq_queue s) + length (in_hand s) + pq_dropped s"

lemma contents_overwrite [simp]: "owned s p \<Longrightarrow> contents ((pq_mem s)[0 := b]) p = contents (pq_mem s) p"
  by (simp add: owned_def contents_def)

lemma contents_grow [simp]: "owned s p \<Longrightarrow> contents (pq_mem s @ [b]) p = contents (pq_mem s) p"
  by (simp add: owned_def contents_def nth_append)

lemma owned_grow: "owned s p \<Longrightarrow> length (pq_mem s) \<le> length (pq_mem t) \<Longrightarrow> owned t p"
  by (simp add: owned_def)

lemma map_contents_cong:
  "(\<And>p. p \<in> set ps \<Longrightarrow> contents m p = contents m' p) \<Longrightarrow> map (contents m) ps = map (contents m') ps"
  by simp

lemma subseq_skip_last: "subseq (xs @ [y]) zs \<Longrightarrow> subseq xs zs"
  by (meson prefixI prefix_imp_subseq subseq_order.trans)

lemma subseq_snoc: "subseq xs ys \<Longrightarrow> subseq (xs @ [z]) (ys @ [z])"
  by (rule list_emb_append_mono) simp_all

lemma pq_shape_step:
  assumes "pq_shape s" and "pq_step a s = Some t"
  shows "pq_shape t"
  using assms
  by (cases a)
    (auto simp: pq_shape_def Let_def owned_def min_def nth_append less_SucI
      split: if_splits drain_at.splits list.splits)

lemma pq_history_step:
  assumes shape: "pq_shape s" and hist: "pq_history s ds" and step: "pq_step a s = Some t"
  shows "\<exists>ds'. pq_history t ds'"
proof (cases a)
  case (Arrives p x)
  let ?buf = "pq_mem s ! 0"
  have at: "pq_at s = DRead"
    and t: "t = s\<lparr>pq_mem := (pq_mem s)[0 := go_copy ?buf p], pq_at := DCopy (min (length ?buf) (length p)) x,
      pq_received := pq_received s @ [(take (length ?buf) p, x)]\<rparr>"
    using step Arrives by (auto simp: Let_def split: if_splits)
  have q: "map (contents (pq_mem t)) (pq_queue s) = map (contents (pq_mem s)) (pq_queue s)"
    using shape by (simp add: t pq_shape_def)
  have "in_hand t = [(take (length ?buf) p, x)]"
    using shape take_go_copy [of ?buf p] by (auto simp: t in_hand_def pq_shape_def)
  moreover have "pq_delivered t = pq_delivered s" "pq_queue t = pq_queue s" "pq_dropped t = pq_dropped s"
    "pq_received t = pq_received s @ [(take (length ?buf) p, x)]"
    by (simp_all add: t)
  moreover have "in_hand s = []"
    by (simp add: at in_hand_def)
  ultimately have "pq_history t ds"
    using hist subseq_snoc [of "ds @ map (contents (pq_mem s)) (pq_queue s)" "pq_received s"]
    by (simp add: pq_history_def q)
  then show ?thesis ..
next
  case ReadFails
  then have "pq_history t ds"
    using hist step by (auto simp: pq_history_def in_hand_def split: if_splits)
  then show ?thesis ..
next
  case CopyPacket
  then obtain n x where at: "pq_at s = DCopy n x"
    and t: "t = s\<lparr>pq_mem := pq_mem s @ [go_copy (replicate n 0) (take n (pq_mem s ! 0))],
      pq_at := DSend \<lparr>pa_data = length (pq_mem s), pa_addr = x\<rparr>\<rparr>"
    using step by (auto simp: Let_def split: drain_at.splits)
  have "length (take n (pq_mem s ! 0)) = n"
    using shape at by (simp add: pq_shape_def)
  then have "in_hand t = in_hand s"
    by (simp add: t at in_hand_def contents_def nth_append go_copy_fresh)
  moreover have q: "map (contents (pq_mem t)) (pq_queue s) = map (contents (pq_mem s)) (pq_queue s)"
    using shape by (simp add: t pq_shape_def)
  moreover have "pq_delivered t = pq_delivered s" "pq_queue t = pq_queue s" "pq_dropped t = pq_dropped s"
    "pq_received t = pq_received s"
    by (simp_all add: t)
  ultimately have "pq_history t ds"
    using hist unfolding pq_history_def by (simp only: q)
  then show ?thesis ..
next
  case SendPacket
  then obtain p where at: "pq_at s = DSend p"
    and t: "t = (if length (pq_queue s) < queueCap then s\<lparr>pq_queue := pq_queue s @ [p], pq_at := DRead\<rparr>
                 else s\<lparr>pq_dropped := pq_dropped s + 1, pq_at := DRead\<rparr>)"
    using step by (auto split: drain_at.splits)
  have "pq_history t ds"
    using hist at subseq_skip_last [of "ds @ map (contents (pq_mem s)) (pq_queue s)" "contents (pq_mem s) p"]
    by (auto simp: t pq_history_def in_hand_def)
  then show ?thesis ..
next
  case (ReadFrom k)
  then obtain p ps where q: "pq_queue s = p # ps"
    and t: "t = s\<lparr>pq_queue := ps, pq_delivered := pq_delivered s @ [(k, take k (pq_mem s ! pa_data p), pa_addr p)]\<rparr>"
    using step by (auto split: list.splits)
  have "in_hand t = in_hand s" "pq_mem t = pq_mem s" "pq_queue t = ps" "pq_received t = pq_received s"
    "pq_dropped t = pq_dropped s"
    "pq_delivered t = pq_delivered s @ [(k, take k (pq_mem s ! pa_data p), pa_addr p)]"
    by (simp_all add: t in_hand_def split: drain_at.split)
  then have "pq_history t (ds @ [contents (pq_mem s) p])"
    using hist q by (simp add: pq_history_def list_all2_appendI cut_to_def contents_def)
  then show ?thesis ..
next
  case ReadClosed
  then have "t = s"
    using step by (simp split: if_splits)
  then show ?thesis
    using hist by blast
qed

lemma drain_moves:
  assumes "pq_shape s"
  shows "case pq_at s of
      DRead \<Rightarrow> \<forall>p a. pq_step (Arrives p a) s \<noteq> None
    | DCopy n a \<Rightarrow> pq_step CopyPacket s \<noteq> None
    | DSend p \<Rightarrow> \<exists>t. pq_step SendPacket s = Some t \<and> pq_at t = DRead \<and>
        (if length (pq_queue s) < queueCap then pq_queue t = pq_queue s @ [p] \<and> pq_dropped t = pq_dropped s
         else pq_queue t = pq_queue s \<and> pq_dropped t = Suc (pq_dropped s))
    | DStopped \<Rightarrow> pq_done s"
  using assms by (cases "length (pq_queue s) < queueCap") (auto simp: pq_shape_def Let_def split: drain_at.splits)

interpretation pq: machine_invariant pq_step "\<lambda>s. pq_shape s \<and> (\<exists>ds. pq_history s ds)" "\<lambda>_. True"
  by unfold_locales (blast dest: pq_shape_step pq_history_step)

lemma pq_inv_new: "pq_shape newBufferedPacketConn \<and> (\<exists>ds. pq_history newBufferedPacketConn ds)"
  by (auto simp: pq_shape_def pq_history_def newBufferedPacketConn_def in_hand_def intro: exI [of _ "[]"])

section \<open>Properties of the queue\<close>

text \<open>C34 (bounds): the packet queue under quic-go never holds more than 4096 packets, and it is a lossy
  queue: what the calls of \<open>ReadFrom\<close> returned, and then what is queued, are in order among the
  datagrams that arrived (cut to 64 KiB), with their addresses, each cut to the caller's buffer and
  otherwise unaltered although \<open>drain\<close> reads every datagram into the same buffer; as many are missing
  as were dropped, apart from one \<open>drain\<close> may have in hand. A packet is dropped exactly when the
  queue is full, and \<open>drain\<close> never blocks on it.\<close>

theorem packet_queue_lossy_fifo:
  assumes "pq_run as newBufferedPacketConn = Some s"
  shows "length (pq_queue s) \<le> queueCap \<and>
    (\<exists>ds. list_all2 (\<lambda>(k, b, a) (d, a'). b = take k d \<and> a = a') (pq_delivered s) ds \<and>
       subseq (ds @ map (\<lambda>p. (pq_mem s ! pa_data p, pa_addr p)) (pq_queue s)) (pq_received s) \<and>
       length (pq_received s) =
         length ds + length (pq_queue s) + pq_dropped s + (if pq_at s \<in> {DRead, DStopped} then 0 else 1) \<and>
       (pq_dropped s = 0 \<longrightarrow> prefix (ds @ map (\<lambda>p. (pq_mem s ! pa_data p, pa_addr p)) (pq_queue s)) (pq_received s))) \<and>
    (case pq_at s of
       DRead \<Rightarrow> \<forall>p a. pq_step (Arrives p a) s \<noteq> None
     | DCopy n a \<Rightarrow> pq_step CopyPacket s \<noteq> None
     | DSend p \<Rightarrow> \<exists>t. pq_step SendPacket s = Some t \<and> pq_at t = DRead \<and>
         (if length (pq_queue s) < queueCap then pq_queue t = pq_queue s @ [p] \<and> pq_dropped t = pq_dropped s
          else pq_queue t = pq_queue s \<and> pq_dropped t = Suc (pq_dropped s))
     | DStopped \<Rightarrow> pq_done s)"
proof -
  let ?q = "map (\<lambda>p. (pq_mem s ! pa_data p, pa_addr p)) (pq_queue s)"
  have "pq_shape s \<and> (\<exists>ds. pq_history s ds)"
    by (rule pq.run_inv [OF assms pq_inv_new]) simp
  then obtain ds where shape: "pq_shape s" and hist: "pq_history s ds"
    by blast
  have q: "map (contents (pq_mem s)) (pq_queue s) = ?q"
    by (simp add: contents_def)
  have sub: "subseq ((ds @ ?q) @ in_hand s) (pq_received s)"
    using hist by (simp add: pq_history_def q)
  have hand: "length (in_hand s) = (if pq_at s \<in> {DRead, DStopped} then 0 else 1)"
    by (simp add: in_hand_def split: drain_at.split)
  have "prefix (ds @ ?q) (pq_received s)" if "pq_dropped s = 0"
  proof -
    have "(ds @ ?q) @ in_hand s = pq_received s"
      using hist that by (intro subseq_same_length [OF sub]) (simp add: pq_history_def)
    then show ?thesis
      by (metis prefixI)
  qed
  moreover have "subseq (ds @ ?q) (pq_received s)"
    using sub by (meson prefixI prefix_imp_subseq subseq_order.trans)
  moreover have "list_all2 (\<lambda>(k, b, a) (d, a'). b = take k d \<and> a = a') (pq_delivered s) ds"
    using hist unfolding pq_history_def cut_to_def
    by (auto elim!: list_all2_mono)
  ultimately have "\<exists>ds. list_all2 (\<lambda>(k, b, a) (d, a'). b = take k d \<and> a = a') (pq_delivered s) ds \<and>
       subseq (ds @ ?q) (pq_received s) \<and>
       length (pq_received s) =
         length ds + length (pq_queue s) + pq_dropped s + (if pq_at s \<in> {DRead, DStopped} then 0 else 1) \<and>
       (pq_dropped s = 0 \<longrightarrow> prefix (ds @ ?q) (pq_received s))"
    using hist hand by (intro exI [of _ ds]) (simp add: pq_history_def)
  moreover have "length (pq_queue s) \<le> queueCap"
    using shape by (simp add: pq_shape_def)
  ultimately show ?thesis
    using drain_moves [OF shape] by (intro conjI)
qed

theorem packet_queue_lossy_fifo_witness:
  "\<exists>s. pq_run [Arrives [1] ''a'', CopyPacket, SendPacket, Arrives [2, 3] ''a'', CopyPacket, SendPacket,
       ReadFrom 2, ReadFrom 1, ReadFails] newBufferedPacketConn = Some s \<and>
     pq_delivered s = [(2, [1], ''a''), (1, [2], ''a'')] \<and> length (pq_received s) = 2 + pq_dropped s"
proof -
  have "3 \<le> drainBuf" "2 < queueCap"
    by (simp_all add: drainBuf_def queueCap_def)
  then obtain s where s: "pq_run [Arrives [1] ''a'', CopyPacket, SendPacket, Arrives [2, 3] ''a'', CopyPacket, SendPacket,
       ReadFrom 2, ReadFrom 1, ReadFails] newBufferedPacketConn = Some s"
    "pq_delivered s = [(2, [1], ''a''), (1, [2], ''a'')]" "pq_queue s = []" "pq_at s = DStopped"
    by (simp add: newBufferedPacketConn_def go_copy_def nth_append)
  then show ?thesis
    using packet_queue_lossy_fifo [OF s(1)] by (auto dest: list_all2_lengthD)
qed

end
