(* ===== verification/Transport.thy ===== *)
theory Transport
  imports Machine Tls "HOL-Library.Sublist"
begin

text \<open>
  The multiplexed transport (\<open>internal/transport/transport.go\<close>): setting up the parallel QUIC
  connections of a session (\<open>Serve\<close>, \<open>Dial\<close>), the round-robin of \<open>OpenStream\<close>, the fan-in of
  \<open>acceptLoop\<close> and \<open>AcceptStream\<close>, and \<open>Close\<close>. The QUIC
  library is not part of the repository: its connections are numbers and its answers parameters.
\<close>

definition numSubconns :: nat where
  "numSubconns = 4"

section \<open>Setting up\<close>

datatype setup_error =
    TLSFailed cert_error
  | ListenFailed nat
  | ResolveFailed nat
  | AcceptFailed nat nat
  | DialFailed nat nat

text \<open>
  The loop of \<open>Serve\<close> and \<open>Dial\<close> over the results of \<open>Accept\<close> or \<open>tr.Dial\<close>: the connections, or
  the error with the number of the attempt and the connections that were aborted.
\<close>

fun collect :: "(nat \<Rightarrow> nat \<Rightarrow> setup_error) \<Rightarrow> nat \<Rightarrow> (nat + 'c) list \<Rightarrow> 'c list \<Rightarrow> (setup_error \<times> 'c list) + 'c list" where
  "collect err n rs conns =
     (if n \<le> length conns then Inr conns
      else case rs of
        [] \<Rightarrow> Inl (err (length conns) 0, conns)
      | Inl e # rs1 \<Rightarrow> Inl (err (length conns) e, conns)
      | Inr c # rs1 \<Rightarrow> collect err n rs1 (conns @ [c]))"

declare collect.simps [simp del]

text \<open>
  What a set-up leaves: the result, the connections aborted, whether the listener is still open, and
  whether it started the packet queue's goroutine and the QUIC transport that runs on it.
\<close>

record 'c started =
  su_result :: "setup_error + 'c list"
  su_aborted :: "'c list"
  su_listening :: bool
  su_started :: bool

text \<open>\<open>listen\<close> and \<open>dials\<close> are the library's answers, given the configurations the code passes.\<close>

definition Serve ::
    "cert_error + tls_config \<Rightarrow> (tls_config \<Rightarrow> quic_config \<Rightarrow> nat option) \<Rightarrow> (nat + 'c) list \<Rightarrow> 'c started" where
  "Serve tls listen accepts =
     (case tls of
        Inl e \<Rightarrow> \<lparr>su_result = Inl (TLSFailed e), su_aborted = [], su_listening = False, su_started = False\<rparr>
      | Inr tlsConf \<Rightarrow>
          (case listen tlsConf quicConfig of
             Some e \<Rightarrow> \<lparr>su_result = Inl (ListenFailed e), su_aborted = [], su_listening = False, su_started = True\<rparr>
           | None \<Rightarrow>
               (case collect AcceptFailed numSubconns accepts [] of
                  Inl (e, conns) \<Rightarrow> \<lparr>su_result = Inl e, su_aborted = conns, su_listening = False, su_started = True\<rparr>
                | Inr conns \<Rightarrow> \<lparr>su_result = Inr conns, su_aborted = [], su_listening = False, su_started = True\<rparr>)))"

definition Dial ::
    "(string \<Rightarrow> nat + 'addr) \<Rightarrow> ('addr \<Rightarrow> tls_config \<Rightarrow> quic_config \<Rightarrow> (nat + 'c) list) \<Rightarrow> string \<Rightarrow> 'c started" where
  "Dial resolve dials raddr =
     (case resolve raddr of
        Inl e \<Rightarrow> \<lparr>su_result = Inl (ResolveFailed e), su_aborted = [], su_listening = False, su_started = False\<rparr>
      | Inr udpAddr \<Rightarrow>
          (case collect DialFailed numSubconns (dials udpAddr clientTLSConfig quicConfig) [] of
             Inl (e, conns) \<Rightarrow> \<lparr>su_result = Inl e, su_aborted = conns, su_listening = False, su_started = True\<rparr>
           | Inr conns \<Rightarrow> \<lparr>su_result = Inr conns, su_aborted = [], su_listening = False, su_started = True\<rparr>))"

section \<open>Opening streams\<close>

text \<open>\<open>OpenStream\<close>: the 64-bit counter is increased, its remainder picks the connection.\<close>

definition pick_conn :: "nat \<Rightarrow> u64 \<Rightarrow> nat \<times> u64" where
  "pick_conn n ctr = (unat ((ctr + 1) mod of_nat n), ctr + 1)"

fun picks :: "nat \<Rightarrow> nat \<Rightarrow> u64 \<Rightarrow> nat list" where
  "picks n 0 ctr = []"
| "picks n (Suc k) ctr = (case pick_conn n ctr of (i, ctr1) \<Rightarrow> i # picks n k ctr1)"

section \<open>Accepting streams\<close>

text \<open>
  One \<open>acceptLoop\<close> per connection puts the streams of its connection on the channel of 64 that
  \<open>AcceptStream\<close> reads. A loop is about to call the library, blocked on the channel with a stream,
  about to report the error that ended it (unless the session was closed), or has returned.
  A call of \<open>Close\<close> is about to swap the flag, about to close connection \<open>k\<close>, waiting for the loops,
  about to close the channel, or has returned; calls may overlap.
\<close>

definition acceptCap :: nat where
  "acceptCap = 64"

datatype 'c accept_result = Stream nat 'c | SubconnError nat nat

datatype 'c accept_loop = Accepting | Offering 'c | Reporting nat | Returned

datatype closer = SwapClosed | CloseConns nat | WaitLoops | CloseChannel | CloseReturned

text \<open>
  \<open>ss_done\<close> says which connections' contexts are done; \<open>ss_drains\<close> counts the goroutines of \<open>Close\<close>
  that empty the channel; \<open>ss_chan_closed\<close> that the channel was closed. \<open>ss_panicked\<close>: the runtime
  stopped the program, because of a send on a closed channel or a second close of it.
  \<open>ss_taken\<close>, \<open>ss_accepted\<close> and \<open>ss_incoming\<close> record what left the channel, what \<open>AcceptStream\<close>
  returned of it, and what the connections opened.
\<close>

record 'c session =
  ss_loops :: "'c accept_loop list"
  ss_done :: "bool list"
  ss_chan :: "'c accept_result list"
  ss_closed :: bool
  ss_closers :: "closer list"
  ss_drains :: nat
  ss_chan_closed :: bool
  ss_panicked :: bool
  ss_taken :: "'c accept_result list"
  ss_accepted :: "'c accept_result list"
  ss_incoming :: "(nat \<times> 'c) list"

definition newSession :: "nat \<Rightarrow> 'c session" where
  "newSession n =
     \<lparr>ss_loops = replicate n Accepting, ss_done = replicate n False, ss_chan = [], ss_closed = False,
      ss_closers = [], ss_drains = 0, ss_chan_closed = False, ss_panicked = False,
      ss_taken = [], ss_accepted = [], ss_incoming = []\<rparr>"

text \<open>
  The steps: the connection's peer opens a stream, or its \<open>AcceptStream\<close> fails; the loop sends the
  stream, gives up as the connection is done, or reports the error if there is room; the
  application accepts a result or is told the channel is closed; a connection ends by itself;
  \<open>Close\<close> is called, and call \<open>j\<close> of it makes a step; a draining goroutine takes a result, or ends.
\<close>

datatype 'c ss_act =
    Incoming nat 'c
  | AcceptErr nat nat
  | PutStream nat
  | ConnDone nat
  | Report nat
  | AcceptStream
  | AcceptClosed
  | ConnEnds nat
  | CallClose
  | CloseStep nat
  | DrainOne
  | DrainEnds

definition loop_at :: "'c session \<Rightarrow> nat \<Rightarrow> 'c accept_loop option" where
  "loop_at s i = (if i < length (ss_loops s) then Some (ss_loops s ! i) else None)"

definition set_loop :: "nat \<Rightarrow> 'c accept_loop \<Rightarrow> 'c session \<Rightarrow> 'c session" where
  "set_loop i l s = s\<lparr>ss_loops := (ss_loops s)[i := l]\<rparr>"

definition set_closer :: "nat \<Rightarrow> closer \<Rightarrow> 'c session \<Rightarrow> 'c session" where
  "set_closer j c s = s\<lparr>ss_closers := (ss_closers s)[j := c]\<rparr>"

text \<open>A send on the channel, by a loop that has found room for it.\<close>

definition send_result :: "'c accept_result \<Rightarrow> 'c session \<Rightarrow> 'c session" where
  "send_result r s =
     (if ss_chan_closed s then s\<lparr>ss_panicked := True\<rparr> else s\<lparr>ss_chan := ss_chan s @ [r]\<rparr>)"

definition close_step :: "nat \<Rightarrow> closer \<Rightarrow> 'c session \<Rightarrow> 'c session option" where
  "close_step j c s =
     (case c of
        SwapClosed \<Rightarrow>
          Some (if ss_closed s then set_closer j CloseReturned s
                else set_closer j (CloseConns 0) (s\<lparr>ss_closed := True\<rparr>))
      | CloseConns k \<Rightarrow>
          Some (if k < length (ss_done s)
                then set_closer j (CloseConns (Suc k)) (s\<lparr>ss_done := (ss_done s)[k := True]\<rparr>)
                else set_closer j WaitLoops (s\<lparr>ss_drains := ss_drains s + 1\<rparr>))
      | WaitLoops \<Rightarrow>
          (if \<forall>l \<in> set (ss_loops s). l = Returned then Some (set_closer j CloseChannel s) else None)
      | CloseChannel \<Rightarrow>
          Some (if ss_chan_closed s then s\<lparr>ss_panicked := True\<rparr>
                else set_closer j CloseReturned (s\<lparr>ss_chan_closed := True\<rparr>))
      | CloseReturned \<Rightarrow> None)"

fun ss_does :: "'c ss_act \<Rightarrow> 'c session \<Rightarrow> 'c session option" where
  "ss_does (Incoming i st) s =
     (case loop_at s i of
        Some Accepting \<Rightarrow> Some (set_loop i (Offering st) (s\<lparr>ss_incoming := ss_incoming s @ [(i, st)]\<rparr>))
      | _ \<Rightarrow> None)"
| "ss_does (AcceptErr i e) s =
     (case loop_at s i of
        Some Accepting \<Rightarrow> Some (set_loop i (if ss_closed s then Returned else Reporting e) s)
      | _ \<Rightarrow> None)"
| "ss_does (PutStream i) s =
     (case loop_at s i of
        Some (Offering st) \<Rightarrow>
          (if length (ss_chan s) < acceptCap \<or> ss_chan_closed s
           then Some (set_loop i Accepting (send_result (Stream i st) s)) else None)
      | _ \<Rightarrow> None)"
| "ss_does (ConnDone i) s =
     (case loop_at s i of
        Some (Offering st) \<Rightarrow> (if ss_done s ! i then Some (set_loop i Returned s) else None)
      | _ \<Rightarrow> None)"
| "ss_does (Report i) s =
     (case loop_at s i of
        Some (Reporting e) \<Rightarrow>
          Some (set_loop i Returned
            (if length (ss_chan s) < acceptCap \<or> ss_chan_closed s then send_result (SubconnError i e) s else s))
      | _ \<Rightarrow> None)"
| "ss_does AcceptStream s =
     (case ss_chan s of
        [] \<Rightarrow> None
      | r # rs \<Rightarrow> Some (s\<lparr>ss_chan := rs, ss_taken := ss_taken s @ [r], ss_accepted := ss_accepted s @ [r]\<rparr>))"
| "ss_does AcceptClosed s = (if ss_chan_closed s \<and> ss_chan s = [] then Some s else None)"
| "ss_does (ConnEnds i) s = Some (s\<lparr>ss_done := (ss_done s)[i := True]\<rparr>)"
| "ss_does CallClose s = Some (s\<lparr>ss_closers := ss_closers s @ [SwapClosed]\<rparr>)"
| "ss_does (CloseStep j) s =
     (if j < length (ss_closers s) then close_step j (ss_closers s ! j) s else None)"
| "ss_does DrainOne s =
     (if ss_drains s > 0 then
        (case ss_chan s of
           [] \<Rightarrow> None
         | r # rs \<Rightarrow> Some (s\<lparr>ss_chan := rs, ss_taken := ss_taken s @ [r]\<rparr>))
      else None)"
| "ss_does DrainEnds s =
     (if ss_drains s > 0 \<and> ss_chan_closed s \<and> ss_chan s = [] then Some (s\<lparr>ss_drains := ss_drains s - 1\<rparr>)
      else None)"

text \<open>After a panic nothing runs any more.\<close>

definition ss_step :: "'c ss_act \<Rightarrow> 'c session \<Rightarrow> 'c session option" where
  "ss_step a s = (if ss_panicked s then None else ss_does a s)"

abbreviation ss_run :: "'c ss_act list \<Rightarrow> 'c session \<Rightarrow> 'c session option" where
  "ss_run \<equiv> run ss_step"

text \<open>\<open>AcceptStream\<close>'s result.\<close>

fun accept_value :: "'c accept_result \<Rightarrow> nat + 'c" where
  "accept_value (Stream i st) = Inr st"
| "accept_value (SubconnError i e) = Inl e"

text \<open>\<open>Wait\<close> fires when the context of any of the connections is done.\<close>

definition wait_fires :: "bool list \<Rightarrow> bool" where
  "wait_fires contexts \<longleftrightarrow> (\<exists>d \<in> set contexts. d)"

section \<open>Lemmas\<close>

lemma collect_result:
  "length conns \<le> n \<Longrightarrow>
   (\<exists>ds. map Inr ds = take (length ds) rs \<and>
      (length (conns @ ds) = n \<and> collect err n rs conns = Inr (conns @ ds) \<or>
       length (conns @ ds) < n \<and> (\<exists>x. collect err n rs conns = Inl (err (length (conns @ ds)) x, conns @ ds))))"
proof (induction err n rs conns rule: collect.induct)
  case (1 err n rs conns)
  show ?case
  proof (cases "n \<le> length conns")
    case True
    then have "collect err n rs conns = Inr conns"
      by (subst collect.simps) simp
    then show ?thesis
      using True "1.prems" by (intro exI [of _ "[]"]) simp
  next
    case False
    show ?thesis
    proof (cases rs)
      case Nil
      then have "collect err n rs conns = Inl (err (length conns) 0, conns)"
        using False by (subst collect.simps) simp
      then show ?thesis
        using False by (intro exI [of _ "[]"]) auto
    next
      case (Cons r rs1)
      show ?thesis
      proof (cases r)
        case (Inl e)
        then have "collect err n rs conns = Inl (err (length conns) e, conns)"
          using False Cons by (subst collect.simps) simp
        then show ?thesis
          using False by (intro exI [of _ "[]"]) auto
      next
        case (Inr c)
        have "length (conns @ [c]) \<le> n"
          using False by simp
        from "1.IH" [OF False Cons Inr this] obtain ds where
          ds: "map Inr ds = take (length ds) rs1"
            "length (conns @ c # ds) = n \<and> collect err n rs1 (conns @ [c]) = Inr (conns @ c # ds) \<or>
             length (conns @ c # ds) < n \<and>
             (\<exists>x. collect err n rs1 (conns @ [c]) = Inl (err (length (conns @ c # ds)) x, conns @ c # ds))"
          by auto
        have "collect err n rs conns = collect err n rs1 (conns @ [c])"
          using False Cons Inr by (subst collect.simps) simp
        then show ?thesis
          using ds Cons Inr by (intro exI [of _ "c # ds"]) simp
      qed
    qed
  qed
qed

lemma Serve_started:
  "su_started (Serve tls listen rs) =
     (case su_result (Serve tls listen rs) of Inl (TLSFailed _) \<Rightarrow> False | Inl (ResolveFailed _) \<Rightarrow> False | _ \<Rightarrow> True)"
  using collect_result [where conns = "[]" and n = numSubconns and err = AcceptFailed and rs = rs]
  by (auto simp: Serve_def split: option.splits sum.splits)

lemma Dial_started:
  "su_started (Dial resolve dials raddr) =
     (case su_result (Dial resolve dials raddr) of
        Inl (TLSFailed _) \<Rightarrow> False | Inl (ResolveFailed _) \<Rightarrow> False | _ \<Rightarrow> True)"
  using collect_result [where conns = "[]" and n = numSubconns and err = DialFailed
      and rs = "dials (projr (resolve raddr)) clientTLSConfig quicConfig"]
  by (auto simp: Dial_def split: option.splits sum.splits)

lemma unat_mod_four: "unat (w mod 4 :: u64) = unat w mod 4"
  by (simp add: unat_mod)

lemma unat_succ_mod_four: "unat (w + 1 :: u64) mod 4 = Suc (unat w) mod 4"
proof (cases "unat w + 1 < 2 ^ 64")
  case True
  then show ?thesis
    by (simp add: unat_word_ariths)
next
  case False
  have "unat w < 2 ^ 64"
    using unsigned_less [where w = w and 'a = nat] by simp
  then have "unat w = 2 ^ 64 - 1"
    using False by simp
  then show ?thesis
    by (simp add: unat_word_ariths)
qed

text \<open>The picks of four connections count up modulo four, through the wrap-around of the counter.\<close>

lemma picks_four: "k < m \<Longrightarrow> picks 4 m ctr ! k = (unat ctr + 1 + k) mod 4"
proof (induction m arbitrary: k ctr)
  case (Suc m)
  show ?case
  proof (cases k)
    case 0
    then show ?thesis
      by (simp add: pick_conn_def unat_mod_four unat_succ_mod_four)
  next
    case (Suc j)
    then have "picks 4 (Suc m) ctr ! k = (unat (ctr + 1) + 1 + j) mod 4"
      using Suc.IH [of j "ctr + 1"] Suc.prems by (simp add: pick_conn_def)
    also have "\<dots> = (unat (ctr + 1) mod 4 + (1 + j)) mod 4"
      by (simp only: add.assoc mod_add_left_eq)
    also have "\<dots> = (Suc (unat ctr) mod 4 + (1 + j)) mod 4"
      by (simp only: unat_succ_mod_four)
    also have "\<dots> = (unat ctr + 1 + k) mod 4"
      using Suc by (simp only: mod_add_left_eq) simp
    finally show ?thesis .
  qed
qed simp

lemma rotation_of_four:
  assumes "r < 4"
  shows "mset (map (\<lambda>k. (r + k) mod 4) [0..<4]) = mset [0..<4 :: nat]"
proof -
  have four: "[0..<4] = [0, 1, 2, 3 :: nat]"
    by (simp add: upt_rec)
  have "r = 0 \<or> r = 1 \<or> r = 2 \<or> r = 3"
    using assms by arith
  then show ?thesis
    unfolding four by (elim disjE) simp_all
qed

lemma length_picks [simp]: "length (picks n m ctr) = m"
  by (induction m arbitrary: ctr) (simp_all add: pick_conn_def)

text \<open>The streams of connection \<open>i\<close> among incoming ones and among results.\<close>

definition opened_on :: "nat \<Rightarrow> (nat \<times> 'c) list \<Rightarrow> 'c list" where
  "opened_on i xs = map snd (filter (\<lambda>x. fst x = i) xs)"

fun streams_on :: "nat \<Rightarrow> 'c accept_result list \<Rightarrow> 'c list" where
  "streams_on i [] = []"
| "streams_on i (Stream j st # rs) = (if j = i then st # streams_on i rs else streams_on i rs)"
| "streams_on i (SubconnError j e # rs) = streams_on i rs"

lemma streams_on_append: "streams_on i (xs @ ys) = streams_on i xs @ streams_on i ys"
  by (induction i xs rule: streams_on.induct) simp_all

lemma subseq_streams_on: "subseq xs ys \<Longrightarrow> subseq (streams_on i xs) (streams_on i ys)"
proof (induction xs ys rule: list_emb.induct)
  case (list_emb_Cons xs ys y)
  then show ?case
    by (cases y) auto
next
  case (list_emb_Cons2 x y xs ys)
  then show ?case
    by (cases y) auto
qed simp

definition offering :: "'c accept_loop \<Rightarrow> 'c list" where
  "offering l = (case l of Offering st \<Rightarrow> [st] | _ \<Rightarrow> [])"

text \<open>
  What a connection opened is what was taken from it, what is on the channel and what its loop is
  offering; only a loop that returned, its connection being done, may have given up its last stream.
\<close>

definition loop_inv :: "'c session \<Rightarrow> nat \<Rightarrow> bool" where
  "loop_inv s i \<longleftrightarrow>
     (if ss_loops s ! i = Returned \<and> ss_done s ! i
      then prefix (streams_on i (ss_taken s @ ss_chan s)) (opened_on i (ss_incoming s))
      else opened_on i (ss_incoming s) = streams_on i (ss_taken s @ ss_chan s) @ offering (ss_loops s ! i))"

text \<open>
  Of the calls of \<open>Close\<close>, the one that swapped the flag is at work until it has closed the
  channel; where it stands tells what is done already.
\<close>

definition at_work :: "closer \<Rightarrow> bool" where
  "at_work c \<longleftrightarrow> c \<noteq> SwapClosed \<and> c \<noteq> CloseReturned"

definition all_returned :: "'c session \<Rightarrow> bool" where
  "all_returned s \<longleftrightarrow> (\<forall>l \<in> set (ss_loops s). l = Returned)"

definition closer_inv :: "'c session \<Rightarrow> closer \<Rightarrow> bool" where
  "closer_inv s c \<longleftrightarrow>
     (case c of
        CloseConns k \<Rightarrow> k \<le> length (ss_done s) \<and> (\<forall>i < k. ss_done s ! i)
      | WaitLoops \<Rightarrow> False \<notin> set (ss_done s)
      | CloseChannel \<Rightarrow> False \<notin> set (ss_done s) \<and> all_returned s
      | _ \<Rightarrow> True)"

definition ss_inv :: "nat \<Rightarrow> 'c session \<Rightarrow> bool" where
  "ss_inv n s \<longleftrightarrow>
     \<not> ss_panicked s \<and> length (ss_loops s) = n \<and> length (ss_done s) = n \<and>
     length (filter at_work (ss_closers s)) = (if ss_closed s \<and> \<not> ss_chan_closed s then 1 else 0) \<and>
     (\<forall>c \<in> set (ss_closers s). closer_inv s c) \<and>
     (ss_chan_closed s \<longrightarrow> ss_closed s \<and> all_returned s) \<and> (ss_drains s > 0 \<longrightarrow> ss_closed s) \<and>
     subseq (ss_accepted s) (ss_taken s) \<and> (ss_closed s \<or> ss_accepted s = ss_taken s) \<and>
     length (ss_chan s) \<le> acceptCap"

lemma length_filter_update:
  "j < length xs \<Longrightarrow> length (filter P (xs[j := x])) + (if P (xs ! j) then 1 else 0) =
     length (filter P xs) + (if P x then 1 else 0)"
proof (induction xs arbitrary: j)
  case (Cons y ys)
  show ?case
  proof (cases j)
    case (Suc i)
    then show ?thesis
      using Cons.IH [of i] Cons.prems by simp
  qed simp
qed simp

lemmas session_defs = loop_at_def set_loop_def set_closer_def send_result_def ss_step_def

lemma ss_stepE:
  assumes "ss_step a s = Some t"
  obtains "ss_does a s = Some t" and "\<not> ss_panicked s"
  using assms by (simp add: ss_step_def split: if_splits)

text \<open>A loop that has not returned can still send: the channel is open, and no call is past the wait.\<close>

lemma running_loop:
  assumes "ss_inv n s" and "loop_at s i = Some l" and "l \<noteq> Returned"
  shows "\<not> ss_chan_closed s" "CloseChannel \<notin> set (ss_closers s)" "\<not> all_returned s"
proof -
  show "\<not> all_returned s"
    using assms(2,3) by (auto simp: all_returned_def loop_at_def split: if_splits)
  then show "\<not> ss_chan_closed s" "CloseChannel \<notin> set (ss_closers s)"
    using assms(1) by (auto simp: ss_inv_def closer_inv_def)
qed

lemma closer_inv_loops:
  "\<lbrakk>closer_inv s c; c \<noteq> CloseChannel; ss_done t = ss_done s\<rbrakk> \<Longrightarrow> closer_inv t c"
  by (auto simp: closer_inv_def split: closer.splits)

lemma closer_inv_frame:
  "\<lbrakk>closer_inv s c; ss_loops t = ss_loops s; ss_done t = ss_done s\<rbrakk> \<Longrightarrow> closer_inv t c"
  by (auto simp: closer_inv_def all_returned_def split: closer.splits)

lemma nth_set_true: "xs ! i \<Longrightarrow> xs[k := True] ! i"
  by (cases "i = k"; cases "k < length xs") (simp_all add: not_less list_update_beyond)

lemma closer_inv_done:
  "\<lbrakk>closer_inv s c; ss_loops t = ss_loops s; ss_done t = (ss_done s)[k := True]\<rbrakk> \<Longrightarrow> closer_inv t c"
  using set_update_subset_insert [of "ss_done s" k True]
  by (cases c) (auto simp: closer_inv_def all_returned_def nth_set_true)

text \<open>A step of a running loop; at most one result is put on the channel.\<close>

lemma ss_inv_loop:
  assumes "ss_inv n s" and "loop_at s i = Some l" and "l \<noteq> Returned"
    and "t = set_loop i l' (s\<lparr>ss_chan := ss_chan s @ rs, ss_incoming := xs\<rparr>)" and "length (ss_chan s @ rs) \<le> acceptCap"
  shows "ss_inv n t"
proof -
  note running = running_loop [OF assms(1-3)]
  have "closer_inv t c" if "c \<in> set (ss_closers s)" for c
    using closer_inv_loops [of s c t] that running(2) assms(1,4) by (auto simp: ss_inv_def session_defs)
  then show ?thesis
    using assms(1,5) running(1) by (auto simp: assms(4) ss_inv_def session_defs)
qed

lemma ss_inv_take:
  assumes "ss_inv n s" and "ss_chan s = r # rs" and "subseq acc (ss_taken s @ [r])"
    and "t = s\<lparr>ss_chan := rs, ss_taken := ss_taken s @ [r], ss_accepted := acc\<rparr>"
    and "ss_closed s \<or> acc = ss_taken s @ [r]"
  shows "ss_inv n t"
proof -
  have "closer_inv t c" if "closer_inv s c" for c
    by (rule closer_inv_frame [OF that]) (simp_all add: assms(4))
  moreover have "all_returned t = all_returned s"
    by (simp add: assms(4) all_returned_def)
  ultimately show ?thesis
    using assms by (auto simp: ss_inv_def)
qed

text \<open>A step of a call of \<open>Close\<close>: the other calls keep what they know.\<close>

lemma ss_inv_close:
  assumes inv: "ss_inv n s" and j: "j < length (ss_closers s)" and step: "close_step j (ss_closers s ! j) s = Some t"
  shows "ss_inv n t"
proof -
  let ?cs = "ss_closers s"
  have mem: "?cs ! j \<in> set ?cs"
    using j by simp
  have c: "closer_inv s (?cs ! j)"
    using inv mem by (simp add: ss_inv_def)
  have count: "length (filter at_work (?cs[j := c])) + (if at_work (?cs ! j) then 1 else 0) =
      length (filter at_work ?cs) + (if at_work c then 1 else 0)" for c
    using j by (rule length_filter_update)
  have one: "at_work (?cs ! j) \<Longrightarrow> ss_closed s \<and> \<not> ss_chan_closed s"
    using inv mem by (fastforce simp: ss_inv_def filter_empty_conv split: if_splits)
  have frame: "\<forall>c \<in> set (?cs[j := c']). closer_inv t c"
    if "\<And>c. closer_inv s c \<Longrightarrow> closer_inv t c" "closer_inv t c'" for c'
    using that inv set_update_subset_insert [of ?cs j c'] by (auto simp: ss_inv_def)
  show ?thesis
  proof (cases "?cs ! j")
    case SwapClosed
    show ?thesis
    proof (cases "ss_closed s")
      case True
      then have t: "t = set_closer j CloseReturned s"
        using step SwapClosed by (simp add: close_step_def)
      have "\<forall>c \<in> set (?cs[j := CloseReturned]). closer_inv t c"
        by (rule frame) (auto simp: t session_defs closer_inv_def all_returned_def split: closer.splits)
      then show ?thesis
        using inv count [of CloseReturned] SwapClosed
        by (simp add: t ss_inv_def session_defs at_work_def all_returned_def)
    next
      case False
      then have t: "t = set_closer j (CloseConns 0) (s\<lparr>ss_closed := True\<rparr>)"
        using step SwapClosed by (simp add: close_step_def)
      have "\<forall>c \<in> set (?cs[j := CloseConns 0]). closer_inv t c"
        by (rule frame) (auto simp: t session_defs closer_inv_def all_returned_def split: closer.splits)
      then show ?thesis
        using inv count [of "CloseConns 0"] SwapClosed False
        by (auto simp: t ss_inv_def session_defs at_work_def all_returned_def)
    qed
  next
    case (CloseConns k)
    have w: "ss_closed s" "\<not> ss_chan_closed s"
      using one CloseConns by (simp_all add: at_work_def)
    show ?thesis
    proof (cases "k < length (ss_done s)")
      case True
      then have t: "t = set_closer j (CloseConns (Suc k)) (s\<lparr>ss_done := (ss_done s)[k := True]\<rparr>)"
        using step CloseConns by (simp add: close_step_def)
      have "\<forall>c \<in> set (?cs[j := CloseConns (Suc k)]). closer_inv t c"
      proof (rule frame)
        show "closer_inv t c" if "closer_inv s c" for c
          by (rule closer_inv_done [OF that]) (simp_all add: t session_defs)
        show "closer_inv t (CloseConns (Suc k))"
          using c CloseConns True by (auto simp: t session_defs closer_inv_def nth_list_update less_Suc_eq)
      qed
      then show ?thesis
        using inv count [of "CloseConns (Suc k)"] CloseConns w
        by (simp add: t ss_inv_def session_defs at_work_def)
    next
      case False
      then have t: "t = set_closer j WaitLoops (s\<lparr>ss_drains := ss_drains s + 1\<rparr>)"
        using step CloseConns by (simp add: close_step_def)
      have "\<forall>c \<in> set (?cs[j := WaitLoops]). closer_inv t c"
      proof (rule frame)
        show "closer_inv t c" if "closer_inv s c" for c
          by (rule closer_inv_frame [OF that]) (simp_all add: t session_defs)
        show "closer_inv t WaitLoops"
          using c CloseConns False by (auto simp: t session_defs closer_inv_def in_set_conv_nth)
      qed
      then show ?thesis
        using inv count [of WaitLoops] CloseConns w
        by (simp add: t ss_inv_def session_defs at_work_def)
    qed
  next
    case WaitLoops
    have w: "ss_closed s" "\<not> ss_chan_closed s"
      using one WaitLoops by (simp_all add: at_work_def)
    have r: "all_returned s" and t: "t = set_closer j CloseChannel s"
      using step WaitLoops by (auto simp: close_step_def all_returned_def split: if_splits)
    have "\<forall>c \<in> set (?cs[j := CloseChannel]). closer_inv t c"
    proof (rule frame)
      show "closer_inv t c" if "closer_inv s c" for c
        by (rule closer_inv_frame [OF that]) (simp_all add: t session_defs)
      show "closer_inv t CloseChannel"
        using c WaitLoops r by (simp add: t session_defs closer_inv_def all_returned_def)
    qed
    then show ?thesis
      using inv count [of CloseChannel] WaitLoops w
      by (simp add: t ss_inv_def session_defs at_work_def)
  next
    case CloseChannel
    have w: "ss_closed s" "\<not> ss_chan_closed s"
      using one CloseChannel by (simp_all add: at_work_def)
    then have t: "t = set_closer j CloseReturned (s\<lparr>ss_chan_closed := True\<rparr>)"
      using step CloseChannel by (simp add: close_step_def)
    have "\<forall>c \<in> set (?cs[j := CloseReturned]). closer_inv t c"
    proof (rule frame)
      show "closer_inv t c" if "closer_inv s c" for c
        by (rule closer_inv_frame [OF that]) (simp_all add: t session_defs)
    qed (simp add: closer_inv_def)
    then show ?thesis
      using inv count [of CloseReturned] CloseChannel w c
      by (simp add: t ss_inv_def session_defs at_work_def closer_inv_def all_returned_def)
  next
    case CloseReturned
    then show ?thesis
      using step by (simp add: close_step_def)
  qed
qed

lemma ss_inv_step:
  assumes "ss_step a s = Some t" and inv: "ss_inv n s"
  shows "ss_inv n t"
  using assms(1)
proof (rule ss_stepE)
  assume step: "ss_does a s = Some t"
  have cap: "length (ss_chan s) \<le> acceptCap"
    using inv by (simp add: ss_inv_def)
  show ?thesis
  proof (cases a)
    case (Incoming i st)
    then obtain l where l: "loop_at s i = Some l" "l \<noteq> Returned"
      and t: "t = set_loop i (Offering st) (s\<lparr>ss_incoming := ss_incoming s @ [(i, st)]\<rparr>)"
      using step by (auto split: option.splits accept_loop.splits)
    show ?thesis
      by (rule ss_inv_loop [OF inv l, where rs = "[]" and xs = "ss_incoming s @ [(i, st)]" and l' = "Offering st"]) (use cap in \<open>simp_all add: t\<close>)
  next
    case (AcceptErr i e)
    then obtain l where l: "loop_at s i = Some l" "l \<noteq> Returned"
      and t: "t = set_loop i (if ss_closed s then Returned else Reporting e) s"
      using step by (auto split: option.splits accept_loop.splits)
    show ?thesis
      by (rule ss_inv_loop [OF inv l, where rs = "[]" and xs = "ss_incoming s"]) (use cap in \<open>simp_all add: t\<close>)
  next
    case (PutStream i)
    then obtain st where l: "loop_at s i = Some (Offering st)"
      and room: "length (ss_chan s) < acceptCap \<or> ss_chan_closed s"
      and t: "t = set_loop i Accepting (send_result (Stream i st) s)"
      using step by (auto split: option.splits accept_loop.splits if_splits)
    have "\<not> ss_chan_closed s"
      using running_loop(1) [OF inv l] by simp
    then show ?thesis
      by (intro ss_inv_loop [OF inv l, where rs = "[Stream i st]" and xs = "ss_incoming s" and l' = Accepting])
        (use room in \<open>simp_all add: t send_result_def\<close>)
  next
    case (ConnDone i)
    then obtain l where l: "loop_at s i = Some l" "l \<noteq> Returned" and t: "t = set_loop i Returned s"
      using step by (auto split: option.splits accept_loop.splits if_splits)
    show ?thesis
      by (rule ss_inv_loop [OF inv l, where rs = "[]" and xs = "ss_incoming s"]) (use cap in \<open>simp_all add: t\<close>)
  next
    case (Report i)
    then obtain e where l: "loop_at s i = Some (Reporting e)"
      and t: "t = set_loop i Returned
        (if length (ss_chan s) < acceptCap \<or> ss_chan_closed s then send_result (SubconnError i e) s else s)"
      using step by (auto split: option.splits accept_loop.splits)
    have "\<not> ss_chan_closed s"
      using running_loop(1) [OF inv l] by simp
    then show ?thesis
      by (intro ss_inv_loop [OF inv l, where rs = "if length (ss_chan s) < acceptCap then [SubconnError i e] else []"
          and xs = "ss_incoming s" and l' = Returned])
        (use cap in \<open>simp_all add: t send_result_def\<close>)
  next
    case AcceptStream
    then obtain r rs where r: "ss_chan s = r # rs"
      and t: "t = s\<lparr>ss_chan := rs, ss_taken := ss_taken s @ [r], ss_accepted := ss_accepted s @ [r]\<rparr>"
      using step by (auto split: list.splits)
    show ?thesis
      using inv by (intro ss_inv_take [OF inv r _ t]) (auto simp: ss_inv_def)
  next
    case DrainOne
    then obtain r rs where r: "ss_chan s = r # rs" and d: "ss_drains s > 0"
      and t: "t = s\<lparr>ss_chan := rs, ss_taken := ss_taken s @ [r]\<rparr>"
      using step by (auto split: list.splits if_splits)
    show ?thesis
      using inv d by (intro ss_inv_take [OF inv r, of "ss_accepted s"]) (auto simp: t ss_inv_def subseq_rev_drop_many)
  next
    case (ConnEnds i)
    then have t: "t = s\<lparr>ss_done := (ss_done s)[i := True]\<rparr>"
      using step by simp
    have "closer_inv t c" if "closer_inv s c" for c
      by (rule closer_inv_done [OF that]) (simp_all add: t)
    then show ?thesis
      using inv by (auto simp: t ss_inv_def all_returned_def)
  next
    case (CloseStep j)
    then show ?thesis
      using step ss_inv_close [OF inv] by (simp split: if_splits)
  next
    case CallClose
    then have t: "t = s\<lparr>ss_closers := ss_closers s @ [SwapClosed]\<rparr>"
      using step by simp
    have "closer_inv t c" if "closer_inv s c" for c
      by (rule closer_inv_frame [OF that]) (simp_all add: t)
    then show ?thesis
      using inv by (auto simp: t ss_inv_def all_returned_def at_work_def closer_inv_def)
  next
    case AcceptClosed
    then show ?thesis
      using step inv by (simp split: if_splits)
  next
    case DrainEnds
    then have t: "t = s\<lparr>ss_drains := ss_drains s - 1\<rparr>" and "ss_drains s > 0"
      using step by (auto split: if_splits)
    have "closer_inv t c" if "closer_inv s c" for c
      by (rule closer_inv_frame [OF that]) (simp_all add: t)
    then show ?thesis
      using inv by (auto simp: t ss_inv_def all_returned_def)
  qed
qed

interpretation ss: machine_invariant ss_step "ss_inv n" "\<lambda>_. True" for n
  by unfold_locales (rule ss_inv_step)

lemma ss_inv_new [simp]: "ss_inv n (newSession n)"
  by (simp add: ss_inv_def newSession_def)

lemma loop_inv_cong:
  "\<lbrakk>loop_inv s i; ss_loops t = ss_loops s; ss_done t = ss_done s;
    ss_taken t @ ss_chan t = ss_taken s @ ss_chan s; ss_incoming t = ss_incoming s\<rbrakk> \<Longrightarrow> loop_inv t i"
  by (simp add: loop_inv_def)

lemma loop_inv_done:
  "\<lbrakk>loop_inv s i; ss_loops t = ss_loops s; ss_done t = (ss_done s)[k := True]; i < length (ss_done s);
    ss_taken t @ ss_chan t = ss_taken s @ ss_chan s; ss_incoming t = ss_incoming s\<rbrakk> \<Longrightarrow> loop_inv t i"
  by (cases "k = i") (auto simp: loop_inv_def offering_def split: if_splits)

lemma loop_inv_step:
  assumes "ss_step a s = Some t" and inv: "ss_inv n s" and i: "i < n" and li: "loop_inv s i"
  shows "loop_inv t i"
  using assms(1)
proof (rule ss_stepE)
  assume step: "ss_does a s = Some t"
  have len: "length (ss_loops s) = n" "length (ss_done s) = n"
    using inv by (simp_all add: ss_inv_def)
  show ?thesis
  proof (cases a)
    case (Incoming j st)
    then show ?thesis
      using step li i len by (cases "j = i")
        (auto simp: loop_inv_def opened_on_def offering_def session_defs split: if_splits accept_loop.splits)
  next
    case (PutStream j)
    then obtain st where l: "loop_at s j = Some (Offering st)"
      and t: "t = set_loop j Accepting (send_result (Stream j st) s)"
      using step by (auto split: option.splits accept_loop.splits if_splits)
    have "\<not> ss_chan_closed s"
      using running_loop(1) [OF inv l] by simp
    then show ?thesis
      using l li i len by (cases "j = i")
        (auto simp: t loop_inv_def offering_def streams_on_append session_defs split: if_splits)
  next
    case (Report j)
    then obtain e where l: "loop_at s j = Some (Reporting e)"
      and t: "t = set_loop j Returned
        (if length (ss_chan s) < acceptCap \<or> ss_chan_closed s then send_result (SubconnError j e) s else s)"
      using step by (auto split: option.splits accept_loop.splits)
    have "\<not> ss_chan_closed s"
      using running_loop(1) [OF inv l] by simp
    then show ?thesis
      using l li i len by (cases "j = i")
        (auto simp: t loop_inv_def offering_def streams_on_append session_defs split: if_splits)
  next
    case AcceptStream
    then obtain r rs where "ss_chan s = r # rs"
      "t = s\<lparr>ss_chan := rs, ss_taken := ss_taken s @ [r], ss_accepted := ss_accepted s @ [r]\<rparr>"
      using step by (auto split: list.splits)
    then show ?thesis
      using loop_inv_cong [OF li] by simp
  next
    case DrainOne
    then obtain r rs where "ss_chan s = r # rs" "t = s\<lparr>ss_chan := rs, ss_taken := ss_taken s @ [r]\<rparr>"
      using step by (auto split: list.splits if_splits)
    then show ?thesis
      using loop_inv_cong [OF li] by simp
  next
    case (AcceptErr j e)
    then show ?thesis
      using step li i len by (cases "j = i")
        (auto simp: loop_inv_def offering_def session_defs split: if_splits accept_loop.splits)
  next
    case (ConnDone j)
    then show ?thesis
      using step li i len by (cases "j = i")
        (auto simp: loop_inv_def offering_def session_defs split: if_splits accept_loop.splits)
  next
    case (ConnEnds k)
    then show ?thesis
      using step i len by (intro loop_inv_done [OF li, of _ k]) auto
  next
    case (CloseStep j)
    then have c: "close_step j (ss_closers s ! j) s = Some t"
      using step by (simp split: if_splits)
    show ?thesis
    proof (cases "\<exists>k. ss_closers s ! j = CloseConns k \<and> k < length (ss_done s)")
      case True
      then obtain k where "ss_closers s ! j = CloseConns k" "k < length (ss_done s)"
        by blast
      then show ?thesis
        using c i len by (intro loop_inv_done [OF li, of _ k]) (auto simp: close_step_def session_defs)
    next
      case False
      then show ?thesis
        using c by (intro loop_inv_cong [OF li])
          (auto simp: close_step_def session_defs split: closer.splits if_splits)
    qed
  qed (use step li loop_inv_cong [OF li] in \<open>auto split: if_splits\<close>)
qed

interpretation loops: machine_invariant ss_step "\<lambda>s. ss_inv n s \<and> i < n \<and> loop_inv s i" "\<lambda>_. True" for n i
  by unfold_locales (auto dest: ss_inv_step loop_inv_step)

lemma session_loop_inv: "ss_run as (newSession n) = Some s \<Longrightarrow> i < n \<Longrightarrow> ss_inv n s \<and> loop_inv s i"
proof -
  assume run: "ss_run as (newSession n) = Some s" and i: "i < n"
  have "loop_inv (newSession n :: 'a session) i"
    using i by (simp add: newSession_def loop_inv_def opened_on_def offering_def)
  then show ?thesis
    using loops.run_inv [OF run, of n i] i ss_inv_new by blast
qed

text \<open>A call of \<open>Close\<close> closes the connections one by one.\<close>

lemma close_conns:
  "\<lbrakk>ss_inv n s; j < length (ss_closers s); ss_closers s ! j = CloseConns k; k + m = n\<rbrakk> \<Longrightarrow>
   \<exists>t. ss_run (replicate m (CloseStep j)) s = Some t \<and> ss_inv n t \<and>
     ss_closers t = (ss_closers s)[j := CloseConns n] \<and> ss_closed t = ss_closed s"
proof (induction m arbitrary: k s)
  case 0
  then show ?case
    using list_update_id [of "ss_closers s" j] by simp
next
  case (Suc m)
  let ?u = "set_closer j (CloseConns (Suc k)) (s\<lparr>ss_done := (ss_done s)[k := True]\<rparr>)"
  have u: "ss_step (CloseStep j) s = Some ?u"
    using Suc.prems by (simp add: ss_step_def close_step_def ss_inv_def)
  obtain t where "ss_run (replicate m (CloseStep j)) ?u = Some t" "ss_inv n t"
    "ss_closers t = (ss_closers ?u)[j := CloseConns n]" "ss_closed t = ss_closed ?u"
    using Suc.IH [of ?u "Suc k"] ss_inv_step [OF u Suc.prems(1)] Suc.prems(2,4) by (auto simp: set_closer_def)
  then show ?case
    using u by (intro exI [of _ t]) (simp add: set_closer_def)
qed

text \<open>What a loop still does once its connection is done, without room on the channel.\<close>

fun finish_loop :: "nat \<Rightarrow> 'c accept_loop \<Rightarrow> 'c ss_act list" where
  "finish_loop i Accepting = [AcceptErr i 0]"
| "finish_loop i (Offering st) = [ConnDone i]"
| "finish_loop i (Reporting e) = [Report i]"
| "finish_loop i Returned = []"

lemma finish_one:
  assumes inv: "ss_inv n s" and "ss_closed s" and ends: "False \<notin> set (ss_done s)" and i: "i < n"
  shows "\<exists>t. ss_run (finish_loop i (ss_loops s ! i)) s = Some t \<and> ss_loops t = (ss_loops s)[i := Returned] \<and>
    ss_closed t \<and> ss_done t = ss_done s \<and> ss_closers t = ss_closers s"
proof (cases "ss_loops s ! i")
  case (Offering st)
  then have "ss_done s ! i"
    using inv ends i nth_mem [of i "ss_done s"] by (cases "ss_done s ! i") (simp_all add: ss_inv_def)
  then show ?thesis
    using assms Offering by (simp add: session_defs ss_inv_def)
next
  case (Reporting e)
  then have "loop_at s i = Some (Reporting e)"
    using inv i by (simp add: loop_at_def ss_inv_def)
  then show ?thesis
    using assms Reporting running_loop(1) [OF inv] by (auto simp: session_defs ss_inv_def)
next
  case Returned
  then show ?thesis
    using list_update_id [of "ss_loops s" i] assms by simp
next
  case Accepting
  then show ?thesis
    using assms by (simp add: session_defs ss_inv_def)
qed

definition loop_steps :: "'c ss_act set" where
  "loop_steps = (\<Union>i. {AcceptErr i 0, ConnDone i, Report i})"

lemma finish_all:
  "\<lbrakk>ss_inv n s; ss_closed s; False \<notin> set (ss_done s); k \<le> n\<rbrakk> \<Longrightarrow>
   \<exists>as t. ss_run as s = Some t \<and> ss_inv n t \<and> ss_closed t \<and> ss_done t = ss_done s \<and>
     (\<forall>i < k. ss_loops t ! i = Returned) \<and> ss_closers t = ss_closers s \<and> length as \<le> k \<and> set as \<subseteq> loop_steps"
proof (induction k)
  case 0
  then show ?case
    by (auto intro: exI [of _ "[]"])
next
  case (Suc k)
  then obtain as t where t: "ss_run as s = Some t" "ss_inv n t" "ss_closed t" "ss_done t = ss_done s"
    "\<forall>i < k. ss_loops t ! i = Returned" "ss_closers t = ss_closers s" "length as \<le> k" "set as \<subseteq> loop_steps"
    by auto
  obtain u where u: "ss_run (finish_loop k (ss_loops t ! k)) t = Some u" "ss_loops u = (ss_loops t)[k := Returned]"
    "ss_closed u" "ss_done u = ss_done t" "ss_closers u = ss_closers t"
    using finish_one [OF t(2,3), of k] t(4) Suc.prems by auto
  have "length (finish_loop k (ss_loops t ! k)) \<le> 1" "set (finish_loop k (ss_loops t ! k)) \<subseteq> loop_steps"
    by (cases "ss_loops t ! k"; auto simp: loop_steps_def)+
  moreover have "\<forall>i < Suc k. ss_loops u ! i = Returned"
    using t(2,5) u(2) Suc.prems by (auto simp: nth_list_update less_Suc_eq ss_inv_def)
  moreover have "ss_inv n u"
    using ss.run_inv [OF u(1) t(2)] by simp
  ultimately show ?case
    using t u by (intro exI [of _ "as @ finish_loop k (ss_loops t ! k)"] exI [of _ u])
      (auto simp: run_append)
qed

lemma pick_in_range: "0 < n \<Longrightarrow> n < 2 ^ 64 \<Longrightarrow> fst (pick_conn n ctr) < n"
  by (simp add: pick_conn_def unat_mod unat_of_nat take_bit_nat_eq_self)

section \<open>Properties of the transport\<close>

text \<open>C29 (error): a session has all its connections or none. \<open>Serve\<close> and \<open>Dial\<close> succeed exactly with
  \<open>numSubconns\<close> connections, in the order they were made; when one attempt fails, every connection
  made before it is aborted, and the error tells the number of the attempt. The error of the
  TLS set-up is the one of \<open>serverTLSConfig\<close>.\<close>

theorem setup_all_or_nothing:
  "(case su_result (Serve tls listen rs) of
      Inr cs \<Rightarrow> length cs = numSubconns \<and> map Inr cs = take numSubconns rs \<and> su_aborted (Serve tls listen rs) = []
    | Inl e \<Rightarrow>
        map Inr (su_aborted (Serve tls listen rs)) = take (length (su_aborted (Serve tls listen rs))) rs \<and>
        ((\<exists>c. e = TLSFailed c \<and> tls = Inl c) \<or>
         (\<exists>x. e = ListenFailed x \<or> e = AcceptFailed (length (su_aborted (Serve tls listen rs))) x))) \<and>
   (case su_result (Dial resolve dials raddr) of
      Inr cs \<Rightarrow> \<exists>addr. resolve raddr = Inr addr \<and> length cs = numSubconns \<and>
        map Inr cs = take numSubconns (dials addr clientTLSConfig quicConfig) \<and> su_aborted (Dial resolve dials raddr) = []
    | Inl e \<Rightarrow>
        (\<exists>x. resolve raddr = Inl x \<and> e = ResolveFailed x \<and> su_aborted (Dial resolve dials raddr) = []) \<or>
        (\<exists>addr x. resolve raddr = Inr addr \<and> e = DialFailed (length (su_aborted (Dial resolve dials raddr))) x \<and>
          map Inr (su_aborted (Dial resolve dials raddr)) =
            take (length (su_aborted (Dial resolve dials raddr))) (dials addr clientTLSConfig quicConfig)))"
proof -
  note c1 = collect_result [where conns = "[]" and n = numSubconns and err = AcceptFailed and rs = rs]
  note c2 = collect_result [where conns = "[]" and n = numSubconns and err = DialFailed
      and rs = "dials (projr (resolve raddr)) clientTLSConfig quicConfig"]
  show ?thesis
    using c1 c2 by (auto simp: Serve_def Dial_def split: option.splits sum.splits)
qed

text \<open>C30 (functional): \<open>OpenStream\<close> is fair: any four streams opened one after the other are on four
  different connections, from any value of the 64-bit counter and through its wrap-around.\<close>

theorem round_robin_fair:
  assumes "j + numSubconns \<le> m"
  shows "mset (take numSubconns (drop j (picks numSubconns m ctr))) = mset [0..<numSubconns]"
proof -
  let ?a = "unat ctr + 1 + j"
  have "take 4 (drop j (picks 4 m ctr)) = map (\<lambda>k. (?a + k) mod 4) [0..<4]"
    using assms by (intro nth_equalityI) (auto simp: numSubconns_def picks_four ac_simps)
  also have "mset \<dots> = mset [0..<4]"
  proof -
    have shift: "map (\<lambda>k. (?a + k) mod 4) [0..<4] = map (\<lambda>k. (?a mod 4 + k) mod 4) [0..<4]"
      by (simp only: mod_add_left_eq)
    show ?thesis
      unfolding shift by (rule rotation_of_four) simp
  qed
  finally show ?thesis
    by (simp add: numSubconns_def)
qed

theorem round_robin_fair_witness:
  "mset (take numSubconns (drop 1 (picks numSubconns 6 (- 3)))) = mset [0..<numSubconns]"
  by (rule round_robin_fair) (simp add: numSubconns_def)

text \<open>C32 (safety): the fan-in keeps each connection's order and invents nothing: in every run the
  streams accepted from a connection are, in order, among those opened on it, and until \<open>Close\<close>
  they are a beginning of them. No loop can send on the channel once it is closed.\<close>

theorem fan_in_prefix:
  assumes "ss_run as (newSession n) = Some s" and "i < n"
  shows "subseq (streams_on i (ss_accepted s)) (opened_on i (ss_incoming s)) \<and>
    (\<not> ss_closed s \<longrightarrow> prefix (streams_on i (ss_accepted s)) (opened_on i (ss_incoming s))) \<and>
    (ss_chan_closed s \<longrightarrow> ss_loops s ! i = Returned)"
proof -
  have "ss_inv n s" "loop_inv s i"
    using session_loop_inv [OF assms] by blast+
  moreover have "prefix (streams_on i (ss_taken s)) (opened_on i (ss_incoming s))"
    using calculation(2) by (auto simp: loop_inv_def streams_on_append split: if_splits dest: append_prefixD)
  ultimately show ?thesis
    using assms(2) subseq_streams_on [of "ss_accepted s" "ss_taken s" i]
    by (auto simp: ss_inv_def all_returned_def dest: prefix_imp_subseq subseq_order.trans)
qed

theorem fan_in_prefix_witness:
  "\<exists>s. ss_run [Incoming 1 ''a'', PutStream 1, Incoming 1 ''b'', AcceptStream] (newSession 2) = Some s \<and>
     streams_on 1 (ss_accepted s) = [''a''] \<and> prefix [''a''] (opened_on 1 (ss_incoming s))"
proof -
  have "\<exists>s. ss_run [Incoming 1 ''a'', PutStream 1, Incoming 1 ''b'', AcceptStream] (newSession 2) = Some s \<and>
      streams_on 1 (ss_accepted s) = [''a''] \<and> \<not> ss_closed s"
    by (simp add: newSession_def acceptCap_def numeral_2_eq_2 session_defs)
  then obtain s where s: "ss_run [Incoming 1 ''a'', PutStream 1, Incoming 1 ''b'', AcceptStream] (newSession 2) = Some s"
    "streams_on 1 (ss_accepted s) = [''a'']" "\<not> ss_closed s"
    by blast
  then show ?thesis
    using fan_in_prefix [OF s(1), of 1] by auto
qed

text \<open>C31 (safety): a session never panics, and loses nothing while it is open. However the accept loops, the
  application, the ends of connections, the draining goroutine and any number of overlapping calls of
  \<open>Close\<close> interleave, no loop sends on a closed channel and the channel is not closed twice; and as long
  as \<open>Close\<close> has not been called and the context of connection \<open>i\<close> is not done, every stream it opened
  has been accepted, waits on the channel, or is held by its loop, in the order of opening.\<close>

theorem session_never_panics:
  assumes "ss_run as (newSession n) = Some s" and "i < n"
  shows "\<not> ss_panicked s \<and>
    (\<not> ss_closed s \<and> \<not> ss_done s ! i \<longrightarrow>
       opened_on i (ss_incoming s) = streams_on i (ss_accepted s) @ streams_on i (ss_chan s) @
         (case ss_loops s ! i of Offering st \<Rightarrow> [st] | _ \<Rightarrow> []))"
proof -
  have "ss_inv n s" "loop_inv s i"
    using session_loop_inv [OF assms] by blast+
  then show ?thesis
    by (auto simp: ss_inv_def loop_inv_def streams_on_append offering_def)
qed

theorem session_never_panics_witness:
  "\<exists>s. ss_run [Incoming 3 ''a'', PutStream 3, Incoming 3 ''b'', AcceptStream] (newSession 4) = Some s \<and>
     \<not> ss_panicked s \<and> opened_on 3 (ss_incoming s) = [''a'', ''b'']"
proof -
  obtain s where s: "ss_run [Incoming 3 ''a'', PutStream 3, Incoming 3 ''b'', AcceptStream] (newSession 4) = Some s"
    "streams_on 3 (ss_accepted s) = [''a'']" "ss_chan s = []" "ss_loops s ! 3 = Offering ''b''"
    "\<not> ss_closed s" "\<not> ss_done s ! 3"
    by (simp add: newSession_def session_defs acceptCap_def)
  then show ?thesis
    using session_never_panics [OF s(1), of 3] by simp
qed

text \<open>C33 (liveness): \<open>Close\<close> returns. From every reachable state of an open session, when it is called, its
  \<open>n + 4\<close> steps and at most one step of each accept loop, and no other, lead to its return, however
  full the channel: the connections are closed, all loops have returned, the channel is
  closed, \<open>Wait\<close> fires and \<open>AcceptStream\<close> reports the closed session once the channel is empty.\<close>

theorem close_completes:
  assumes "ss_run as (newSession n) = Some s" and "\<not> ss_closed s" and "0 < n"
  shows "\<exists>ls t. ss_run (CallClose # replicate (n + 2) (CloseStep (length (ss_closers s))) @ ls @
        replicate 2 (CloseStep (length (ss_closers s)))) s = Some t \<and>
    length ls \<le> n \<and> set ls \<subseteq> (\<Union>i. {AcceptErr i 0, ConnDone i, Report i}) \<and>
    ss_closers t ! length (ss_closers s) = CloseReturned \<and>
    ss_chan_closed t \<and> wait_fires (ss_done t) \<and> (\<forall>l \<in> set (ss_loops t). l = Returned)"
proof -
  let ?j = "length (ss_closers s)"
  let ?c = "CloseStep ?j"
  have inv: "ss_inv n s"
    using ss.run_inv [OF assms(1)] by simp
  define s1 where "s1 = s\<lparr>ss_closers := ss_closers s @ [SwapClosed]\<rparr>"
  define s2 where "s2 = set_closer ?j (CloseConns 0) (s1\<lparr>ss_closed := True\<rparr>)"
  have s1: "ss_step CallClose s = Some s1" and s2: "ss_step ?c s1 = Some s2"
    using inv assms(2) by (simp_all add: s1_def s2_def ss_step_def ss_inv_def close_step_def)
  have cs2: "ss_closers s2 = ss_closers s @ [CloseConns 0]" "ss_closed s2"
    by (simp_all add: s1_def s2_def set_closer_def)
  have inv2: "ss_inv n s2"
    using ss_inv_step [OF s2 ss_inv_step [OF s1 inv]] .
  then obtain s3 where s3: "ss_run (replicate n ?c) s2 = Some s3" "ss_inv n s3" "ss_closed s3"
    "ss_closers s3 = ss_closers s @ [CloseConns n]"
    using close_conns [OF inv2, of ?j 0 n] cs2 by auto
  define s4 where "s4 = set_closer ?j WaitLoops (s3\<lparr>ss_drains := ss_drains s3 + 1\<rparr>)"
  have s4: "ss_step ?c s3 = Some s4" "ss_closed s4" "ss_closers s4 = ss_closers s @ [WaitLoops]"
    using s3 by (simp_all add: s4_def ss_step_def ss_inv_def close_step_def set_closer_def)
  have inv4: "ss_inv n s4"
    using ss_inv_step [OF s4(1) s3(2)] .
  then have "False \<notin> set (ss_done s4)"
    using s4(3) by (auto simp: ss_inv_def closer_inv_def)
  from finish_all [OF inv4 s4(2) this order_refl] obtain ls s5 where
    s5: "ss_run ls s4 = Some s5" "ss_inv n s5" "ss_closed s5" "\<forall>i < n. ss_loops s5 ! i = Returned"
    "ss_closers s5 = ss_closers s @ [WaitLoops]" "length ls \<le> n" "set ls \<subseteq> loop_steps" "False \<notin> set (ss_done s5)"
    using s4(3) \<open>False \<notin> set (ss_done s4)\<close> by auto
  have returned: "\<forall>l \<in> set (ss_loops s5). l = Returned"
    using s5(2,4) by (auto simp: ss_inv_def in_set_conv_nth)
  define s6 where "s6 = set_closer ?j CloseChannel s5"
  define s7 where "s7 = set_closer ?j CloseReturned (s6\<lparr>ss_chan_closed := True\<rparr>)"
  have s6: "ss_step ?c s5 = Some s6"
    using s5(2,5) returned by (simp add: s6_def ss_step_def ss_inv_def close_step_def)
  have "ss_inv n s6"
    using ss_inv_step [OF s6 s5(2)] .
  then have s7: "ss_step ?c s6 = Some s7"
    using s5(3,5) by (auto simp: s6_def s7_def ss_step_def ss_inv_def close_step_def set_closer_def at_work_def
        split: if_splits)
  have "wait_fires (ss_done s7)"
    using s5(2,8) assms(3) by (cases "ss_done s5") (auto simp: s6_def s7_def set_closer_def wait_fires_def ss_inv_def)
  moreover have "ss_closers s7 ! ?j = CloseReturned" "ss_chan_closed s7" "\<forall>l \<in> set (ss_loops s7). l = Returned"
    using s5(5) returned by (simp_all add: s6_def s7_def set_closer_def)
  moreover have "ss_run (CallClose # replicate (n + 2) ?c @ ls @ replicate 2 ?c) s = Some s7"
  proof -
    have "ss_run (CallClose # ?c # replicate n ?c @ [?c] @ ls @ [?c, ?c]) s = Some s7"
      using s1 s2 s3(1) s4(1) s5(1) s6 s7 by (simp add: run_append del: replicate_app_Cons_same)
    moreover have "CallClose # replicate (n + 2) ?c @ ls @ replicate 2 ?c =
        CallClose # ?c # replicate n ?c @ [?c] @ ls @ [?c, ?c]"
      by (simp add: replicate_app_Cons_same numeral_2_eq_2)
    ultimately show ?thesis
      by simp
  qed
  ultimately show ?thesis
    using s5(6,7) unfolding loop_steps_def by blast
qed

theorem close_completes_witness:
  "\<exists>s ls t. ss_run [Incoming 0 ''a''] (newSession 1) = Some s \<and> ss_loops s = [Offering ''a''] \<and>
     ss_run (CallClose # replicate 3 (CloseStep 0) @ ls @ replicate 2 (CloseStep 0)) s = Some t \<and> ss_chan_closed t"
proof -
  obtain s where s: "ss_run [Incoming 0 ''a''] (newSession 1) = Some s" "ss_loops s = [Offering ''a'']"
    "\<not> ss_closed s" "ss_closers s = []"
    by (simp add: newSession_def session_defs)
  have "length (ss_closers s) = 0" "1 + 2 = (3 :: nat)" "0 < (1 :: nat)"
    using s(4) by simp_all
  then show ?thesis
    using close_completes [OF s(1) s(3)] s(1,2) by (simp only:) blast
qed

end
