(* ===== verification/Peer.thy ===== *)
theory Peer
  imports Config Listener Router Ice PacketConn Transport
begin

text \<open>
  The peer program (\<open>cmd/nl-punch/main.go\<close>): start-up with its flags and overrides, the reconnect
  loop with its backoff, and one session (\<open>runOnce\<close>), composed of the models of the packages it
  calls: \<open>Connect\<close>, \<open>Serve\<close> and \<open>Dial\<close>, the listeners and the dial map of the router.
\<close>

section \<open>Logging levels\<close>

datatype slog_level = LevelDebug | LevelInfo | LevelWarn | LevelError

fun slog_value :: "slog_level \<Rightarrow> int" where
  "slog_value LevelDebug = -4"
| "slog_value LevelInfo = 0"
| "slog_value LevelWarn = 4"
| "slog_value LevelError = 8"

lemma slog_value_inject [simp]: "slog_value a = slog_value b \<longleftrightarrow> a = b"
  by (cases a; cases b) simp_all

instantiation slog_level :: linorder
begin

definition less_eq_slog_level :: "slog_level \<Rightarrow> slog_level \<Rightarrow> bool" where
  "less_eq_slog_level a b \<longleftrightarrow> slog_value a \<le> slog_value b"

definition less_slog_level :: "slog_level \<Rightarrow> slog_level \<Rightarrow> bool" where
  "less_slog_level a b \<longleftrightarrow> slog_value a < slog_value b"

instance
  by standard (auto simp: less_eq_slog_level_def less_slog_level_def)

end

definition newLogger :: "string \<Rightarrow> slog_level" where
  "newLogger level =
     (if level = ''debug'' then LevelDebug
      else if level = ''warn'' then LevelWarn
      else if level = ''error'' then LevelError
      else LevelInfo)"

text \<open>A handler writes the records whose level is not below its own.\<close>

definition writes_record :: "slog_level \<Rightarrow> slog_level \<Rightarrow> bool" where
  "writes_record handler rec \<longleftrightarrow> handler \<le> rec"

definition pionLogLevelFromSlog :: "string \<Rightarrow> int" where
  "pionLogLevelFromSlog level = (if level = ''debug'' then 4 else 2)"

section \<open>Start-up\<close>

record flags =
  fl_config :: string
  fl_role :: string
  fl_session :: string
  fl_signaling :: string
  fl_secret :: string
  fl_logLevel :: string

definition override :: "flags \<Rightarrow> config \<Rightarrow> config" where
  "override f cfg =
     (let cfg1 = (if fl_session f \<noteq> [] then cfg\<lparr>cfg_sessionID := fl_session f\<rparr> else cfg);
          cfg2 = (if fl_signaling f \<noteq> []
                  then cfg1\<lparr>cfg_signaling := (cfg_signaling cfg1)\<lparr>sg_url := fl_signaling f\<rparr>\<rparr> else cfg1) in
      if fl_secret f \<noteq> []
      then cfg2\<lparr>cfg_signaling := (cfg_signaling cfg2)\<lparr>sg_sharedSecret := fl_secret f\<rparr>\<rparr> else cfg2)"

definition toICETURN :: "turnServer list \<Rightarrow> (string \<times> string \<times> string) list" where
  "toICETURN ts = map (\<lambda>t. (turn_uri t, turn_user t, turn_pass t)) ts"

definition toFwdListen :: "cfgListen list \<Rightarrow> listenSpec list" where
  "toFwdListen ls =
     map (\<lambda>l. \<lparr>ls_name = cl_name l, ls_localPort = cl_localPort l, ls_remotePort = cl_remotePort l\<rparr>) ls"

text \<open>
  What \<open>main\<close> hands to the reconnect loop. Exit codes are the \<open>Inl\<close> side; \<open>load\<close> stands for
  \<open>config.Load\<close>.
\<close>

record startup =
  st_config :: config
  st_role :: string
  st_client :: client
  st_agent :: ice_config
  st_level :: slog_level

definition main_start :: "(string \<Rightarrow> load_error + config) \<Rightarrow> flags \<Rightarrow> int + startup" where
  "main_start load f =
     (if fl_config f = [] \<or> fl_role f = [] then Inl 2
      else case load (fl_config f) of
        Inl e \<Rightarrow> Inl 1
      | Inr cfg0 \<Rightarrow>
          let cfg = override f cfg0 in
          if cfg_peers cfg (fl_role f) = None then Inl 1
          else Inr
            \<lparr>st_config = cfg, st_role = fl_role f,
             st_client = NewClient (sg_url (cfg_signaling cfg)) (sg_sharedSecret (cfg_signaling cfg)),
             st_agent = ice_New
               \<lparr>ia_sessionID = cfg_sessionID cfg, ia_role = fl_role f, ia_stun = ic_stun (cfg_ice cfg),
                ia_turn = toICETURN (ic_turn (cfg_ice cfg)), ia_pollInterval = 0,
                ia_failedTimeout = seconds 60, ia_disconnectedTimeout = seconds 30,
                ia_pionLogLevel = pionLogLevelFromSlog (fl_logLevel f)\<rparr>,
             st_level = newLogger (fl_logLevel f)\<rparr>)"

section \<open>The reconnect loop\<close>

definition maxBackoff :: int where
  "maxBackoff = seconds 60"

text \<open>Durations are nanoseconds; integer division is Go's, on a nonnegative number.\<close>

definition wait_time :: "int \<Rightarrow> int \<Rightarrow> int" where
  "wait_time backoff jitter = backoff - (backoff div 5) + jitter"

definition next_backoff :: "int \<Rightarrow> int" where
  "next_backoff backoff = (if backoff * 2 > maxBackoff then maxBackoff else backoff * 2)"

text \<open>
  One round of the loop: was the context done before the session and after it, what does
  \<open>Duration(rand.Float64() * 0.4 * float64(backoff))\<close> give, does the context end the wait.
\<close>

record round =
  rd_before :: bool
  rd_after :: bool
  rd_jitter :: "int \<Rightarrow> int"
  rd_cancelled :: bool

text \<open>The calls of \<open>runOnce\<close>, the waits, and whether the loop has returned.\<close>

fun reconnect_loop :: "int \<Rightarrow> round list \<Rightarrow> nat \<times> int list \<times> bool" where
  "reconnect_loop backoff [] = (0, [], False)"
| "reconnect_loop backoff (r # rs) =
     (if rd_before r then (0, [], True)
      else if rd_after r then (1, [], True)
      else
        let wait = wait_time backoff (rd_jitter r backoff) in
        if rd_cancelled r then (1, [wait], True)
        else (case reconnect_loop (next_backoff backoff) rs of
           (runs, waits, ret) \<Rightarrow> (Suc runs, wait # waits, ret)))"

definition runReconnectLoop :: "round list \<Rightarrow> nat \<times> int list \<times> bool" where
  "runReconnectLoop rs = reconnect_loop (seconds 1) rs"

section \<open>One session\<close>

definition dial_map :: "cfgPeer \<Rightarrow> cfgPeer \<Rightarrow> string \<rightharpoonup> int" where
  "dial_map me other =
     foldl (\<lambda>m l. if m (cl_name l) = None then m(cl_name l \<mapsto> cl_remotePort l) else m)
       (foldl (\<lambda>m d. m(cd_name d \<mapsto> cd_localPort d)) Map.empty (pe_dial me))
       (pe_listen other)"

datatype once_event = CtxEnds | SessionDone | StatsTick

datatype once_error =
    IceFailed connect_error
  | TransportFailed setup_error
  | ListenersFailed start_error
  | ContextCancelled
  | SessionClosed

text \<open>The wait at the end: the statistics lines written, and the error it returns, if it does.\<close>

fun session_wait :: "once_event list \<Rightarrow> nat \<times> once_error option" where
  "session_wait [] = (0, None)"
| "session_wait (CtxEnds # evs) = (0, Some ContextCancelled)"
| "session_wait (SessionDone # evs) = (0, Some SessionClosed)"
| "session_wait (StatsTick # evs) = (case session_wait evs of (n, e) \<Rightarrow> (Suc n, e))"

record ('uri, 'conn, 'addr, 'c) once_env =
  oe_ice :: "('uri, 'conn) ice_env"
  oe_crypto :: crypto
  oe_now :: "int \<times> int"
  oe_quicListen :: "tls_config \<Rightarrow> quic_config \<Rightarrow> nat option"
  oe_accepts :: "(nat + 'c) list"
  oe_lib :: "'conn ice_conn"
  oe_closeEndsAgent :: bool
  oe_closeFailsReads :: bool
  oe_resolve :: "string \<Rightarrow> nat + 'addr"
  oe_dials :: "'addr \<Rightarrow> tls_config \<Rightarrow> quic_config \<Rightarrow> (nat + 'c) list"
  oe_order :: order
  oe_net :: net
  oe_events :: "once_event list"

text \<open>
  A call of \<open>runOnce\<close> keeps a record of what it opens and closes, its deferred calls (the last one
  first), and what it has set up so far. \<open>PacketDrain\<close> is the goroutine under the QUIC transport
  that reads the ICE connection.
\<close>

datatype resource =
    IceTimeout | IceAgent | IceConn | PacketDrain | QuicTransport | TransportSession
  | Listeners | AcceptRouter | StatsTicker

datatype action = Opens resource | Closes resource

record frame =
  fr_trace :: "action list"
  fr_defers :: "resource list"
  fr_listener :: tcp_listener
  fr_dials :: "string \<rightharpoonup> int"
  fr_stats :: nat

definition empty_frame :: frame where
  "empty_frame =
     \<lparr>fr_trace = [], fr_defers = [], fr_listener = NewTCPListener, fr_dials = Map.empty, fr_stats = 0\<rparr>"

definition acquire :: "resource \<Rightarrow> frame \<Rightarrow> frame" where
  "acquire x fr = fr\<lparr>fr_trace := fr_trace fr @ [Opens x]\<rparr>"

definition release :: "resource \<Rightarrow> frame \<Rightarrow> frame" where
  "release x fr = fr\<lparr>fr_trace := fr_trace fr @ [Closes x]\<rparr>"

definition defer_close :: "resource \<Rightarrow> frame \<Rightarrow> frame" where
  "defer_close x fr = fr\<lparr>fr_defers := x # fr_defers fr\<rparr>"

text \<open>
  The deferred \<open>Close\<close> calls. What the ICE library's \<open>Close\<close> does besides is documented by the library
  and a parameter: it closes the agent, and makes reads fail, upon which \<open>drain\<close> returns.
\<close>

definition close_deferred :: "('uri, 'conn, 'addr, 'c) once_env \<Rightarrow> resource \<Rightarrow> frame \<Rightarrow> frame" where
  "close_deferred env x fr =
     (case x of
        IceConn \<Rightarrow>
          let fr1 = release IceConn fr;
              fr2 = (if oe_closeEndsAgent env then release IceAgent fr1 else fr1) in
          if oe_closeFailsReads env \<and> Opens PacketDrain \<in> set (fr_trace fr) then release PacketDrain fr2 else fr2
      | Listeners \<Rightarrow> (release Listeners fr)\<lparr>fr_listener := tl_close (oe_order env) (fr_listener fr)\<rparr>
      | _ \<Rightarrow> release x fr)"

record once_result =
  or_error :: "once_error option"
  or_frame :: frame

definition returns :: "('uri, 'conn, 'addr, 'c) once_env \<Rightarrow> once_error \<Rightarrow> frame \<Rightarrow> once_result" where
  "returns env e fr =
     \<lparr>or_error = Some e, or_frame = foldl (\<lambda>f x. close_deferred env x f) fr (fr_defers fr)\<rparr>"

text \<open>The transport runs on the packet connection made of the ICE connection; \<open>peer-b\<close> dials its remote.\<close>

definition peer_session ::
    "config \<Rightarrow> string \<Rightarrow> ('uri, 'conn, 'addr, 'c) once_env \<Rightarrow> 'conn packet_conn \<Rightarrow> 'c started" where
  "peer_session cfg role env pc =
     (if role = RolePeerA
      then Serve (serverTLSConfig (oe_crypto env) (fst (oe_now env)) (snd (oe_now env)))
             (oe_quicListen env) (oe_accepts env)
      else Dial (oe_resolve env) (oe_dials env) (pk_RemoteAddr pc))"

text \<open>\<open>Connect\<close> under its time-out; it closes the agent on the returns that say so.\<close>

definition connect_frame :: "'conn connected \<Rightarrow> frame" where
  "connect_frame co =
     release IceTimeout
       (case co_agent co of
          NoAgent \<Rightarrow> acquire IceTimeout empty_frame
        | AgentOpen \<Rightarrow> acquire IceAgent (acquire IceTimeout empty_frame)
        | AgentClosed \<Rightarrow> release IceAgent (acquire IceAgent (acquire IceTimeout empty_frame)))"

definition runOnce ::
    "config \<Rightarrow> string \<Rightarrow> ice_config \<Rightarrow> ('uri, 'conn, 'addr, 'c) once_env \<Rightarrow> once_result" where
  "runOnce cfg role agent env =
     (let co = Connect agent (oe_ice env);
          fr = connect_frame co in
      case co_result co of
        Inl e \<Rightarrow> returns env (IceFailed e) fr
      | Inr conn \<Rightarrow>
          let fr = defer_close IceConn (acquire IceConn fr);
              su = peer_session cfg role env (NewPacketConn (oe_lib env) conn);
              fr = (if su_started su then acquire QuicTransport (acquire PacketDrain fr) else fr) in
          case su_result su of
            Inl e \<Rightarrow> returns env (TransportFailed e) fr
          | Inr conns \<Rightarrow>
              let fr = defer_close TransportSession (acquire TransportSession fr);
                  me = the (cfg_peers cfg role); other = the (cfg_peers cfg (Other role)) in
              case tl_start (oe_order env) (oe_net env) (toFwdListen (pe_listen me)) (fr_listener fr) of
                (Some e, l) \<Rightarrow> returns env (ListenersFailed e) (fr\<lparr>fr_listener := l\<rparr>)
              | (None, l) \<Rightarrow>
                  let fr = defer_close Listeners (acquire Listeners (fr\<lparr>fr_listener := l\<rparr>));
                      fr = defer_close AcceptRouter (acquire AcceptRouter (fr\<lparr>fr_dials := dial_map me other\<rparr>));
                      fr = defer_close StatsTicker (acquire StatsTicker fr) in
                  case session_wait (oe_events env) of
                    (n, Some e) \<Rightarrow> returns env e (fr\<lparr>fr_stats := n\<rparr>)
                  | (n, None) \<Rightarrow> \<lparr>or_error = None, or_frame = fr\<lparr>fr_stats := n\<rparr>\<rparr>)"

section \<open>Lemmas\<close>

text \<open>The fields that the overrides leave alone, and a valid configuration stays valid.\<close>

lemma override_simps [simp]:
  "cfg_peers (override f cfg) = cfg_peers cfg" "cfg_ice (override f cfg) = cfg_ice cfg"
  "cfg_sessionID (override f cfg) = (if fl_session f \<noteq> [] then fl_session f else cfg_sessionID cfg)"
  "sg_url (cfg_signaling (override f cfg)) = (if fl_signaling f \<noteq> [] then fl_signaling f else sg_url (cfg_signaling cfg))"
  "sg_sharedSecret (cfg_signaling (override f cfg)) =
     (if fl_secret f \<noteq> [] then fl_secret f else sg_sharedSecret (cfg_signaling cfg))"
  by (simp_all add: override_def Let_def)

lemma override_valid: "valid_config cfg \<Longrightarrow> valid_config (override f cfg)"
  by (simp add: valid_config_def)

text \<open>The backoff before round \<open>k\<close>.\<close>

definition backoff_at :: "nat \<Rightarrow> int" where
  "backoff_at k = min (2 ^ k * seconds 1) (seconds 60)"

lemma next_backoff_min: "0 \<le> b \<Longrightarrow> next_backoff (min b (seconds 60)) = min (2 * b) (seconds 60)"
  by (auto simp: next_backoff_def maxBackoff_def seconds_def min_def)

lemma backoff_at_Suc: "next_backoff (backoff_at k) = backoff_at (Suc k)"
  using next_backoff_min [of "2 ^ k * seconds 1"] by (simp add: backoff_at_def seconds_def)

lemma backoff_at_0: "backoff_at 0 = seconds 1"
  by (simp add: backoff_at_def seconds_def)

lemma backoff_at_five: "5 * (backoff_at k div 5) = backoff_at k"
proof -
  have "(5::int) dvd 2 ^ k * seconds 1" "(5::int) dvd seconds 60"
    by (simp_all add: seconds_def)
  then have "5 dvd backoff_at k"
    by (simp add: backoff_at_def min_def)
  then show ?thesis
    by simp
qed

lemma backoff_at_bounds: "seconds 1 \<le> backoff_at k" "backoff_at k \<le> seconds 60"
proof -
  have "(1::int) \<le> 2 ^ k"
    by simp
  then show "seconds 1 \<le> backoff_at k"
    by (auto simp: backoff_at_def seconds_def)
qed (simp add: backoff_at_def)

text \<open>What \<open>rand.Float64\<close>, which is below 1, makes of the jitter.\<close>

definition jitter_ok :: "round \<Rightarrow> bool" where
  "jitter_ok r \<longleftrightarrow> (\<forall>b \<ge> 0. 0 \<le> rd_jitter r b \<and> 5 * rd_jitter r b \<le> 2 * b)"

lemma wait_time_bounds:
  assumes "jitter_ok r"
  shows "4 * backoff_at k \<le> 5 * wait_time (backoff_at k) (rd_jitter r (backoff_at k)) \<and>
    5 * wait_time (backoff_at k) (rd_jitter r (backoff_at k)) \<le> 6 * backoff_at k"
proof -
  have "0 \<le> backoff_at k"
    using backoff_at_bounds(1) [of k] by (simp add: seconds_def)
  then have "0 \<le> rd_jitter r (backoff_at k)" "5 * rd_jitter r (backoff_at k) \<le> 2 * backoff_at k"
    using assms by (simp_all add: jitter_ok_def)
  then show ?thesis
    using backoff_at_five [of k] by (simp add: wait_time_def algebra_simps)
qed

lemma reconnect_waits_from:
  "\<lbrakk>\<forall>r \<in> set rs. jitter_ok r; reconnect_loop (backoff_at k) rs = (runs, waits, ret); j < length waits\<rbrakk>
   \<Longrightarrow> 4 * backoff_at (k + j) \<le> 5 * waits ! j \<and> 5 * waits ! j \<le> 6 * backoff_at (k + j)"
proof (induction rs arbitrary: k j runs waits ret)
  case (Cons r rs)
  show ?case
  proof (cases "rd_before r \<or> rd_after r")
    case True
    then show ?thesis
      using Cons.prems by (auto split: if_splits)
  next
    case False
    let ?w = "wait_time (backoff_at k) (rd_jitter r (backoff_at k))"
    have w: "4 * backoff_at k \<le> 5 * ?w \<and> 5 * ?w \<le> 6 * backoff_at k"
      using wait_time_bounds Cons.prems(1) by simp
    show ?thesis
    proof (cases "rd_cancelled r")
      case True
      then show ?thesis
        using Cons.prems(2,3) False w by (auto simp: Let_def)
    next
      case cont: False
      obtain runs1 waits1 where rec: "reconnect_loop (backoff_at (Suc k)) rs = (runs1, waits1, ret)"
        "waits = ?w # waits1"
        using Cons.prems(2) False cont by (auto simp: Let_def backoff_at_Suc split: prod.splits)
      show ?thesis
      proof (cases j)
        case (Suc i)
        then show ?thesis
          using Cons.IH [OF _ rec(1), of i] Cons.prems(1,3) rec(2) by simp
      qed (use w rec(2) in simp)
    qed
  qed
qed simp

definition ends_loop :: "round \<Rightarrow> bool" where
  "ends_loop r \<longleftrightarrow> rd_before r \<or> rd_after r \<or> rd_cancelled r"

lemma reconnect_loop_ends:
  "reconnect_loop b rs = (runs, waits, ret) \<Longrightarrow>
   (let k = length (takeWhile (Not \<circ> ends_loop) rs) in
      ret = (k < length rs) \<and>
      runs = k + (if k < length rs \<and> \<not> rd_before (rs ! k) then 1 else 0) \<and>
      length waits = k + (if k < length rs \<and> \<not> rd_before (rs ! k) \<and> \<not> rd_after (rs ! k) then 1 else 0))"
proof (induction rs arbitrary: b runs waits ret)
  case (Cons r rs)
  show ?case
  proof (cases "ends_loop r")
    case True
    then show ?thesis
      using Cons.prems by (auto simp: ends_loop_def Let_def split: if_splits prod.splits)
  next
    case False
    then obtain runs1 waits1 where rec: "reconnect_loop (next_backoff b) rs = (runs1, waits1, ret)"
      "runs = Suc runs1" "length waits = Suc (length waits1)"
      using Cons.prems by (auto simp: ends_loop_def Let_def split: prod.splits)
    then show ?thesis
      using Cons.IH [OF rec(1)] False by (simp add: Let_def)
  qed
qed simp

text \<open>The dial map: the peer's own entries first, the last one of a name; then the other peer's
  listeners, the first one of a name.\<close>

lemma dial_entries:
  "foldl (\<lambda>m d. m(cd_name d \<mapsto> cd_localPort d)) m ds =
     m ++ map_of (rev (map (\<lambda>d. (cd_name d, cd_localPort d)) ds))"
  by (induction ds arbitrary: m) simp_all

lemma listen_entries:
  "foldl (\<lambda>m l. if m (cl_name l) = None then m(cl_name l \<mapsto> cl_remotePort l) else m) m ls n =
     (case m n of Some p \<Rightarrow> Some p | None \<Rightarrow> map_of (map (\<lambda>l. (cl_name l, cl_remotePort l)) ls) n)"
  by (induction ls arbitrary: m) (auto split: option.splits)

lemma dial_map_eq:
  "dial_map me other n =
     (case map_of (rev (map (\<lambda>d. (cd_name d, cd_localPort d)) (pe_dial me))) n of
        Some p \<Rightarrow> Some p
      | None \<Rightarrow> map_of (map (\<lambda>l. (cl_name l, cl_remotePort l)) (pe_listen other)) n)"
  by (simp add: dial_map_def listen_entries dial_entries)

lemma dial_map_own:
  assumes "distinct (peer_names me)" and "d \<in> set (pe_dial me)" and "cd_name d = n"
  shows "dial_map me other n = Some (cd_localPort d)"
proof -
  have "distinct (map fst (map (\<lambda>d. (cd_name d, cd_localPort d)) (pe_dial me)))"
    using assms(1) by (simp add: peer_names_def comp_def)
  then have "map_of (rev (map (\<lambda>d. (cd_name d, cd_localPort d)) (pe_dial me))) n = Some (cd_localPort d)"
    using assms(2,3) by (intro map_of_is_SomeI) (auto simp: rev_map [symmetric] comp_def)
  then show ?thesis
    by (simp add: dial_map_eq)
qed

lemma dial_map_fallback:
  assumes "distinct (peer_names other)" and "v \<in> set (pe_listen other)" and "cl_name v = n"
    and "n \<notin> cd_name ` set (pe_dial me)"
  shows "dial_map me other n = Some (cl_remotePort v)"
proof -
  have "map_of (rev (map (\<lambda>d. (cd_name d, cd_localPort d)) (pe_dial me))) n = None"
    using assms(4) by (auto simp: map_of_eq_None_iff)
  moreover have "map_of (map (\<lambda>l. (cl_name l, cl_remotePort l)) (pe_listen other)) n = Some (cl_remotePort v)"
    using assms(1-3) by (intro map_of_is_SomeI) (auto simp: peer_names_def comp_def)
  ultimately show ?thesis
    by (simp add: dial_map_eq)
qed

lemma dial_map_None:
  "dial_map me other n = None \<longleftrightarrow> n \<notin> cd_name ` set (pe_dial me) \<and> n \<notin> cl_name ` set (pe_listen other)"
  by (auto simp: dial_map_eq map_of_eq_None_iff image_image split: option.splits dest!: map_of_SomeD)

lemma tl_start_loops:
  "tl_start ord net specs l = (None, l') \<Longrightarrow>
     tl_loops l' = tl_loops l @ zip (map ls_name specs) [length (tl_sockets l)..<length (tl_sockets l) + length specs]"
proof (induction specs arbitrary: l)
  case (Cons spec specs)
  obtain l1 where b: "bind_spec net spec l = Inr l1" and s: "tl_start ord net specs l1 = (None, l')"
    using Cons.prems by (auto split: sum.splits)
  have "tl_loops l1 = tl_loops l @ [(ls_name spec, length (tl_sockets l))]"
    "length (tl_sockets l1) = Suc (length (tl_sockets l))"
    using b by (auto simp: bind_spec_def Let_def split: if_splits option.splits)
  then show ?case
    using Cons.IH [OF s] upt_conv_Cons [of "length (tl_sockets l)" "length (tl_sockets l) + length (spec # specs)"]
    by (simp del: upt_Suc)
qed simp

lemma toFwdListen_simps [simp]:
  "length (toFwdListen ls) = length ls" "map ls_name (toFwdListen ls) = map cl_name ls"
  "k < length ls \<Longrightarrow> toFwdListen ls ! k =
     \<lparr>ls_name = cl_name (ls ! k), ls_localPort = cl_localPort (ls ! k), ls_remotePort = cl_remotePort (ls ! k)\<rparr>"
  by (simp_all add: toFwdListen_def comp_def)

lemma valid_config_names: "valid_config cfg \<Longrightarrow> cfg_peers cfg role = Some p \<Longrightarrow> distinct (peer_names p)"
  by (auto simp: valid_config_def ran_def)

lemma load_facts:
  assumes "Load readFile env unmarshal orders path = Inr cfg"
    and "\<forall>raw cfg0. unmarshal raw = Inr cfg0 \<longrightarrow>
      visits (fst (orders (applyDefaults cfg0))) (cfg_peers cfg0) \<and>
      visits (snd (orders (applyDefaults cfg0))) (cfg_peers cfg0)"
  shows "valid_config cfg \<and> ic_stun (cfg_ice cfg) \<noteq> []"
proof -
  obtain raw cfg0 where r: "unmarshal (os_Expand env raw) = Inr cfg0"
    and c: "cfg = applyDefaults cfg0" "validate (fst (orders cfg)) (snd (orders cfg)) cfg = None"
    using assms(1) by (auto simp: Load_def Let_def split: sum.splits option.splits prod.splits)
  have "cfg_peers cfg = cfg_peers cfg0"
    by (simp add: c(1) applyDefaults_def)
  then have "visits (fst (orders cfg)) (cfg_peers cfg)" "visits (snd (orders cfg)) (cfg_peers cfg)"
    using assms(2) r unfolding c(1) by simp_all
  then show ?thesis
    using validate_valid c by (auto simp: applyDefaults_def defaultSTUN_def)
qed

lemma session_wait_error:
  "snd (session_wait evs) = None \<longleftrightarrow> set evs \<subseteq> {StatsTick}"
  "snd (session_wait evs) \<in> {None, Some ContextCancelled, Some SessionClosed}"
  by (induction evs rule: session_wait.induct) (auto split: prod.splits)

section \<open>Properties of the peer program\<close>

text \<open>C24 (functional): \<open>main\<close> starts only with a usable configuration. When the file loads and \<open>main\<close>
  gets to the reconnect loop, the configuration with the overrides applied is valid, the role is one
  of the two and has a peer entry on both sides; the agent has the session, role and servers of that
  configuration, polls every two seconds, and is controlling exactly for \<open>peer-a\<close>, the role that
  serves the transport while the other one dials; the client has its URL and secret.\<close>

theorem main_starts_valid:
  assumes "main_start (Load readFile env unmarshal orders) f = Inr st"
    and "\<forall>raw cfg0. unmarshal raw = Inr cfg0 \<longrightarrow>
      visits (fst (orders (applyDefaults cfg0))) (cfg_peers cfg0) \<and>
      visits (snd (orders (applyDefaults cfg0))) (cfg_peers cfg0)"
  shows "valid_config (st_config st) \<and> st_role st \<in> {RolePeerA, RolePeerB} \<and> st_role st = fl_role f \<and>
    (\<exists>me other. cfg_peers (st_config st) (st_role st) = Some me \<and>
       cfg_peers (st_config st) (Other (st_role st)) = Some other) \<and>
    ia_sessionID (st_agent st) = cfg_sessionID (st_config st) \<and> ia_role (st_agent st) = st_role st \<and>
    ia_stun (st_agent st) = ic_stun (cfg_ice (st_config st)) \<and> ia_stun (st_agent st) \<noteq> [] \<and>
    ia_pollInterval (st_agent st) = seconds 2 \<and>
    (IsControlling (st_agent st) \<longleftrightarrow> st_role st = RolePeerA) \<and>
    st_client st = NewClient (sg_url (cfg_signaling (st_config st))) (sg_sharedSecret (cfg_signaling (st_config st)))"
proof -
  obtain cfg0 where l: "Load readFile env unmarshal orders (fl_config f) = Inr cfg0"
    and p: "cfg_peers cfg0 (fl_role f) \<noteq> None" and c: "st_config st = override f cfg0"
    and r: "st_role st = fl_role f"
    and a: "ia_sessionID (st_agent st) = cfg_sessionID (st_config st)" "ia_role (st_agent st) = fl_role f"
      "ia_stun (st_agent st) = ic_stun (cfg_ice cfg0)" "ia_pollInterval (st_agent st) = seconds 2"
    and k: "st_client st = NewClient (sg_url (cfg_signaling (st_config st))) (sg_sharedSecret (cfg_signaling (st_config st)))"
    using assms(1) by (auto simp: main_start_def Let_def ice_New_def split: if_splits sum.splits)
  have v: "valid_config cfg0" "ic_stun (cfg_ice cfg0) \<noteq> []"
    using load_facts [OF l assms(2)] by blast+
  then have d: "dom (cfg_peers cfg0) = {RolePeerA, RolePeerB}"
    by (simp add: valid_config_def)
  then have role: "fl_role f \<in> {RolePeerA, RolePeerB}"
    using p by auto
  have "Other (fl_role f) \<in> dom (cfg_peers cfg0)"
    unfolding d by (simp add: Other_def)
  then show ?thesis
    using override_valid [OF v(1)] v(2) role p c r a k by (auto simp: IsControlling_def RolePeerA_def)
qed

definition sample_flags :: flags where
  "sample_flags =
     \<lparr>fl_config = ''c.json'', fl_role = RolePeerB, fl_session = ''t'', fl_signaling = [], fl_secret = [],
      fl_logLevel = ''info''\<rparr>"

theorem main_starts_valid_witness:
  "\<exists>st. main_start (Load (\<lambda>_. Inr ''{}'') (\<lambda>_. []) (\<lambda>_. Inr good_config)
      (\<lambda>_. ([RolePeerA, RolePeerB], [RolePeerA, RolePeerB]))) sample_flags = Inr st \<and>
     valid_config (st_config st) \<and> \<not> IsControlling (st_agent st)"
proof -
  let ?orders = "\<lambda>_ :: config. ([RolePeerA, RolePeerB], [RolePeerA, RolePeerB])"
  have "Load (\<lambda>_. Inr ''{}'') (\<lambda>_. []) (\<lambda>_. Inr good_config) ?orders ''c.json'' =
      Inr (applyDefaults good_config)"
    by (simp add: Load_def validate_def good_config_def sample_config_def applyDefaults_def
        check_peer_def sample_peer_def)
  moreover have "cfg_peers (applyDefaults good_config) RolePeerB \<noteq> None"
    by (simp add: applyDefaults_def good_config_def)
  ultimately obtain st where st:
    "main_start (Load (\<lambda>_. Inr ''{}'') (\<lambda>_. []) (\<lambda>_. Inr good_config) ?orders) sample_flags = Inr st"
    by (auto simp: main_start_def sample_flags_def RolePeerB_def Let_def)
  have "visits [RolePeerA, RolePeerB] (cfg_peers good_config)"
    by (rule good_config_peers)
  then have "\<forall>raw cfg0. Inr good_config = (Inr cfg0 :: nat + config) \<longrightarrow>
      visits (fst (?orders (applyDefaults cfg0))) (cfg_peers cfg0) \<and>
      visits (snd (?orders (applyDefaults cfg0))) (cfg_peers cfg0)"
    by simp
  from main_starts_valid [OF st this] st show ?thesis
    by (auto simp: sample_flags_def)
qed

text \<open>C35 (bounds): the waits between sessions grow from one second to a minute, each within 20 percent
  of its base: the wait after session \<open>k\<close> (counted from 0) is between four and six fifths of the
  smaller of \<open>2 ^ k\<close> and 60 seconds; so it is never below 0.8 seconds, and it can reach 72.\<close>

theorem reconnect_waits:
  assumes "\<forall>r \<in> set rs. jitter_ok r" and "runReconnectLoop rs = (runs, waits, ret)" and "k < length waits"
  shows "4 * min (2 ^ k * seconds 1) (seconds 60) \<le> 5 * waits ! k \<and>
    5 * waits ! k \<le> 6 * min (2 ^ k * seconds 1) (seconds 60) \<and>
    seconds 4 \<le> 5 * waits ! k \<and> waits ! k \<le> seconds 72"
proof -
  have w: "4 * backoff_at k \<le> 5 * waits ! k" "5 * waits ! k \<le> 6 * backoff_at k"
    using reconnect_waits_from [of rs 0 runs waits ret k] assms by (simp_all add: runReconnectLoop_def backoff_at_0)
  then have "seconds 4 \<le> 5 * waits ! k" "waits ! k \<le> seconds 72"
    using backoff_at_bounds [of k] by (simp_all add: seconds_def)
  then show ?thesis
    using w by (simp add: backoff_at_def)
qed

definition steady_round :: round where
  "steady_round = \<lparr>rd_before = False, rd_after = False, rd_jitter = (\<lambda>b. b div 5), rd_cancelled = False\<rparr>"

lemma steady_waits: "length (fst (snd (reconnect_loop b (replicate n steady_round)))) = n"
  by (induction n arbitrary: b) (simp_all add: steady_round_def Let_def case_prod_beta)

theorem reconnect_waits_witness:
  "\<exists>runs waits ret. runReconnectLoop (replicate 7 steady_round) = (runs, waits, ret) \<and>
     length waits = 7 \<and> 5 * waits ! 6 \<le> 6 * seconds 60"
proof -
  have j: "\<forall>r \<in> set (replicate 7 steady_round). jitter_ok r"
    by (auto simp: jitter_ok_def steady_round_def)
  obtain runs waits ret where w: "runReconnectLoop (replicate 7 steady_round) = (runs, waits, ret)"
    by (cases "runReconnectLoop (replicate 7 steady_round)")
  have "length waits = 7"
    using w steady_waits [of "seconds 1" 7] by (simp add: runReconnectLoop_def)
  then show ?thesis
    using reconnect_waits [OF j w, of 6] w by (simp add: seconds_def)
qed

text \<open>C36 (liveness): the peer never gives up by itself, and stops when it is told to. With \<open>k\<close> rounds that the
  context does not interrupt, the loop runs a session and a wait in each of them, whatever became
  of the session; if there is a further round, in which the context is cancelled, the loop returns
  in it: without a session when the context was done before, after the session when it was done by its
  end, and after one more wait only when it is cancelled during that wait. Otherwise it goes on.\<close>

theorem reconnect_until_cancelled:
  "case runReconnectLoop rs of (runs, waits, ret) \<Rightarrow>
     let k = length (takeWhile (\<lambda>r. \<not> (rd_before r \<or> rd_after r \<or> rd_cancelled r)) rs) in
     ret = (k < length rs) \<and>
     runs = k + (if k < length rs \<and> \<not> rd_before (rs ! k) then 1 else 0) \<and>
     length waits = k + (if k < length rs \<and> \<not> rd_before (rs ! k) \<and> \<not> rd_after (rs ! k) then 1 else 0)"
proof -
  obtain runs waits ret where "reconnect_loop (seconds 1) rs = (runs, waits, ret)"
    by (cases "reconnect_loop (seconds 1) rs")
  from reconnect_loop_ends [OF this] this show ?thesis
    by (simp add: runReconnectLoop_def ends_loop_def comp_def)
qed

text \<open>What a trace opened and closed, of the resources in a set.\<close>

fun opened :: "resource set \<Rightarrow> action list \<Rightarrow> resource list" where
  "opened A [] = []"
| "opened A (Opens x # tr) = (if x \<in> A then x # opened A tr else opened A tr)"
| "opened A (Closes x # tr) = opened A tr"

fun closed :: "resource set \<Rightarrow> action list \<Rightarrow> resource list" where
  "closed A [] = []"
| "closed A (Opens x # tr) = closed A tr"
| "closed A (Closes x # tr) = (if x \<in> A then x # closed A tr else closed A tr)"

lemmas frame_defs = returns_def close_deferred_def acquire_def release_def defer_close_def
  empty_frame_def

text \<open>What \<open>runOnce\<close> is about: a trace that leaks nothing but what \<open>leaks\<close> names.\<close>

definition releases :: "action list \<Rightarrow> resource set \<Rightarrow> bool" where
  "releases tr leaks \<longleftrightarrow>
     distinct tr \<and> {x. Opens x \<in> set tr} - leaks = {x. Closes x \<in> set tr} \<and> leaks \<subseteq> {x. Opens x \<in> set tr} \<and>
     (let A = {IceConn, TransportSession, Listeners, AcceptRouter, StatsTicker} in closed A tr = rev (opened A tr))"

definition once_leaks :: "once_result \<Rightarrow> resource set" where
  "once_leaks r =
     (case or_error r of
        Some (IceFailed (ChecksFailed _)) \<Rightarrow> {IceAgent}
      | Some (IceFailed _) \<Rightarrow> {}
      | Some (TransportFailed (TLSFailed _)) \<Rightarrow> {}
      | Some (TransportFailed (ResolveFailed _)) \<Rightarrow> {}
      | _ \<Rightarrow> {QuicTransport})"

lemma runOnce_ice:
  assumes "co_result (Connect agent (oe_ice env)) = Inl e"
  shows "runOnce cfg role agent env = returns env (IceFailed e) (connect_frame (Connect agent (oe_ice env)))"
  using assms by (simp add: runOnce_def Let_def)

text \<open>The frame after a successful \<open>Connect\<close> and the start of the transport.\<close>

lemma connect_frame_up:
  "co_result (Connect agent env) = Inr conn \<Longrightarrow>
   connect_frame (Connect agent env) =
     empty_frame\<lparr>fr_trace := [Opens IceTimeout, Opens IceAgent, Closes IceTimeout]\<rparr>"
  using Connect_well_ended [of agent env] by (simp add: well_ended_def frame_defs connect_frame_def)

lemma release_ice:
  assumes "co_result (Connect agent (oe_ice env)) = Inl e"
  shows "releases (fr_trace (or_frame (runOnce cfg role agent env))) (once_leaks (runOnce cfg role agent env))"
  using Connect_well_ended [of agent "oe_ice env"] assms
  by (cases e) (auto simp: runOnce_ice well_ended_def frame_defs connect_frame_def releases_def once_leaks_def)

lemma peer_session_started:
  "su_started (peer_session cfg role env pc) =
     (case su_result (peer_session cfg role env pc) of
        Inl (TLSFailed _) \<Rightarrow> False | Inl (ResolveFailed _) \<Rightarrow> False | _ \<Rightarrow> True)"
  by (simp add: peer_session_def Serve_started Dial_started)

lemma release_transport:
  assumes "co_result (Connect agent (oe_ice env)) = Inr conn"
    and "su_result (peer_session cfg role env (NewPacketConn (oe_lib env) conn)) = Inl e"
    and "oe_closeEndsAgent env" and "oe_closeFailsReads env"
  shows "releases (fr_trace (or_frame (runOnce cfg role agent env))) (once_leaks (runOnce cfg role agent env))"
  using assms peer_session_started [of cfg role env "NewPacketConn (oe_lib env) conn"]
  by (cases e) (auto simp: runOnce_def Let_def connect_frame_up frame_defs releases_def once_leaks_def)

lemma release_session:
  assumes "co_result (Connect agent (oe_ice env)) = Inr conn"
    and "su_result (peer_session cfg role env (NewPacketConn (oe_lib env) conn)) = Inr conns"
    and "oe_closeEndsAgent env" and "oe_closeFailsReads env"
    and "or_error (runOnce cfg role agent env) = Some e"
  shows "releases (fr_trace (or_frame (runOnce cfg role agent env))) (once_leaks (runOnce cfg role agent env))"
proof -
  have st: "su_started (peer_session cfg role env (NewPacketConn (oe_lib env) conn))"
    using assms(2) peer_session_started [of cfg role env "NewPacketConn (oe_lib env) conn"] by simp
  obtain e l where start: "tl_start (oe_order env) (oe_net env) (toFwdListen (pe_listen (the (cfg_peers cfg role)))) NewTCPListener = (e, l)"
    by (cases "tl_start (oe_order env) (oe_net env) (toFwdListen (pe_listen (the (cfg_peers cfg role)))) NewTCPListener")
  obtain k w where w: "session_wait (oe_events env) = (k, w)"
    by (cases "session_wait (oe_events env)")
  have "w \<in> {None, Some ContextCancelled, Some SessionClosed}"
    using session_wait_error(2) [of "oe_events env"] w by simp
  then show ?thesis
    using assms st start w
    by (cases e) (auto simp: runOnce_def Let_def connect_frame_up frame_defs releases_def once_leaks_def)
qed

text \<open>The sockets: all closed when it has returned, all bound when it waits.\<close>

lemma runOnce_sockets:
  assumes "valid_config cfg" and "cfg_peers cfg role = Some me"
    and "range_order (map cl_name (pe_listen me)) (oe_order env)"
  shows "case or_error (runOnce cfg role agent env) of
       None \<Rightarrow> closed UNIV (fr_trace (or_frame (runOnce cfg role agent env))) = [IceTimeout] \<and>
         set (oe_events env) \<subseteq> {StatsTick} \<and>
         length (tl_sockets (fr_listener (or_frame (runOnce cfg role agent env)))) = length (pe_listen me)
     | Some e \<Rightarrow> \<forall>s \<in> set (tl_sockets (fr_listener (or_frame (runOnce cfg role agent env)))). \<not> sk_open s"
proof -
  let ?specs = "toFwdListen (pe_listen me)"
  have d: "distinct (map ls_name ?specs)"
    using valid_config_names [OF assms(1,2)] by (simp add: peer_names_def)
  have l0: "\<not> tl_closed NewTCPListener" "tl_listeners NewTCPListener = Map.empty" "tl_sockets NewTCPListener = []"
    by (simp_all add: NewTCPListener_def)
  obtain e l where start: "tl_start (oe_order env) (oe_net env) ?specs NewTCPListener = (e, l)"
    by (cases "tl_start (oe_order env) (oe_net env) ?specs NewTCPListener")
  have inv: "dom (tl_listeners l) \<subseteq> set (map cl_name (pe_listen me)) \<and>
      (case e of None \<Rightarrow> tl_inv l \<and> \<not> tl_closed l | Some _ \<Rightarrow> \<forall>s \<in> set (tl_sockets l). \<not> sk_open s)"
    using tl_start_inv [OF start tl_inv_new l0(1) d _ assms(3)] by (simp add: l0)
  have shut: "\<forall>s \<in> set (tl_sockets (tl_close (oe_order env) l)). \<not> sk_open s" if "e = None"
    using inv that tl_close_closes [of l "oe_order env"] assms(3) by (simp add: range_order_def)
  have n: "length (tl_sockets l) = length (pe_listen me)" if "e = None"
    using tl_start_ok [where l = NewTCPListener] start that by (auto simp: l0)
  obtain k w where w: "session_wait (oe_events env) = (k, w)"
    by (cases "session_wait (oe_events env)")
  note evs = session_wait_error(1) [of "oe_events env", unfolded w snd_conv]
  show ?thesis
  proof (cases "co_result (Connect agent (oe_ice env))")
    case (Inl x)
    then show ?thesis
      by (auto simp: runOnce_ice frame_defs connect_frame_def l0 split: ice_agent.split)
  next
    case conn: (Inr conn)
    show ?thesis
    proof (cases "su_result (peer_session cfg role env (NewPacketConn (oe_lib env) conn))")
      case (Inl x)
      then show ?thesis
        using conn by (simp add: runOnce_def frame_defs connect_frame_up Let_def l0)
    next
      case (Inr conns)
      then show ?thesis
        using conn start assms(2) inv shut n w evs
        by (cases e; cases w) (simp_all add: runOnce_def connect_frame_up frame_defs Let_def)
    qed
  qed
qed

text \<open>C7 (safety): a session releases what it acquired. Whenever \<open>runOnce\<close> returns, with whatever error,
  everything it opened (the time-out of \<open>Connect\<close>, the ICE agent and connection, the packet queue's
  goroutine, the session, the listeners, the router, the ticker) has been closed once, the deferred
  ones in the reverse order of their opening, and every TCP socket it bound is closed. There are two
  exceptions, which are leaks: the agent of a \<open>Connect\<close> whose connectivity checks failed, and the QUIC
  transport, which nothing ever closes. As long as it has not returned, nothing but the time-out
  is closed. (The ICE library's \<open>Close\<close> closes the agent and makes reads fail, as it documents.)\<close>

theorem run_once_releases:
  assumes "valid_config cfg" and "cfg_peers cfg role = Some me"
    and "range_order (map cl_name (pe_listen me)) (oe_order env)"
    and "oe_closeEndsAgent env" and "oe_closeFailsReads env"
  shows "let r = runOnce cfg role agent env; fr = or_frame r in
    (case or_error r of
       None \<Rightarrow> closed UNIV (fr_trace fr) = [IceTimeout] \<and> set (oe_events env) \<subseteq> {StatsTick} \<and>
         length (tl_sockets (fr_listener fr)) = length (pe_listen me)
     | Some e \<Rightarrow> releases (fr_trace fr)
           (case e of
              IceFailed (ChecksFailed _) \<Rightarrow> {IceAgent}
            | IceFailed _ \<Rightarrow> {}
            | TransportFailed (TLSFailed _) \<Rightarrow> {}
            | TransportFailed (ResolveFailed _) \<Rightarrow> {}
            | _ \<Rightarrow> {QuicTransport}) \<and>
         (\<forall>s \<in> set (tl_sockets (fr_listener fr)). \<not> sk_open s))"
proof -
  let ?r = "runOnce cfg role agent env"
  have "releases (fr_trace (or_frame ?r)) (once_leaks ?r)" if "or_error ?r \<noteq> None"
    using that release_ice [of agent env _ cfg role] release_transport [OF _ _ assms(4,5), of agent _ cfg role]
      release_session [OF _ _ assms(4,5), of agent _ cfg role]
    by (cases "co_result (Connect agent (oe_ice env))";
        cases "su_result (peer_session cfg role env (NewPacketConn (oe_lib env) (projr (co_result (Connect agent (oe_ice env))))))")
      auto
  then show ?thesis
    using runOnce_sockets [OF assms(1-3), of agent] unfolding Let_def
    by (cases "or_error ?r") (simp_all add: once_leaks_def)
qed

definition one_order :: order where
  "one_order m = filter (\<lambda>n. m n \<noteq> None) [''http'']"

lemma one_order_ok: "range_order [''http''] one_order"
  by (auto simp: range_order_def visits_def one_order_def)

definition sample_crypto :: crypto where
  "sample_crypto =
     \<lparr>cr_generateKey = Inr [1], cr_createCertificate = (\<lambda>t k. Inr k), cr_marshalKey = Inr,
      cr_pem = (\<lambda>kind b. b), cr_keyPair = (\<lambda>c k. Inr (c @ k))\<rparr>"

definition sample_lib :: "string ice_conn" where
  "sample_lib =
     \<lparr>ic_Read = (\<lambda>n c. (([], Some 0), c)), ic_Write = (\<lambda>b c. ((length b, None), c)), ic_Close = Pair None,
      ic_SetDeadline = (\<lambda>t. Pair None), ic_SetReadDeadline = (\<lambda>t. Pair None),
      ic_SetWriteDeadline = (\<lambda>t. Pair None), ic_LocalAddr = id, ic_RemoteAddr = id\<rparr>"

definition sample_once :: "(string, string, string, nat) once_env" where
  "sample_once =
     \<lparr>oe_ice = sample_env, oe_crypto = sample_crypto, oe_now = (0, 1),
      oe_quicListen = (\<lambda>tls quic. None), oe_accepts = [Inr 0, Inr 1, Inr 2, Inr 3],
      oe_lib = sample_lib, oe_closeEndsAgent = True, oe_closeFailsReads = True, oe_resolve = Inr,
      oe_dials = (\<lambda>addr tls quic. []), oe_order = one_order, oe_net = free_ports,
      oe_events = [StatsTick, CtxEnds]\<rparr>"

lemma good_config_valid: "valid_config good_config"
  by (auto simp: valid_config_def good_config_def sample_config_def sample_peer_def peer_names_def)

lemma good_config_roles:
  "cfg_peers good_config RolePeerA = Some (sample_peer ''http'' ''ssh'')"
  "cfg_peers good_config RolePeerB = Some (sample_peer ''ssh'' ''http'')"
  by (simp_all add: good_config_def)

lemma sample_connect: "co_result (Connect sample_ice sample_env) = Inr ''up''"
  by (simp add: Connect_def sample_env_def sample_ice_def exchange_def IsControlling_def gives_up_def
      start_checks_def newGen_def hex_byte_def hex_digits_def sample_offer_def)

lemma sample_serve: "su_result (peer_session good_config RolePeerA sample_once pc) = Inr [0, 1, 2, 3]"
  by (simp add: peer_session_def sample_once_def Serve_def numSubconns_def collect.simps
      serverTLSConfig_def generateSelfSignedCert_def sample_crypto_def)

lemma sample_start:
  "\<exists>l. tl_start one_order free_ports (toFwdListen (pe_listen (sample_peer ''http'' ''ssh''))) NewTCPListener = (None, l) \<and>
     tl_loops l = [(''http'', 0)]"
  by (simp add: toFwdListen_def sample_peer_def bind_spec_def valid_port_def free_ports_def Let_def NewTCPListener_def)

theorem run_once_releases_witness:
  "or_error (runOnce good_config RolePeerA sample_ice sample_once) = Some ContextCancelled \<and>
   releases (fr_trace (or_frame (runOnce good_config RolePeerA sample_ice sample_once))) {QuicTransport}"
proof -
  let ?r = "runOnce good_config RolePeerA sample_ice sample_once"
  have e: "or_error ?r = Some ContextCancelled"
    using sample_connect sample_serve sample_start
    by (auto simp: runOnce_def frame_defs connect_frame_up good_config_roles Let_def sample_once_def)
  have "range_order (map cl_name (pe_listen (sample_peer ''http'' ''ssh''))) (oe_order sample_once)"
    "oe_closeEndsAgent sample_once" "oe_closeFailsReads sample_once"
    using one_order_ok by (simp_all add: sample_peer_def sample_once_def)
  from run_once_releases [OF good_config_valid good_config_roles(1) this, of sample_ice] e show ?thesis
    by (simp add: Let_def)
qed

text \<open>C8 (functional): where the name of an accepted connection leads. The two peers may have different
  configurations. When the other peer's \<open>Start\<close> succeeded, every accept loop of its runs under the name
  of one of its own listen entries, on the port bound for that entry. This peer's router then dials for
  this name the port of its own \<open>dial\<close> entry of the name; without one, the remote port that its own copy
  of the other peer's listen entries gives for the name, if any; and it has no port for the
  name, so that the router drops the stream, exactly when neither has it. So every name has
  a port when the two agree on the other peer's listen entries.\<close>

theorem listen_names_resolve:
  assumes "valid_config cfg" and "cfg_peers cfg role = Some me" and "cfg_peers cfg (Other role) = Some other"
    and "cfg_peers cfg' (Other role) = Some they"
    and "tl_start ord net (toFwdListen (pe_listen they)) NewTCPListener = (None, l)"
    and "(name, i) \<in> set (tl_loops l)"
  shows "(\<exists>spec \<in> set (pe_listen they). cl_name spec = name \<and>
      net i (cl_localPort spec) = Some (sk_port (tl_sockets l ! i)) \<and>
      (name \<notin> cd_name ` set (pe_dial me) \<and> pe_listen other = pe_listen they \<longrightarrow>
         dial_map me other name = Some (cl_remotePort spec))) \<and>
    (\<forall>d \<in> set (pe_dial me). cd_name d = name \<longrightarrow> dial_map me other name = Some (cd_localPort d)) \<and>
    (\<forall>v \<in> set (pe_listen other). cl_name v = name \<and> name \<notin> cd_name ` set (pe_dial me) \<longrightarrow>
       dial_map me other name = Some (cl_remotePort v)) \<and>
    (dial_map me other name = None \<longleftrightarrow>
       name \<notin> cd_name ` set (pe_dial me) \<and> name \<notin> cl_name ` set (pe_listen other))"
proof -
  let ?specs = "toFwdListen (pe_listen they)"
  have l0: "tl_loops NewTCPListener = []" "tl_sockets NewTCPListener = []"
    by (simp_all add: NewTCPListener_def)
  have "(name, i) \<in> set (zip (map cl_name (pe_listen they)) [0..<length (pe_listen they)])"
    using tl_start_loops [OF assms(5)] assms(6) by (simp add: l0)
  then have i: "i < length (pe_listen they)" "cl_name (pe_listen they ! i) = name"
    by (auto simp: set_zip)
  have net: "net i (cl_localPort (pe_listen they ! i)) = Some (sk_port (tl_sockets l ! i))"
    using tl_start_ok [OF assms(5)] i(1) by (simp add: l0)
  note dials = dial_map_own [OF valid_config_names [OF assms(1,2)]]
    dial_map_fallback [OF valid_config_names [OF assms(1,3)]]
  show ?thesis
  proof (intro conjI)
    show "\<exists>spec \<in> set (pe_listen they). cl_name spec = name \<and>
        net i (cl_localPort spec) = Some (sk_port (tl_sockets l ! i)) \<and>
        (name \<notin> cd_name ` set (pe_dial me) \<and> pe_listen other = pe_listen they \<longrightarrow>
           dial_map me other name = Some (cl_remotePort spec))"
      using i net dials(2) by (intro bexI [of _ "pe_listen they ! i"]) auto
    show "dial_map me other name = None \<longleftrightarrow>
        name \<notin> cd_name ` set (pe_dial me) \<and> name \<notin> cl_name ` set (pe_listen other)"
      by (rule dial_map_None)
  qed (use dials in auto)
qed

theorem listen_names_resolve_witness:
  "dial_map (sample_peer ''ssh'' ''http'') (sample_peer ''http'' ''ssh'') ''http'' = Some 22"
proof -
  obtain l where l: "tl_start one_order free_ports (toFwdListen (pe_listen (sample_peer ''http'' ''ssh''))) NewTCPListener = (None, l)"
    "(''http'', 0) \<in> set (tl_loops l)"
    using sample_start by auto
  have other: "cfg_peers good_config (Other RolePeerB) = Some (sample_peer ''http'' ''ssh'')"
    by (simp add: Other_def good_config_roles)
  from listen_names_resolve [OF good_config_valid good_config_roles(2) other other l] show ?thesis
    by (simp add: sample_peer_def)
qed

end
