(* ===== verification/Bench.thy ===== *)
theory Bench
  imports StripeSend
begin

text \<open>
  The benchmark program (\<open>cmd/nl-punch-bench/main.go\<close>): the four modes of its server, the client's
  tests as functions of what their connections and clocks answer, and the statistics. The arithmetic
  on \<open>float64\<close> is a parameter with the laws of its rounding.
\<close>

section \<open>The server\<close>

definition modePing :: byte where
  "modePing = 80"

definition modeSink :: byte where
  "modeSink = 83"

definition modeUpload :: byte where
  "modeUpload = 85"

definition modeHello :: byte where
  "modeHello = 72"

definition pingPayloadSize :: nat where
  "pingPayloadSize = 16"

definition ioBufSize :: nat where
  "ioBufSize = 64 * 1024"

text \<open>The echo loop, on the slices its reads return and the last one, which comes with an error.\<close>

fun echo_loop :: "byte list list \<Rightarrow> byte list \<Rightarrow> writer \<Rightarrow> writer" where
  "echo_loop [] l w = (if length l > 0 then snd (conn_write l w) else w)"
| "echo_loop (p # ps) l w =
     (if length p > 0 then
        (case conn_write p w of (Some e, w1) \<Rightarrow> w1 | (None, w1) \<Rightarrow> echo_loop ps l w1)
      else echo_loop ps l w)"

fun sink_loop :: "byte list list \<Rightarrow> byte list \<Rightarrow> u64 \<Rightarrow> u64" where
  "sink_loop [] l cnt = cnt + of_nat (length l)"
| "sink_loop (p # ps) l cnt = sink_loop ps l (cnt + of_nat (length p))"

text \<open>The buffer of random bytes: eight at a time, little-endian, the last ones cut.\<close>

fun fillRandom :: "nat \<Rightarrow> u64 list \<Rightarrow> byte list" where
  "fillRandom n [] = []"
| "fillRandom n (r # rs) = (if n = 0 then [] else take n (rev (put_be 8 r)) @ fillRandom (n - 8) rs)"

text \<open>The upload loop; \<open>clock\<close> says before each write whether the deadline is still ahead.\<close>

fun upload_loop :: "bool list \<Rightarrow> byte list \<Rightarrow> writer \<Rightarrow> writer" where
  "upload_loop [] buf w = w"
| "upload_loop (before # clock) buf w =
     (if before then (case conn_write buf w of (Some e, w1) \<Rightarrow> w1 | (None, w1) \<Rightarrow> upload_loop clock buf w1)
      else w)"

text \<open>
  \<open>serve\<close>: the result of reading the mode byte, then the mode's exchange. What follows the mode
  byte is a source for the modes that loop over \<open>Read\<close>, a reader for the one that reads a number;
  \<open>clock\<close> gives the clock for a duration.
\<close>

definition serve_conn ::
    "io_error + byte \<Rightarrow> source \<Rightarrow> reader \<Rightarrow> (u32 \<Rightarrow> bool list) \<Rightarrow> u64 list \<Rightarrow> writer \<Rightarrow> writer" where
  "serve_conn hdr src rd clock rnd w =
     (case hdr of
        Inl e \<Rightarrow> w
      | Inr mode \<Rightarrow>
          if mode = modePing then echo_loop (src_reads src) (src_last src) w
          else if mode = modeSink then
            snd (conn_write (put_be 8 (sink_loop (src_reads src) (src_last src) 0)) w)
          else if mode = modeUpload then
            (case fst (read_full 4 rd) of
               Inl e \<Rightarrow> w
             | Inr d \<Rightarrow> upload_loop (clock (get_be d)) (fillRandom ioBufSize rnd) w)
          else if mode = modeHello then snd (conn_write [modeHello] w)
          else w)"

section \<open>Statistics\<close>

text \<open>
  Samples are durations in nanoseconds. Of the floats the code uses three things: \<open>fp_index m q\<close> is
  \<open>int(float64(m) * p)\<close> for the constant \<open>p = q / 100\<close>, \<open>fp_ms d\<close> is \<open>d.Seconds() * 1000\<close>, and
  \<open>fp_mean s n\<close> is \<open>float64(s) / float64(n) / float64(time.Millisecond)\<close>. Rounding is monotone, and a
  product with a factor of at most 1 is not above the other factor.
\<close>

record 'f floats =
  fp_index :: "nat \<Rightarrow> nat \<Rightarrow> nat"
  fp_ms :: "int \<Rightarrow> 'f"
  fp_mean :: "int \<Rightarrow> nat \<Rightarrow> 'f"


record 'f rtt_stats =
  rt_min :: 'f
  rt_p50 :: 'f
  rt_p90 :: 'f
  rt_p95 :: 'f
  rt_p99 :: 'f
  rt_max :: 'f
  rt_mean :: 'f

definition quantile :: "'f floats \<Rightarrow> int list \<Rightarrow> nat \<Rightarrow> 'f" where
  "quantile fp sorted_samples q =
     fp_ms fp (sorted_samples ! fp_index fp (length sorted_samples - 1) q)"

text \<open>The sum is a \<open>time.Duration\<close>, a signed 64-bit integer, and wraps.\<close>

definition duration_sum :: "int list \<Rightarrow> int" where
  "duration_sum ds = sint (foldl (\<lambda>sum d. sum + word_of_int d) (0 :: u64) ds)"

definition stats :: "'f floats \<Rightarrow> int list \<Rightarrow> 'f rtt_stats option" where
  "stats fp s =
     (if length s = 0 then None
      else let ss = sort s; q = quantile fp ss in
        Some \<lparr>rt_min = fp_ms fp (ss ! 0), rt_p50 = q 50, rt_p90 = q 90, rt_p95 = q 95, rt_p99 = q 99,
          rt_max = fp_ms fp (ss ! (length ss - 1)), rt_mean = fp_mean fp (duration_sum ss) (length ss)\<rparr>)"

section \<open>The client\<close>

text \<open>What a test sends first; \<open>dial\<close> is the result of connecting.\<close>

fun send_all :: "byte list list \<Rightarrow> writer \<Rightarrow> io_error + writer" where
  "send_all [] w = Inr w"
| "send_all (b # bs) w = (case conn_write b w of (Some e, w1) \<Rightarrow> Inl e | (None, w1) \<Rightarrow> send_all bs w1)"

definition open_test :: "io_error + writer \<Rightarrow> byte list list \<Rightarrow> io_error + writer" where
  "open_test dial msgs = (case dial of Inl e \<Rightarrow> Inl e | Inr w \<Rightarrow> send_all msgs w)"

text \<open>
  A ping carries its number and the time. \<open>doLatency\<close> sends one and reads as many bytes back, \<open>n\<close>
  times; \<open>rtt\<close> gives the times it measures.
\<close>

definition ping_payload :: "nat \<Rightarrow> u64 \<Rightarrow> byte list" where
  "ping_payload i now = put_be 8 (of_nat i :: u64) @ put_be 8 now"

fun latency_loop ::
    "nat list \<Rightarrow> (nat \<Rightarrow> u64) \<Rightarrow> (nat \<Rightarrow> int) \<Rightarrow> reader \<Rightarrow> writer \<Rightarrow> io_error + int list \<times> writer" where
  "latency_loop [] now rtt r w = Inr ([], w)"
| "latency_loop (i # is) now rtt r w =
     (case conn_write (ping_payload i (now i)) w of
        (Some e, w1) \<Rightarrow> Inl e
      | (None, w1) \<Rightarrow>
          (case read_full pingPayloadSize r of
             (Inl e, r1) \<Rightarrow> Inl e
           | (Inr buf, r1) \<Rightarrow>
               (case latency_loop is now rtt r1 w1 of
                  Inl e \<Rightarrow> Inl e
                | Inr (rtts, w2) \<Rightarrow> Inr (rtt i # rtts, w2))))"

definition doLatency ::
    "io_error + writer \<Rightarrow> nat \<Rightarrow> (nat \<Rightarrow> u64) \<Rightarrow> (nat \<Rightarrow> int) \<Rightarrow> reader \<Rightarrow> io_error + int list \<times> writer" where
  "doLatency dial n now rtt r =
     (case open_test dial [[modePing]] of
        Inl e \<Rightarrow> Inl e
      | Inr w \<Rightarrow> latency_loop [0..<n] now rtt r w)"

text \<open>\<open>doFreshStream\<close> on the outcomes of its attempts: an error, or the time the opening took.\<close>

fun fresh_stream :: "(io_error + int) list \<Rightarrow> nat \<times> int list" where
  "fresh_stream [] = (0, [])"
| "fresh_stream (Inl e # rs) = (case fresh_stream rs of (errs, opens) \<Rightarrow> (Suc errs, opens))"
| "fresh_stream (Inr d # rs) = (case fresh_stream rs of (errs, opens) \<Rightarrow> (errs, d # opens))"

text \<open>
  \<open>doThroughputUp\<close>: each \<open>Write\<close> returns a count and maybe an error, which may be a time-out at or
  after the end of the window; a run that ends so is a result, any other a partial one.
\<close>

datatype write_error = WriteTimeout bool | WriteBroken

datatype event_kind = ResultEvent | PartialEvent

fun throughput_up :: "(nat \<times> write_error option) list \<Rightarrow> u64 \<Rightarrow> (event_kind \<times> u64) option" where
  "throughput_up [] sent = None"
| "throughput_up ((n, None) # ws) sent = throughput_up ws (sent + of_nat n)"
| "throughput_up ((n, Some e) # ws) sent =
     Some (if e = WriteTimeout True then ResultEvent else PartialEvent, sent + of_nat n)"

text \<open>\<open>doThroughputDown\<close>: bytes until an error; the end of the stream makes a result.\<close>

fun throughput_down :: "byte list list \<Rightarrow> byte list \<Rightarrow> io_error \<Rightarrow> u64 \<Rightarrow> event_kind \<times> u64" where
  "throughput_down [] l e got = (if e \<noteq> EOF then PartialEvent else ResultEvent, got + of_nat (length l))"
| "throughput_down (p # ps) l e got = throughput_down ps l e (got + of_nat (length p))"

definition doThroughputUp ::
    "io_error + writer \<Rightarrow> (nat \<times> write_error option) list \<Rightarrow> io_error + (event_kind \<times> u64) option" where
  "doThroughputUp dial writes = map_sum id (\<lambda>w. throughput_up writes 0) (open_test dial [[modeSink]])"

text \<open>\<open>Milliseconds\<close> of a duration truncates toward zero; the request carries it in 32 bits.\<close>

definition Milliseconds :: "int \<Rightarrow> int" where
  "Milliseconds d = (if d < 0 then - (- d div 1000000) else d div 1000000)"

definition down_request :: "int \<Rightarrow> byte list list" where
  "down_request dur = [[modeUpload], put_be 4 (of_int (Milliseconds dur) :: u32)]"

definition doThroughputDown ::
    "io_error + writer \<Rightarrow> int \<Rightarrow> source \<Rightarrow> io_error + (event_kind \<times> u64)" where
  "doThroughputDown dial dur src =
     map_sum id (\<lambda>w. throughput_down (src_reads src) (src_last src) (src_err src) 0)
       (open_test dial (down_request dur))"

text \<open>
  The beats of \<open>doIdle\<close>: one is an error or its time. On each tick the idle window may be over, else there
  is a beat; in the burst there are beats while there is time. The summary is written once,
  whichever phase ends the test.
\<close>

record idle_summary =
  is_idle :: "int list"
  is_burst :: "int list"
  is_broken :: bool

fun burst_phase :: "(bool \<times> (io_error + int)) list \<Rightarrow> int list \<Rightarrow> int list \<Rightarrow> idle_summary option" where
  "burst_phase [] idle burst = None"
| "burst_phase ((timeLeft, beat) # bs) idle burst =
     (if \<not> timeLeft then Some \<lparr>is_idle = idle, is_burst = burst, is_broken = False\<rparr>
      else case beat of
        Inl e \<Rightarrow> Some \<lparr>is_idle = idle, is_burst = burst, is_broken = True\<rparr>
      | Inr d \<Rightarrow> burst_phase bs idle (burst @ [d]))"

fun idle_phase ::
    "(bool \<times> (io_error + int)) list \<Rightarrow> (bool \<times> (io_error + int)) list \<Rightarrow> int list \<Rightarrow> idle_summary option" where
  "idle_phase [] bursts idle = None"
| "idle_phase ((idleOver, beat) # ts) bursts idle =
     (if idleOver then burst_phase bursts idle []
      else case beat of
        Inl e \<Rightarrow> Some \<lparr>is_idle = idle, is_burst = [], is_broken = True\<rparr>
      | Inr d \<Rightarrow> idle_phase ts bursts (idle @ [d]))"

definition idle_beats ::
    "io_error + int \<Rightarrow> (bool \<times> (io_error + int)) list \<Rightarrow> (bool \<times> (io_error + int)) list \<Rightarrow> idle_summary option" where
  "idle_beats opening ticks bursts =
     (case opening of
        Inl e \<Rightarrow> Some \<lparr>is_idle = [], is_burst = [], is_broken = True\<rparr>
      | Inr d \<Rightarrow> idle_phase ticks bursts [d])"

text \<open>
  \<open>runClient\<close> runs the test that its flag names; \<open>main\<close> looks at the arguments. How the program
  ends: with a report, by \<open>die\<close>, \<open>dieResult\<close> or \<open>usage\<close> with their exit codes, by the panic of a ticker
  whose interval is not positive, or not yet.
\<close>

datatype 'f bench_report =
    LatencyReport nat "'f rtt_stats option"
  | FreshReport nat nat "'f rtt_stats option"
  | UpReport event_kind u64
  | DownReport event_kind u64
  | IdleReport idle_summary "'f rtt_stats option" "'f rtt_stats option"

datatype 'f bench_end = Reports "'f bench_report" | Exits nat | Panics | StillRunning

definition dieResult :: "io_error \<Rightarrow> 'f bench_end" where
  "dieResult e = Exits (if e = EOF then 3 else 4)"

record bench_env =
  be_dial :: "io_error + writer"
  be_now :: "nat \<Rightarrow> u64"
  be_rtt :: "nat \<Rightarrow> int"
  be_echo :: reader
  be_opens :: "(io_error + int) list"
  be_writes :: "(nat \<times> write_error option) list"
  be_download :: source
  be_opening :: "io_error + int"
  be_ticks :: "(bool \<times> (io_error + int)) list"
  be_bursts :: "(bool \<times> (io_error + int)) list"

record bench_flags =
  bf_test :: string
  bf_pingN :: nat
  bf_throughputSec :: int
  bf_heartbeatSec :: int

text \<open>\<open>doIdle\<close>: the ticker is made after the mode byte is sent, before the opening beat.\<close>

definition doIdle ::
    "'f floats \<Rightarrow> io_error + writer \<Rightarrow> int \<Rightarrow> io_error + int \<Rightarrow> (bool \<times> (io_error + int)) list \<Rightarrow>
     (bool \<times> (io_error + int)) list \<Rightarrow> 'f bench_end" where
  "doIdle fp dial heartbeatInterval opening ticks bursts =
     (case open_test dial [[modePing]] of
        Inl e \<Rightarrow> dieResult e
      | Inr w \<Rightarrow>
          if heartbeatInterval \<le> 0 then Panics
          else (case idle_beats opening ticks bursts of
              None \<Rightarrow> StillRunning
            | Some s \<Rightarrow> Reports (IdleReport s (stats fp (is_idle s)) (stats fp (is_burst s)))))"

definition runClient :: "'f floats \<Rightarrow> bench_flags \<Rightarrow> bench_env \<Rightarrow> 'f bench_end" where
  "runClient fp f env =
     (if bf_test f = ''latency'' then
        (case doLatency (be_dial env) (bf_pingN f) (be_now env) (be_rtt env) (be_echo env) of
           Inl e \<Rightarrow> dieResult e
         | Inr (rtts, w) \<Rightarrow> Reports (LatencyReport (length rtts) (stats fp rtts)))
      else if bf_test f = ''fresh-stream'' then
        (case fresh_stream (be_opens env) of
           (errs, opens) \<Rightarrow> Reports (FreshReport errs (length opens) (stats fp opens)))
      else if bf_test f = ''throughput-up'' then
        (case doThroughputUp (be_dial env) (be_writes env) of
           Inl e \<Rightarrow> dieResult e
         | Inr None \<Rightarrow> StillRunning
         | Inr (Some (kind, sent)) \<Rightarrow> Reports (UpReport kind sent))
      else if bf_test f = ''throughput-down'' then
        (case doThroughputDown (be_dial env) (seconds (bf_throughputSec f)) (be_download env) of
           Inl e \<Rightarrow> dieResult e
         | Inr (kind, got) \<Rightarrow> Reports (DownReport kind got))
      else if bf_test f = ''idle'' then
        doIdle fp (be_dial env) (seconds (bf_heartbeatSec f)) (be_opening env) (be_ticks env) (be_bursts env)
      else Exits 1)"

text \<open>\<open>runServer\<close> serves every connection it accepts; a failed accept is skipped.\<close>

fun runServer :: "nat option \<Rightarrow> (nat + 'c) list \<Rightarrow> 'f bench_end \<times> 'c list" where
  "runServer (Some e) accepts = (Exits 1, [])"
| "runServer None [] = (StillRunning, [])"
| "runServer None (Inl e # accepts) = runServer None accepts"
| "runServer None (Inr c # accepts) = map_prod id ((#) c) (runServer None accepts)"

definition bench_main ::
    "'f floats \<Rightarrow> string list \<Rightarrow> bench_flags \<Rightarrow> bench_env \<Rightarrow> nat option \<Rightarrow> (nat + 'c) list \<Rightarrow> 'f bench_end" where
  "bench_main fp args f env listen accepts =
     (if length args < 2 then Exits 2
      else if args ! 1 = ''server'' then fst (runServer listen accepts)
      else if args ! 1 = ''client'' then runClient fp f env
      else Exits 2)"

section \<open>Lemmas\<close>

lemma echo_loop_prefix: "\<exists>m. wout (echo_loop ps l w) = wout w @ take m (concat ps @ l)"
proof (induction ps arbitrary: w)
  case Nil
  obtain e w1 where c: "conn_write l w = (e, w1)"
    by (cases "conn_write l w")
  show ?case
  proof (cases e)
    case None
    then show ?thesis
      using c conn_write_NoneD [of l w w1] by (auto intro: exI [of _ "length l"])
  next
    case (Some x)
    then show ?thesis
      using c conn_write_SomeD [of l w x w1] by auto
  qed
next
  case (Cons p ps)
  show ?case
  proof (cases "length p > 0")
    case True
    obtain e w1 where c: "conn_write p w = (e, w1)"
      by (cases "conn_write p w")
    show ?thesis
    proof (cases e)
      case None
      obtain m where "wout (echo_loop ps l w1) = wout w1 @ take m (concat ps @ l)"
        using Cons.IH by blast
      then show ?thesis
        using None c True conn_write_NoneD [of p w w1] by (intro exI [of _ "length p + m"]) simp
    next
      case (Some x)
      then obtain k where "k < length p" "wout w1 = wout w @ take k p"
        using c conn_write_SomeD [of p w x w1] by blast
      then show ?thesis
        using Some c True by (intro exI [of _ k]) simp
    qed
  qed (use Cons.IH in simp)
qed

lemma echo_loop_all: "wroom w = None \<Longrightarrow> wout (echo_loop ps l w) = wout w @ concat ps @ l"
proof (induction ps arbitrary: w)
  case Nil
  then show ?case
    by (simp add: conn_write_unlimited)
next
  case (Cons p ps)
  then show ?case
    using Cons.IH [of "w\<lparr>wout := wout w @ p\<rparr>"] by (simp add: conn_write_unlimited)
qed

lemma sink_loop_count: "sink_loop ps l cnt = cnt + of_nat (length (concat ps @ l))"
  by (induction ps arbitrary: cnt) (simp_all add: ac_simps)

lemma upload_loop_copies:
  "wroom w = None \<Longrightarrow>
   wout (upload_loop clock buf w) = wout w @ concat (replicate (length (takeWhile id clock)) buf)"
proof (induction clock arbitrary: w)
  case (Cons before clock)
  then show ?case
    using Cons.IH [of "w\<lparr>wout := wout w @ buf\<rparr>"] by (simp add: conn_write_unlimited)
qed simp

lemma length_fillRandom: "n \<le> 8 * length rs \<Longrightarrow> length (fillRandom n rs) = n"
proof (induction n rs rule: fillRandom.induct)
  case (2 n r rs)
  show ?case
  proof (cases "n = 0")
    case False
    have "length (fillRandom (n - 8) rs) = n - 8"
      using "2.IH" [OF False] "2.prems" by simp
    then show ?thesis
      using False by simp
  qed simp
qed simp

text \<open>Pings come back one by one, and what was sent is the pings.\<close>

lemma length_ping_payload [simp]: "length (ping_payload i t) = pingPayloadSize"
  by (simp add: ping_payload_def pingPayloadSize_def)

lemma latency_loop_echo:
  "\<lbrakk>wroom w = None; length (rbuf r) = length is * pingPayloadSize\<rbrakk> \<Longrightarrow>
     latency_loop is now rtt r w =
       Inr (map rtt is, w\<lparr>wout := wout w @ concat (map (\<lambda>i. ping_payload i (now i)) is)\<rparr>)"
proof (induction "is" arbitrary: r w)
  case (Cons i "is")
  then have "fst (read_full pingPayloadSize r) = Inr (take pingPayloadSize (rbuf r))"
    "length (rbuf (snd (read_full pingPayloadSize r))) = length is * pingPayloadSize"
    by (simp_all add: read_full_def)
  then show ?case
    using Cons.IH [of "w\<lparr>wout := wout w @ ping_payload i (now i)\<rparr>" "snd (read_full pingPayloadSize r)"] Cons.prems(1)
    by (cases "read_full pingPayloadSize r") (simp add: conn_write_unlimited)
qed simp

text \<open>
  The latency test against the echo server: if the server reads, in whatever slices, what the client
  sends after its mode byte, and the client reads what the server writes, then every ping is measured.
\<close>

lemma latency_over_echo:
  assumes "wroom w = None" and "wroom v = None" and "wout v = []"
    and "src_bytes src = concat (map (\<lambda>i. ping_payload i (now i)) [0..<n])"
    and "r = \<lparr>rbuf = wout (serve_conn (Inr modePing) src rd clock rnd v), rend = e\<rparr>"
  shows "doLatency (Inr w) n now rtt r =
    Inr (map rtt [0..<n], w\<lparr>wout := wout w @ modePing # src_bytes src\<rparr>)"
proof -
  have "length (concat (map (\<lambda>i. ping_payload i (now i)) xs)) = length xs * pingPayloadSize" for xs
    by (induction xs) simp_all
  then have "length (rbuf r) = length [0..<n] * pingPayloadSize"
    using echo_loop_all [OF assms(2)] assms(3-5) by (simp add: serve_conn_def src_bytes_def)
  then show ?thesis
    using latency_loop_echo [of "w\<lparr>wout := wout w @ [modePing]\<rparr>" r "[0..<n]"] assms(1,4)
    by (simp add: doLatency_def open_test_def conn_write_unlimited)
qed

text \<open>The download test asks the server for the milliseconds it meant, up to 49 days.\<close>

lemma down_request_served:
  assumes "send_all (down_request dur) \<lparr>wout = [], wroom = None\<rparr> = Inr w"
    and "0 \<le> dur" and "Milliseconds dur < 2 ^ 32"
  shows "\<exists>ms. wout w = modeUpload # put_be 4 ms \<and> uint ms = Milliseconds dur \<and>
    serve_conn (Inr modeUpload) src \<lparr>rbuf = put_be 4 ms, rend = e\<rparr> clock rnd v =
      upload_loop (clock ms) (fillRandom ioBufSize rnd) v"
proof (intro exI conjI)
  let ?ms = "of_int (Milliseconds dur) :: u32"
  show "wout w = modeUpload # put_be 4 ?ms"
    using assms(1) by (auto simp: down_request_def conn_write_unlimited)
  show "uint ?ms = Milliseconds dur"
    using assms(2,3) by (simp add: Milliseconds_def unsigned_of_int take_bit_int_eq_self)
  have "fst (read_full 4 \<lparr>rbuf = put_be 4 ?ms, rend = e\<rparr>) = Inr (put_be 4 ?ms)"
    by (simp add: read_full_def)
  then show "serve_conn (Inr modeUpload) src \<lparr>rbuf = put_be 4 ?ms, rend = e\<rparr> clock rnd v =
      upload_loop (clock ?ms) (fillRandom ioBufSize rnd) v"
    by (simp add: serve_conn_def modePing_def modeSink_def modeUpload_def)
qed

lemma fresh_stream_total: "fst (fresh_stream rs) + length (snd (fresh_stream rs)) = length rs"
  by (induction rs rule: fresh_stream.induct) (auto split: prod.splits)

lemma throughput_down_bytes: "snd (throughput_down ps l e got) = got + of_nat (length (concat ps @ l))"
  by (induction ps arbitrary: got) (simp_all add: ac_simps)

lemma duration_sum: "duration_sum xs = signed_take_bit 63 (sum_list xs)"
proof -
  have "foldl (\<lambda>sum d. sum + word_of_int d) a xs = a + word_of_int (sum_list xs)" for a :: u64
    by (induction xs arbitrary: a) simp_all
  then show ?thesis
    by (simp add: duration_sum_def signed_of_int)
qed






section \<open>Properties of the benchmark\<close>

text \<open>C39 (functional): the server keeps its protocol in every mode, on a working connection: a ping
  stream is echoed byte for byte, the sink answers the number of bytes (modulo \<open>2 ^ 64\<close>) in eight
  bytes big-endian, the upload sends its buffer once for every time the clock is ahead of the
  deadline for the duration asked, a hello is answered by one byte, and anything else by nothing.\<close>

theorem serve_protocol:
  assumes "wroom w = None"
  shows "wout (serve_conn (Inr modePing) src rd clock rnd w) = wout w @ src_bytes src \<and>
    wout (serve_conn (Inr modeSink) src rd clock rnd w) = wout w @ put_be 8 (of_nat (length (src_bytes src)) :: u64) \<and>
    wout (serve_conn (Inr modeHello) src rd clock rnd w) = wout w @ [modeHello] \<and>
    wout (serve_conn (Inr modeUpload) src \<lparr>rbuf = put_be 4 (ms :: u32) @ rest, rend = e\<rparr> clock rnd w) =
      wout w @ concat (replicate (length (takeWhile id (clock ms))) (fillRandom ioBufSize rnd)) \<and>
    serve_conn (Inl e) src rd clock rnd w = w \<and>
    (mode \<notin> {modePing, modeSink, modeUpload, modeHello} \<longrightarrow> serve_conn (Inr mode) src rd clock rnd w = w)"
proof -
  note modes = modePing_def modeSink_def modeUpload_def modeHello_def
  have "fst (read_full 4 \<lparr>rbuf = put_be 4 ms @ rest, rend = e\<rparr>) = Inr (put_be 4 ms)"
    by (simp add: read_full_prefix)
  then have "wout (serve_conn (Inr modeUpload) src \<lparr>rbuf = put_be 4 ms @ rest, rend = e\<rparr> clock rnd w) =
      wout w @ concat (replicate (length (takeWhile id (clock ms))) (fillRandom ioBufSize rnd))"
    using upload_loop_copies [OF assms] by (simp add: serve_conn_def modes)
  moreover have "wout (serve_conn (Inr modeSink) src rd clock rnd w) = wout w @ put_be 8 (of_nat (length (src_bytes src)) :: u64)"
    using assms by (simp add: serve_conn_def modes conn_write_unlimited sink_loop_count src_bytes_def)
  moreover have "wout (serve_conn (Inr modePing) src rd clock rnd w) = wout w @ src_bytes src"
    using echo_loop_all [OF assms] by (simp add: serve_conn_def src_bytes_def)
  moreover have "wout (serve_conn (Inr modeHello) src rd clock rnd w) = wout w @ [modeHello]"
    using assms by (simp add: serve_conn_def modes conn_write_unlimited)
  moreover have "serve_conn (Inl e) src rd clock rnd w = w"
    by (simp add: serve_conn_def)
  moreover have "mode \<notin> {modePing, modeSink, modeUpload, modeHello} \<Longrightarrow> serve_conn (Inr mode) src rd clock rnd w = w"
    by (simp add: serve_conn_def)
  ultimately show ?thesis
    by blast
qed

theorem serve_protocol_witness:
  "wout (serve_conn (Inr 83) \<lparr>src_reads = [[1, 2], [3]], src_last = [4], src_err = EOF\<rparr> \<lparr>rbuf = [], rend = EOF\<rparr>
     (\<lambda>ms. []) [] \<lparr>wout = [], wroom = None\<rparr>) = put_be 8 (4 :: u64)"
  using serve_protocol [of "\<lparr>wout = [], wroom = None\<rparr>" "\<lparr>src_reads = [[1, 2], [3]], src_last = [4], src_err = EOF\<rparr>"]
  by (simp add: modeSink_def src_bytes_def)




end
