(* ===== verification/Spec2Isabelle.thy ===== *)
theory Spec2Isabelle
  imports Pump PumpPair Router Listener Config Signaling SigClient Ice Pairing PacketConn Tls PacketQueue Transport Peer Bench
begin

text \<open>
  Verification library for nl-punch, a NAT-punching TCP forwarder: two peers meet over a signaling
  server, connect through ICE, lay four QUIC connections over the path and forward TCP connections
  as multiplexed streams, each with a tagged header and length-prefixed chunks.

  Parts of the program and the theories that model them, in the order of their dependencies:

  \<^item> \<open>Prelude\<close>: Go strings, big-endian integers, \<open>io.ReadFull\<close>, writers that may break, ranges over
    maps; the locale \<open>frame_codec\<close> of self-delimiting codecs.
  \<^item> \<open>Machine\<close>: runs of a step function; the locales \<open>machine_invariant\<close> and \<open>machine_measure\<close>, which
    the sender, the receiver, the pump pair, the router, the rendezvous protocol and the
    transport interpret, so that each proves its laws for one step only.
  \<^item> \<open>Wire\<close> (\<open>internal/forward/forward.go\<close>, lines 30-163): stream header and chunk codecs; both
    interpret \<open>frame_codec\<close>. A reader is the bytes still to come with the error that ends them, a
    writer what was accepted so far and how much it still takes.
  \<^item> \<open>StripeSend\<close>, \<open>StripeRecv\<close>, \<open>StripeChan\<close>, \<open>Pump\<close>, \<open>PumpPair\<close> (\<open>forward.go\<close>, lines 458-661):
    \<open>writeStripes\<close> and \<open>readStripesToTCP\<close> with their goroutines and channels as step relations, one
    action per goroutine step, so that a run is an interleaving; the receiver's main loop also as a
    function that the step relation refines; delivery through both; the two directions of a
    connection coupled by \<open>closeAll\<close>.
  \<^item> \<open>Router\<close> (\<open>forward.go\<close>, lines 308-456): stripe groups, handlers, \<open>Run\<close> and \<open>Close\<close>. The mutex
    makes the join of a group one step.
  \<^item> \<open>Listener\<close> (\<open>forward.go\<close>, lines 165-306): sockets, \<open>Start\<close>, \<open>Close\<close>, \<open>handle\<close>.
  \<^item> \<open>Config\<close> (\<open>internal/config/config.go\<close>): types, defaults, validation, \<open>Load\<close>, and the expansion
    of environment variables it calls.
  \<^item> \<open>Signaling\<close>, \<open>SigClient\<close> (\<open>internal/signaling\<close>): store, handlers, middleware, routing; client
    calls and polling. The locale \<open>rendezvous\<close> is the contract the peers rely on; the store
    interprets it, and the protocol's proofs use its laws.
  \<^item> \<open>Ice\<close>, \<open>Pairing\<close> (\<open>internal/ice/ice.go\<close>): \<open>Connect\<close> with every early return, and the exchange run by two
    peers any number of times over one server.
  \<^item> \<open>PacketConn\<close> (\<open>ice.go\<close>, lines 267-292): the adapter between the ICE connection and QUIC.
  \<^item> \<open>Tls\<close> (\<open>transport.go\<close>, lines 22, 129-202): QUIC settings, certificate, TLS configurations.
  \<^item> \<open>PacketQueue\<close> (\<open>transport.go\<close>, lines 62-127): the packet queue under QUIC, with its slices in an
    explicit store, so that the shared read buffer and the copies are different addresses.
  \<^item> \<open>Transport\<close> (\<open>internal/transport/transport.go\<close>): set-up, round-robin, fan-in and \<open>Close\<close>, whose
    calls may overlap and make one step per statement; a send on a closed channel is a state.
  \<^item> \<open>Peer\<close> (\<open>cmd/nl-punch/main.go\<close>): start-up, reconnect loop and one session, composed of the above;
    the session keeps a stack of deferred calls, pushed by each \<open>defer\<close> and run when it returns.
  \<^item> \<open>Bench\<close> (\<open>cmd/nl-punch-bench/main.go\<close>): the benchmark's wire protocol, tests and statistics.

  What the properties show: codecs round-trip and reject everything else; striping delivers exactly
  the bytes read, and never anything but a prefix of them when something breaks; the pump returns
  unless its sender is wedged, and the ways it wedges, leaks and truncates; stripes meet whatever
  the order of arrival and no stream is pumped twice; the peers agree on the offer and answer of
  an attempt; the name of a forwarded connection leads to the port the configurations give; set-up
  and sessions release what they acquired, apart from two leaks that the theorem names; waits and
  queues are bounded, and closing a session neither blocks nor panics. The property of this theory composes listener,
  wire, sender, router and receiver.

  Bounds: sequence numbers are 32-bit words, so with several streams delivery is stated for up to
  \<open>2 ^ 32\<close> chunks; with the single stream the code opens there is no bound. No definition needs
  fuel: loops are structural, have a measure, or run on the list of the environment's answers
  (polls, dial results, events of a session), and termination is stated as a bound on the
  number of steps.

  Parameters: the ICE and QUIC libraries (results of their calls, connections as numbers or as an
  abstract type; that closing an ICE connection closes its agent and fails its reads is a
  hypothesis), the floating-point arithmetic of the statistics (three functions, assumed monotone), HTTP and JSON (a request arrives parsed, the client's network is a function), the
  operating system (answers to binds, files, environment), random numbers (the nonce and the jitter
  are arguments with their documented ranges), and the order of Go's map ranges.

  Not modelled: time (deadlines and time-outs are events of the environment), logging, flag parsing,
  the \<open>main\<close> of the signaling program (flags around the modelled server), and the printing of the
  benchmark program.
\<close>

text \<open>The one stream of a connection: its header is written first, and the pump follows on it.\<close>

definition connection_header :: "string \<Rightarrow> u64 \<Rightarrow> streamHeader" where
  "connection_header name r =
     \<lparr>tag = name, sessionID = session_id r, stripeIdx = 0, numStripes = 1\<rparr>"

lemma connection_header_ok:
  "name \<noteq> [] \<Longrightarrow> length name \<le> maxTagLen \<Longrightarrow> header_ok (connection_header name r)"
  by (simp add: header_ok_def connection_header_def)

lemma handle_opens:
  assumes "wroom w = None" and "name \<noteq> []" and "length name \<le> maxTagLen"
  shows "tl_handle name r (Inr w # opens) = Pumping [w\<lparr>wout := wout w @ header_bytes (connection_header name r)\<rparr>]"
  using assms
  by (simp add: tl_handle_def listenStripes_def writeStreamHeader_def conn_write_unlimited connection_header_def
      not_less)

text \<open>What the sender adds to its stream comes after what the stream held.\<close>

lemma ws_stream_extends:
  assumes "ws_steps (ws_init src [w]) s"
  shows "wout (ws_streams s ! 0) = wout w @ new_bytes w (ws_streams s ! 0)"
proof -
  obtain owns k where inv: "ws_inv (src_chunks src) [w] s owns k"
    using ws_inv_reachable [OF assms] by blast
  then have "\<exists>bs. carried w (ws_streams s ! 0) bs"
    by (auto simp: ws_inv_def stream_inv_def)
  then obtain m bs where "wout (ws_streams s ! 0) = wout w @ take m bs"
    using carried_prefix by blast
  then show ?thesis
    by (simp add: new_bytes_def)
qed

lemma join_single:
  assumes "gs (sessionID h) = None" and "stripeIdx h = 0" and "numStripes h = 1"
  shows "\<exists>g. join_group i h gs = (Completes g, gs) \<and> group_streams g = [i]"
proof -
  have "gs(sessionID h := None) = gs"
    using assms(1) by (simp add: fun_upd_idem)
  then show ?thesis
    using assms by (simp add: join_group_def new_group_def allReady_def group_streams_def Let_def)
qed

text \<open>The far end reads the header and goes on with exactly the bytes the sender added.\<close>

lemma router_takes_connection:
  assumes "dials name = Some port" and "name \<noteq> []" and "length name \<le> maxTagLen"
    and "rt_running q" and "rt_groups q (session_id r) = None"
    and "rd = \<lparr>rbuf = header_bytes (connection_header name r) @ rest, rend = e\<rparr>"
  shows "snd (readStreamHeader rd) = \<lparr>rbuf = rest, rend = e\<rparr> \<and>
    (\<exists>q' g. rt_run dials [RAccept rd, RHeader (length (rt_handlers q))] q = Some q' \<and>
       rt_handlers q' = rt_handlers q @ [HDial port g] \<and> group_streams g = [length (rt_handlers q)] \<and>
       rt_groups q' = rt_groups q)"
proof -
  let ?h = "connection_header name r"
  have read: "readStreamHeader rd = (Inr ?h, rd\<lparr>rbuf := rest\<rparr>)"
    using readStreamHeader_header_bytes [OF connection_header_ok [OF assms(2,3)]] assms(6) by simp
  obtain g where "join_group (length (rt_handlers q)) ?h (rt_groups q) = (Completes g, rt_groups q)"
    "group_streams g = [length (rt_handlers q)]"
    using join_single [of "rt_groups q" ?h] assms(5) by (auto simp: connection_header_def)
  moreover have "tag ?h = name"
    by (simp add: connection_header_def)
  ultimately show ?thesis
    using assms(1,4,6) read by (simp add: rt_handle_def Let_def)
qed

text \<open>C1 (functional): the tunnel end to end. When \<open>handle\<close> of a listener gets a fresh working
  stream, it pumps on it; whatever the connection to forward delivers and however the goroutines
  interleave, once the sender has returned the router of the other side, in whatever state and with
  whatever other connections, takes the stream as complete group of its own, dials the port its
  dial map has for the listener's name, and the receiver on the rest of the stream writes exactly
  the bytes the connection delivered.\<close>

theorem tunnel_delivers:
  assumes "dials name = Some port" and "name \<noteq> []" and "length name \<le> maxTagLen"
    and "wroom w = None" and "wout w = []"
    and "tl_handle name r (Inr w # opens) = Pumping streams"
    and "ws_steps (ws_init src streams) s" and "ws_at s = WsDone" and "source_ok src"
    and "rt_running q" and "rt_groups q (session_id r) = None"
    and "rd = \<lparr>rbuf = wout (ws_streams s ! 0), rend = e\<rparr>"
  shows "(\<exists>q' g. rt_run dials [RAccept rd, RHeader (length (rt_handlers q))] q = Some q' \<and>
      rt_handlers q' = rt_handlers q @ [HDial port g] \<and> group_streams g = [length (rt_handlers q)] \<and>
      rt_groups q' = rt_groups q) \<and>
    (\<forall>dst es t. rr_reach [snd (readStreamHeader rd)] dst es t \<longrightarrow> rr_at t = MDone \<longrightarrow> wroom dst = None \<longrightarrow>
      wout (rs_dst (rr_rs t)) = wout dst @ src_bytes src)"
proof -
  let ?w = "w\<lparr>wout := header_bytes (connection_header name r)\<rparr>"
  have streams: "streams = [?w]"
    using handle_opens [OF assms(4,2,3), of r opens] assms(5,6) by simp
  have steps: "ws_steps (ws_init src [?w]) s"
    using assms(7) streams by simp
  have rd: "rd = \<lparr>rbuf = header_bytes (connection_header name r) @ new_bytes ?w (ws_streams s ! 0), rend = e\<rparr>"
    using ws_stream_extends [OF steps] assms(12) by simp
  note taken = router_takes_connection [where dials = dials, OF assms(1,2,3,10,11) rd]
  have "wout (rs_dst (rr_rs t)) = wout dst @ src_bytes src"
    if "rr_reach [snd (readStreamHeader rd)] dst es t" "rr_at t = MDone" "wroom dst = None" for dst es t
    using single_stream_delivery [OF steps assms(8,9) _ _ that(2,3)] that(1) taken assms(4) by simp
  then show ?thesis
    using taken by blast
qed

theorem tunnel_delivers_witness:
  "\<exists>(s :: ws_state) q' g. ws_at s = WsDone \<and>
     rt_run [''http'' \<mapsto> 80] [RAccept \<lparr>rbuf = wout (ws_streams s ! 0), rend = EOF\<rparr>, RHeader 0] NewAcceptRouter = Some q' \<and>
     rt_handlers q' = [HDial 80 g]"
proof -
  let ?w = "sample_writer\<lparr>wout := header_bytes (connection_header ''http'' 5)\<rparr>"
  have ok: "''http'' \<noteq> []" "length ''http'' \<le> maxTagLen" "wroom sample_writer = None" "wout sample_writer = []"
    by (simp_all add: maxTagLen_def sample_writer_def)
  have h: "tl_handle ''http'' 5 [Inr sample_writer] = Pumping [?w]"
    using handle_opens [OF ok(3,1,2), of 5 "[]"] ok(4) by simp
  have "\<exists>s. ws_run [ARead, ADispatch 0, AWrite 0, ARead, ARead, ADispatch 0, AWrite 0, ARead,
      ADispatch 0, AWrite 0, AQuit 0, AWait, AMark, AMark] (ws_init two_reads [?w]) = Some s \<and> ws_at s = WsDone"
    by (simp add: ws_init_def two_reads_def sample_writer_def src_read_def io_simps
        del: chunk_bytes.simps)
  then obtain s where s: "ws_steps (ws_init two_reads [?w]) s" "ws_at s = WsDone"
    using ws_run_steps by blast
  have q: "rt_running NewAcceptRouter" "rt_groups NewAcceptRouter (session_id 5) = None"
    "rt_handlers NewAcceptRouter = []"
    by (simp_all add: NewAcceptRouter_def)
  have "[''http'' \<mapsto> 80] ''http'' = Some (80 :: int)"
    by simp
  from tunnel_delivers [where dials = "[''http'' \<mapsto> 80]" and e = EOF, OF this ok h s two_reads_ok(1) q(1,2) refl] s(2) q(3) show ?thesis
    by (auto simp del: run.simps intro: exI [of _ s])
qed

end
